(* ===== verification/Prelude.thy ===== *)
theory Prelude
  imports Main "HOL-Library.Word"
begin

text \<open>
  Shared vocabulary of the development: the C integer types as machine words, the ways in
  which a kernel routine can fail to return a value, the byte-addressed memory with its
  32-bit little-endian accesses, and the general lemmas the component theories rest on.
  The lemma collections \<open>res_simps\<close> (results) and \<open>mem_simps\<close> (memory) are
  declared here and used by every later theory.
\<close>

unbundle bit_operations_syntax

named_theorems res_simps "evaluation of results"
named_theorems mem_simps "reading a memory after it was written"

section \<open>C types\<close>

type_synonym u8 = "8 word"
type_synonym u16 = "16 word"
type_synonym u32 = "32 word"
type_synonym u64 = "64 word"

text \<open>A signed C \<^verbatim>\<open>int\<close> is an \<open>int\<close> within these bounds; leaving them is a fault.\<close>

definition c_int_max :: int where
  "c_int_max = 2147483647"

definition c_int_min :: int where
  "c_int_min = - 2147483648"

definition c_int_ok :: "int \<Rightarrow> bool" where
  "c_int_ok i \<longleftrightarrow> c_int_min \<le> i \<and> i \<le> c_int_max"

lemmas c_int_defs = c_int_max_def c_int_min_def c_int_ok_def

section \<open>Results\<close>

text \<open>
  A routine that does not deliver its value ends in a fault: a failed \<^verbatim>\<open>ASSERT\<close>
  (which loops forever after printing), an access outside a C array, a signed overflow,
  a division by zero, or a halted processor. \<open>Out_of_fuel\<close> belongs to the model alone.
\<close>

datatype fault =
    Assert_failed string
  | Out_of_bounds
  | Signed_overflow
  | Div_by_zero
  | Halted
  | Out_of_fuel

type_synonym 'a res = "fault + 'a"

definition res_bind :: "'a res \<Rightarrow> ('a \<Rightarrow> 'b res) \<Rightarrow> 'b res" where
  "res_bind r k = (case r of Inl e \<Rightarrow> Inl e | Inr x \<Rightarrow> k x)"

lemma res_bind_Inl [simp, res_simps]: "res_bind (Inl e) k = Inl e"
  by (simp add: res_bind_def)

lemma res_bind_Inr [simp, res_simps]: "res_bind (Inr x) k = k x"
  by (simp add: res_bind_def)

lemma res_bind_eq_Inr [res_simps]:
  "res_bind r k = Inr y \<longleftrightarrow> (\<exists>x. r = Inr x \<and> k x = Inr y)"
  by (cases r) (auto simp: res_bind_def)

lemma res_bind_eq_Inl:
  "res_bind r k = Inl e \<longleftrightarrow> r = Inl e \<or> (\<exists>x. r = Inr x \<and> k x = Inl e)"
  by (cases r) (auto simp: res_bind_def)

lemma res_bind_cong [fundef_cong]:
  "r = r' \<Longrightarrow> (\<And>x. r' = Inr x \<Longrightarrow> k x = k' x) \<Longrightarrow> res_bind r k = res_bind r' k'"
  by (cases r') (auto simp: res_bind_def)

section \<open>Words\<close>

lemma unat_less_pow: "unat (x :: 'a::len word) < 2 ^ LENGTH('a)"
  by simp

lemma unat_add_nowrap:
  fixes a b :: "'a::len word"
  shows "unat a + unat b < 2 ^ LENGTH('a) \<Longrightarrow> unat (a + b) = unat a + unat b"
  by (simp add: unat_word_ariths)

lemma unat_sub_le:
  fixes a b :: "'a::len word"
  shows "b \<le> a \<Longrightarrow> unat (a - b) = unat a - unat b"
  by (simp add: unat_sub)

lemma unat_Suc_less:
  fixes i n :: "'a::len word"
  assumes "i < n"
  shows "unat (i + 1) = Suc (unat i)"
proof -
  have "unat i + 1 < 2 ^ LENGTH('a)"
    using assms unat_less_pow [of n] unfolding word_less_nat_alt by linarith
  then show ?thesis
    by (simp add: unat_word_ariths)
qed

lemma word_less_Suc_measure:
  fixes i n :: "'a::len word"
  shows "i < n \<Longrightarrow> unat n - unat (i + 1) < unat n - unat i"
  by (simp add: unat_Suc_less word_less_nat_alt)

lemma unat_pred:
  fixes n :: "'a::len word"
  shows "n \<noteq> 0 \<Longrightarrow> unat (n - 1) = unat n - 1"
  by (simp add: unat_minus_one)

lemma of_nat_less_iff_unat:
  fixes a :: "'a::len word"
  shows "n < 2 ^ LENGTH('a) \<Longrightarrow> a < of_nat n \<longleftrightarrow> unat a < n"
  by (simp add: word_less_nat_alt unat_of_nat)

lemma unat_of_nat_small:
  "n < 2 ^ LENGTH('a::len) \<Longrightarrow> unat (of_nat n :: 'a word) = n"
  by (simp add: unat_of_nat)

lemma of_nat_inj_small:
  "m < 2 ^ LENGTH('a::len) \<Longrightarrow> n < 2 ^ LENGTH('a) \<Longrightarrow>
    (of_nat m :: 'a word) = of_nat n \<longleftrightarrow> m = n"
  by (metis unat_of_nat_small)

lemma of_nat_eq_numeral:
  assumes "n < 2 ^ LENGTH('a::len)" "numeral w < (2 :: nat) ^ LENGTH('a)"
  shows "(of_nat n :: 'a word) = numeral w \<longleftrightarrow> n = numeral w"
  using of_nat_inj_small [OF assms] by (simp only: of_nat_numeral)

lemma ucast_Suc:
  fixes i :: "'a::len word"
  shows "unat (i + 1) = Suc (unat i) \<Longrightarrow> (ucast (i + 1) :: 'b::len word) = ucast i + 1"
  by (metis of_nat_unat of_nat_Suc add.commute)

lemma ucast_eq_of_nat: "(ucast (i :: 'a::len word) :: 'b::len word) = of_nat (unat i)"
  by simp

lemma ucast_of_nat_small:
  "n < 2 ^ LENGTH('a::len) \<Longrightarrow> (ucast (of_nat n :: 'a word) :: 'b::len word) = of_nat n"
  by (simp only: ucast_eq_of_nat unat_of_nat_small)

text \<open>Masks written as numerals, bit by bit.\<close>

lemma bit_mask_literals:
  "bit (0xFFFF :: int) n \<longleftrightarrow> n < 16" "bit (0xFF :: int) n \<longleftrightarrow> n < 8"
  "bit (0x0F :: int) n \<longleftrightarrow> n < 4" "bit (0xFFFFF :: int) n \<longleftrightarrow> n < 20"
  "bit (0xF0 :: int) n \<longleftrightarrow> 4 \<le> n \<and> n < 8"
proof -
  have m: "bit (mask k :: int) i \<longleftrightarrow> i < k" for k i
    by (simp add: bit_mask_iff)
  show "bit (0xFFFF :: int) n \<longleftrightarrow> n < 16" "bit (0xFF :: int) n \<longleftrightarrow> n < 8"
    "bit (0x0F :: int) n \<longleftrightarrow> n < 4" "bit (0xFFFFF :: int) n \<longleftrightarrow> n < 20"
    using m [of 16 n] m [of 8 n] m [of 4 n] m [of 20 n] by (simp_all add: mask_eq_exp_minus_1)
  have "(0xF0 :: int) = push_bit 4 (mask 4)"
    by (simp add: mask_eq_exp_minus_1 push_bit_eq_mult)
  then show "bit (0xF0 :: int) n \<longleftrightarrow> 4 \<le> n \<and> n < 8"
    by (simp only: bit_push_bit_iff m) auto
qed

lemmas bit_field_simps = bit_and_iff bit_or_iff bit_push_bit_iff bit_drop_bit_eq bit_ucast_iff
  bit_mask_literals

lemma unat_ucast_up:
  fixes x :: "'a::len word"
  assumes "LENGTH('a) \<le> LENGTH('b::len)"
  shows "unat (ucast x :: 'b word) = unat x"
proof -
  have "(2 :: nat) ^ LENGTH('a) \<le> 2 ^ LENGTH('b)"
    using assms by (simp add: power_increasing)
  then have "unat x < 2 ^ LENGTH('b)"
    by (rule less_le_trans [OF unat_less_pow])
  then show ?thesis
    by (simp add: unsigned_ucast_eq unsigned_take_bit_eq take_bit_nat_eq_self)
qed

lemma ucast_up_eq_0:
  fixes x :: "'a::len word"
  shows "LENGTH('a) \<le> LENGTH('b::len) \<Longrightarrow> (ucast x :: 'b word) = 0 \<longleftrightarrow> x = 0"
  by (metis unat_ucast_up unat_eq_0)

lemma ucast_low_byte: "(ucast (x AND 0xFF :: u32) :: u8) = ucast x"
  by (rule bit_word_eqI) (auto simp: bit_field_simps)

lemma unat_ucast_u8: "unat (ucast (x :: u32) :: u8) = unat x mod 256"
  by (simp add: unsigned_ucast_eq take_bit_eq_mod)

lemma unat_and_mask: "unat (x AND mask n :: 'a::len word) = unat x mod 2 ^ n"
proof -
  have "unat (x AND mask n) = take_bit n (unat x)"
    by (simp only: take_bit_eq_mask [symmetric] unsigned_take_bit_eq)
  then show ?thesis by (simp only: take_bit_eq_mod)
qed

lemma unat_and_low_bits:
  fixes x :: u32
  shows "unat (x AND 0x7F) = unat x mod 128" "unat (x AND 0xFFF) = unat x mod 4096"
  using unat_and_mask [of x 7] unat_and_mask [of x 12] by (simp_all add: mask_eq_exp_minus_1)

section \<open>Byte-addressed memory\<close>

text \<open>
  The address space is flat: every 32-bit address holds a byte. A 32-bit access is
  little-endian, and address arithmetic wraps as it does on the processor.
\<close>

type_synonym mem = "u32 \<Rightarrow> u8"

definition load32 :: "mem \<Rightarrow> u32 \<Rightarrow> u32" where
  "load32 m a = ucast (m a) OR push_bit 8 (ucast (m (a + 1)))
     OR push_bit 16 (ucast (m (a + 2))) OR push_bit 24 (ucast (m (a + 3)))"

definition store32 :: "mem \<Rightarrow> u32 \<Rightarrow> u32 \<Rightarrow> mem" where
  "store32 m a v = m(a := ucast v, a + 1 := ucast (drop_bit 8 v),
     a + 2 := ucast (drop_bit 16 v), a + 3 := ucast (drop_bit 24 v))"

text \<open>
  The bytes from \<open>base\<close> on, \<open>n\<close> of them, with wrap-around: \<open>a\<close> is among them when
  its distance from \<open>base\<close>, modulo \<open>2 ^ 32\<close>, is below \<open>n\<close>.
\<close>

definition in_range :: "u32 \<Rightarrow> nat \<Rightarrow> u32 \<Rightarrow> bool" where
  "in_range base n a \<longleftrightarrow> unat (a - base) < n"

definition unchanged_outside :: "u32 \<Rightarrow> nat \<Rightarrow> mem \<Rightarrow> mem \<Rightarrow> bool" where
  "unchanged_outside base n m m' \<longleftrightarrow> (\<forall>a. \<not> in_range base n a \<longrightarrow> m' a = m a)"

lemma in_range_0 [simp]: "\<not> in_range base 0 a"
  by (simp add: in_range_def)

lemma in_range_base [simp]: "in_range base n base \<longleftrightarrow> 0 < n"
  by (simp add: in_range_def)

lemma not_in_range_before: "n < 2 ^ 32 \<Longrightarrow> \<not> in_range (base + 1) n base"
  by (simp add: in_range_def unsigned_minus_1_eq_mask mask_eq_exp_minus_1)

lemma in_range_Suc:
  assumes "n < 2 ^ 32"
  shows "in_range base (Suc n) a \<longleftrightarrow> a = base \<or> in_range (base + 1) n a"
proof (cases "a = base")
  case True
  then show ?thesis by simp
next
  case False
  then have "unat (a - (base + 1)) = unat (a - base) - 1"
    using unat_pred [of "a - base"] by (simp add: algebra_simps)
  moreover have "0 < unat (a - base)"
    using False by (simp add: unat_gt_0)
  ultimately show ?thesis
    using False by (auto simp: in_range_def)
qed

lemma in_range_offset:
  "k < n \<Longrightarrow> n \<le> 2 ^ 32 \<Longrightarrow> in_range base n (base + of_nat k)"
  by (simp add: in_range_def unat_of_nat_small)

lemma in_range_iff_offset:
  assumes "n \<le> 2 ^ 32"
  shows "in_range base n a \<longleftrightarrow> (\<exists>k<n. a = base + of_nat k)"
proof
  assume "in_range base n a"
  then have "unat (a - base) < n \<and> a = base + of_nat (unat (a - base))"
    by (simp add: in_range_def)
  then show "\<exists>k<n. a = base + of_nat k" by blast
qed (use assms in \<open>auto intro: in_range_offset\<close>)

lemma unchanged_outside_refl [simp]: "unchanged_outside base n m m"
  by (simp add: unchanged_outside_def)

lemma unchanged_outsideD:
  "unchanged_outside base n m m' \<Longrightarrow> \<not> in_range base n a \<Longrightarrow> m' a = m a"
  by (simp add: unchanged_outside_def)

lemma unchanged_outside_trans:
  "unchanged_outside base n m m' \<Longrightarrow> unchanged_outside base n m' m'' \<Longrightarrow>
    unchanged_outside base n m m''"
  by (simp add: unchanged_outside_def)

lemma unchanged_outside_mono:
  "unchanged_outside base n m m' \<Longrightarrow> n \<le> n' \<Longrightarrow> unchanged_outside base n' m m'"
  by (auto simp: unchanged_outside_def in_range_def)

lemma unchanged_outside_upd:
  "in_range base n a \<Longrightarrow> unchanged_outside base n m m' \<Longrightarrow>
    unchanged_outside base n m (m'(a := x))"
  by (auto simp: unchanged_outside_def)

lemma word32_bytes:
  fixes v :: u32
  shows "ucast (ucast v :: u8) OR push_bit 8 (ucast (ucast (drop_bit 8 v) :: u8))
     OR push_bit 16 (ucast (ucast (drop_bit 16 v) :: u8))
     OR push_bit 24 (ucast (ucast (drop_bit 24 v) :: u8)) = v" (is "?bytes = v")
proof (rule bit_word_eqI)
  fix n assume "n < LENGTH(32)"
  then consider "n < 8" | "8 \<le> n" "n < 16" | "16 \<le> n" "n < 24" | "24 \<le> n" "n < 32"
    by fastforce
  then show "bit ?bytes n = bit v n"
    by cases (auto simp: bit_or_iff bit_push_bit_iff bit_ucast_iff bit_drop_bit_eq)
qed

lemma load32_store32_same [simp, mem_simps]: "load32 (store32 m a v) a = v"
  using word32_bytes [of v] by (simp add: load32_def store32_def)

lemma store32_other:
  assumes "\<not> in_range a 4 b"
  shows "store32 m a v b = m b"
proof -
  have "b \<noteq> a + k" if "unat k < 4" for k
    using assms that by (auto simp: in_range_def)
  from this [of 0] this [of 1] this [of 2] this [of 3]
  have "b \<noteq> a" "b \<noteq> a + 1" "b \<noteq> a + 2" "b \<noteq> a + 3"
    by simp_all
  then show ?thesis by (simp add: store32_def)
qed

lemma store32_twice [simp, mem_simps]: "store32 (store32 m a v) a w = store32 m a w"
  by (rule ext) (simp add: store32_def)

lemma load32_cong:
  assumes "\<And>k. unat k < 4 \<Longrightarrow> m' (a + k) = m (a + k)"
  shows "load32 m' a = load32 m a"
  using assms [of 0] assms [of 1] assms [of 2] assms [of 3] by (simp add: load32_def)

lemma unat_neg:
  fixes d :: "'a::len word"
  assumes "d \<noteq> 0"
  shows "unat (- d) = 2 ^ LENGTH('a) - unat d"
  using unat_sub_if' [of 0 d] assms by (simp add: unat_gt_0)

lemma load32_store32_disjoint:
  assumes "4 \<le> unat (b - a)" "4 \<le> unat (a - b)"
  shows "load32 (store32 m a v) b = load32 m b"
proof (rule load32_cong)
  fix k :: u32 assume k: "unat k < 4"
  have "b - a \<noteq> 0" using assms(1) by auto
  then have "unat (a - b) = 2 ^ 32 - unat (b - a)"
    using unat_neg [of "b - a"] by simp
  then have "unat (b - a) + unat k < 2 ^ 32"
    using assms(2) k by linarith
  then have "unat (b - a + k) = unat (b - a) + unat k"
    by (simp add: unat_word_ariths)
  moreover have "b + k - a = b - a + k" by simp
  ultimately have "4 \<le> unat (b + k - a)"
    using assms(1) by (simp only: le_add1 order_trans)
  then have "\<not> in_range a 4 (b + k)"
    by (simp only: in_range_def not_less)
  then show "store32 m a v (b + k) = m (b + k)" by (rule store32_other)
qed

text \<open>Aligned words are the same or disjoint.\<close>

definition aligned4 :: "u32 \<Rightarrow> bool" where
  "aligned4 a \<longleftrightarrow> 4 dvd unat a"

lemma aligned4_add: "aligned4 a \<Longrightarrow> aligned4 b \<Longrightarrow> aligned4 (a + b)"
  by (simp add: aligned4_def unat_word_ariths dvd_mod_iff)

lemma aligned4_diff: "aligned4 a \<Longrightarrow> aligned4 b \<Longrightarrow> aligned4 (a - b)"
  by (auto simp: aligned4_def unat_sub_if' intro!: dvd_diff_nat dvd_add)

lemma aligned4_mult: "aligned4 (4 * i)" "aligned4 (i * 4)"
  by (simp_all add: aligned4_def unat_word_ariths dvd_mod_iff)

lemma aligned4_far: "aligned4 d \<Longrightarrow> d \<noteq> 0 \<Longrightarrow> 4 \<le> unat d"
  by (auto simp: aligned4_def dvd_def unat_eq_0) (metis unat_eq_0 mult_0_right gr0I Suc_leI mult_le_mono2 nat_mult_1_right One_nat_def)

lemma load32_store32_aligned [mem_simps]:
  assumes "aligned4 a" "aligned4 b"
  shows "load32 (store32 m a v) b = (if a = b then v else load32 m b)"
proof (cases "a = b")
  case False
  then show ?thesis
    using aligned4_far [OF aligned4_diff [OF assms(2,1)]] aligned4_far [OF aligned4_diff [OF assms]]
    by (simp add: load32_store32_disjoint)
qed simp

end
