(* ===== verification/Clib.thy ===== *)
theory Clib
  imports Prelude
begin

text \<open>
  The kernel's C library: \<^verbatim>\<open>libc/string.c\<close>, \<^verbatim>\<open>libc/stdlib.c\<close>,
  \<^verbatim>\<open>libc/ctype.c\<close> and \<^verbatim>\<open>libc/math.c\<close>. The routines work on the
  byte-addressed memory. A loop that only a NUL byte stops is a partial function into
  \<open>option\<close>: \<open>None\<close> is a loop that never ends. \<open>cstr_at m p s\<close> says that the
  NUL-terminated string \<open>s\<close> is stored at \<open>p\<close>.
\<close>

section \<open>The routines\<close>

definition toupper :: "int \<Rightarrow> int" where
  "toupper c = (if c \<ge> 97 \<and> c \<le> 122 then c - 32 else c)"

text \<open>Negating the least \<^verbatim>\<open>int\<close> overflows.\<close>

definition neg_int :: "int \<Rightarrow> int res" where
  "neg_int n = (if n = c_int_min then Inl Signed_overflow else Inr (- n))"

definition abs_c :: "int \<Rightarrow> int res" where
  "abs_c n = (if n > 0 then Inr n else neg_int n)"

function strlen_loop :: "mem \<Rightarrow> u32 \<Rightarrow> int \<Rightarrow> int res" where
  "strlen_loop m str len =
     (if m str \<noteq> 0
      then if len < c_int_max then strlen_loop m (str + 1) (len + 1) else Inl Signed_overflow
      else Inr len)"
  by pat_completeness auto
termination
  by (relation "measure (\<lambda>(m, str, len). nat (c_int_max - len))") auto

declare strlen_loop.simps [simp del]

definition strlen :: "mem \<Rightarrow> u32 \<Rightarrow> int res" where
  "strlen m str = strlen_loop m str 0"

text \<open>\<^verbatim>\<open>char\<close> is signed on this target, so the difference is one of signed bytes.\<close>

partial_function (option) strcmp :: "mem \<Rightarrow> u32 \<Rightarrow> u32 \<Rightarrow> int option" where
  "strcmp m s1 s2 =
     (if m s1 \<noteq> 0 \<and> m s2 \<noteq> 0 \<and> m s1 = m s2 then strcmp m (s1 + 1) (s2 + 1)
      else Some (sint (m s1) - sint (m s2)))"

partial_function (option) strcpy :: "mem \<Rightarrow> u32 \<Rightarrow> u32 \<Rightarrow> mem option" where
  "strcpy m dest src =
     (let m' = m(dest := m src)
      in if m src \<noteq> 0 then strcpy m' (dest + 1) (src + 1) else Some m')"

definition append_c :: "mem \<Rightarrow> u32 \<Rightarrow> u8 \<Rightarrow> mem res" where
  "append_c m s n =
     res_bind (strlen m s) (\<lambda>len.
       Inr (m(s + of_int len := n, s + of_int len + 1 := 0)))"

function memset_loop :: "mem \<Rightarrow> u32 \<Rightarrow> u8 \<Rightarrow> u32 \<Rightarrow> mem" where
  "memset_loop m temp val len =
     (if len \<noteq> 0 then memset_loop (m(temp := val)) (temp + 1) val (len - 1) else m)"
  by pat_completeness auto
termination
  by (relation "measure (\<lambda>(m, temp, val, len). unat len)") (auto simp: unat_pred unat_gt_0)

declare memset_loop.simps [simp del]

definition memset :: "mem \<Rightarrow> u32 \<Rightarrow> u8 \<Rightarrow> u32 \<Rightarrow> mem" where
  "memset m desc val len = memset_loop m desc val len"

function memcpy_loop :: "mem \<Rightarrow> u32 \<Rightarrow> u32 \<Rightarrow> int \<Rightarrow> int \<Rightarrow> mem" where
  "memcpy_loop m source dest nbytes i =
     (if i < nbytes
      then memcpy_loop (m(dest + of_int i := m (source + of_int i))) source dest nbytes (i + 1)
      else m)"
  by pat_completeness auto
termination
  by (relation "measure (\<lambda>(m, source, dest, nbytes, i). nat (nbytes - i))") auto

declare memcpy_loop.simps [simp del]

definition memcpy :: "mem \<Rightarrow> u32 \<Rightarrow> u32 \<Rightarrow> int \<Rightarrow> mem" where
  "memcpy m source dest nbytes = memcpy_loop m source dest nbytes 0"

subsection \<open>itoa\<close>

text \<open>
  \<^verbatim>\<open>divisor\<close> is 16 for base 16 and 10 otherwise, base 2 included. The index
  \<^verbatim>\<open>i\<close> is a \<^verbatim>\<open>uint8_t\<close> and wraps.
\<close>

definition digit_char :: "int \<Rightarrow> u8" where
  "digit_char v =
     (let remainder = word_of_int v :: u8
      in if remainder < 10 then remainder + 48 else remainder + 97 - 10)"

function itoa_loop :: "bool \<Rightarrow> mem \<Rightarrow> int \<Rightarrow> u32 \<Rightarrow> u8 \<Rightarrow> u8 \<times> mem" where
  "itoa_loop hex m value str i =
     (if value > 0
      then let divisor = (if hex then 16 else 10)
           in itoa_loop hex (m(str + ucast i := digit_char (value mod divisor)))
                (value div divisor) str (i + 1)
      else (i, m))"
  by pat_completeness auto
termination
  by (relation "measure (\<lambda>(hex, m, value, str, i). nat value)") auto

declare itoa_loop.simps [simp del]

function itoa_rev :: "mem \<Rightarrow> u32 \<Rightarrow> u8 \<Rightarrow> u8 \<Rightarrow> mem" where
  "itoa_rev m str j i =
     (if j < i
      then itoa_rev (m(str + ucast j := m (str + ucast i), str + ucast i := m (str + ucast j)))
             str (j + 1) (i - 1)
      else m)"
  by pat_completeness auto
termination
proof (relation "measure (\<lambda>(m, str, j, i). unat i)", simp)
  fix m :: mem and str :: u32 and j i :: u8
  assume "j < i"
  then have "i \<noteq> 0" by auto
  then show "((m(str + ucast j := m (str + ucast i), str + ucast i := m (str + ucast j)),
      str, j + 1, i - 1), m, str, j, i) \<in> measure (\<lambda>(m, str, j, i). unat i)"
    by (simp add: unat_pred unat_gt_0)
qed

declare itoa_rev.simps [simp del]

definition itoa :: "mem \<Rightarrow> int \<Rightarrow> u32 \<Rightarrow> int \<Rightarrow> mem res" where
  "itoa m value str base =
     (if base \<noteq> 2 \<and> base \<noteq> 10 \<and> base \<noteq> 16 then Inr (m(str := 0))
      else
        let (i, m) = (if value = 0 then (0 + 1, m(str := 48)) else (0, m));
            is_negative = (base = 10 \<and> value < 0)
        in res_bind (if is_negative then neg_int value else Inr value) (\<lambda>value.
          let (i, m) = itoa_loop (base = 16) m value str i;
              (i, m) = (if base = 10 \<and> is_negative
                        then (i + 1, m(str + ucast i := 45)) else (i, m));
              (i, m) = (if base = 16
                        then (i + 1 + 1, m(str + ucast i := 120, str + ucast (i + 1) := 48))
                        else (i, m));
              m = m(str + ucast i := 0)
          in Inr (itoa_rev m str 0 (i - 1))))"

section \<open>Strings in memory\<close>

fun cstr_at :: "mem \<Rightarrow> u32 \<Rightarrow> u8 list \<Rightarrow> bool" where
  "cstr_at m p [] = (m p = 0)"
| "cstr_at m p (c # s) = (c \<noteq> 0 \<and> m p = c \<and> cstr_at m (p + 1) s)"

fun write_bytes :: "mem \<Rightarrow> u32 \<Rightarrow> u8 list \<Rightarrow> mem" where
  "write_bytes m p [] = m"
| "write_bytes m p (x # xs) = write_bytes (m(p := x)) (p + 1) xs"

text \<open>Readers of numerals, the specification \<open>itoa\<close> is held against.\<close>

definition digit_val :: "u8 \<Rightarrow> int" where
  "digit_val c = (if c < 58 then uint c - 48 else uint c - 87)"

definition parse_digits :: "int \<Rightarrow> u8 list \<Rightarrow> int" where
  "parse_digits base s = foldl (\<lambda>acc c. acc * base + digit_val c) 0 s"

fun parse_decimal :: "u8 list \<Rightarrow> int" where
  "parse_decimal [] = 0"
| "parse_decimal (c # s) =
     (if c = 45 then - parse_digits 10 s else parse_digits 10 (c # s))"

section \<open>String lemmas\<close>

lemma cstr_at_cong:
  "(\<And>k. k \<le> length s \<Longrightarrow> m' (p + of_nat k) = m (p + of_nat k)) \<Longrightarrow>
    cstr_at m' p s = cstr_at m p s"
proof (induction s arbitrary: p)
  case Nil
  then show ?case using Nil [of 0] by simp
next
  case (Cons c s)
  have "cstr_at m' (p + 1) s = cstr_at m (p + 1) s"
  proof (rule Cons.IH)
    fix k assume "k \<le> length s"
    then show "m' (p + 1 + of_nat k) = m (p + 1 + of_nat k)"
      using Cons.prems [of "Suc k"] by (simp add: add.assoc)
  qed
  then show ?case using Cons.prems [of 0] by simp
qed

lemma strlen_loop_cstr:
  "cstr_at m p s \<Longrightarrow> len + int (length s) \<le> c_int_max \<Longrightarrow>
    strlen_loop m p len = Inr (len + int (length s))"
  by (induction s arbitrary: p len) (subst strlen_loop.simps, simp)+

lemma strlen_cstr [simp]:
  "cstr_at m p s \<Longrightarrow> int (length s) \<le> c_int_max \<Longrightarrow> strlen m p = Inr (int (length s))"
  by (simp add: strlen_def strlen_loop_cstr)

lemma strcmp_cstr:
  "cstr_at m p s \<Longrightarrow> cstr_at m q t \<Longrightarrow> \<exists>d. strcmp m p q = Some d \<and> (d = 0 \<longleftrightarrow> s = t)"
proof (induction s arbitrary: p q t)
  case Nil
  then show ?case by (cases t) (auto simp: strcmp.simps [of m p q] signed_eq_0_iff)
next
  case (Cons c s)
  then show ?case
    by (cases t) (auto simp: strcmp.simps [of m p q] signed_eq_0_iff
          dest: signed_word_eqI)
qed

lemma strcpy_cstr:
  "cstr_at m src s \<Longrightarrow> length s < unat (dest - src) \<Longrightarrow>
    \<exists>m'. strcpy m dest src = Some m' \<and> cstr_at m' dest s \<and>
      unchanged_outside dest (Suc (length s)) m m'"
proof (induction s arbitrary: m dest src)
  case Nil
  then show ?case
    by (auto simp: strcpy.simps [of m dest src] unchanged_outside_def in_range_def Let_def)
next
  case (Cons c s)
  let ?m1 = "m(dest := c)"
  have "cstr_at ?m1 (src + 1) s = cstr_at m (src + 1) s"
  proof (rule cstr_at_cong)
    fix k assume k: "k \<le> length s"
    have "src + 1 + of_nat k \<noteq> dest"
    proof
      assume "src + 1 + of_nat k = dest"
      then have "dest - src = of_nat (Suc k)" by auto
      then have "unat (dest - src) \<le> Suc k"
        by (metis of_nat_unat unat_of_nat mod_less_eq_dividend)
      then show False using Cons.prems(2) k by simp
    qed
    then show "?m1 (src + 1 + of_nat k) = m (src + 1 + of_nat k)" by simp
  qed
  with Cons.prems(1) have c1: "cstr_at ?m1 (src + 1) s" by simp
  have "length s < unat (dest + 1 - (src + 1))"
    using Cons.prems(2) by simp
  from Cons.IH [OF c1 this] obtain m' where m': "strcpy ?m1 (dest + 1) (src + 1) = Some m'"
    "cstr_at m' (dest + 1) s" "unchanged_outside (dest + 1) (Suc (length s)) ?m1 m'"
    by blast
  have n: "Suc (length s) < 2 ^ 32"
    using Cons.prems(2) unat_less_pow [of "dest - src"] by simp
  have "m' dest = c"
    using m'(3) not_in_range_before [OF n, of dest] by (simp add: unchanged_outside_def)
  moreover have "unchanged_outside dest (Suc (Suc (length s))) m m'"
    using m'(3) by (simp add: unchanged_outside_def in_range_Suc [OF n])
  ultimately show ?case
    using m' Cons.prems(1) by (auto simp: strcpy.simps [of m dest src] Let_def)
qed

section \<open>Blocks of bytes\<close>

lemma memset_loop_eq:
  "memset_loop m p v n = (\<lambda>a. if in_range p (unat n) a then v else m a)"
proof (induction m p v n rule: memset_loop.induct)
  case (1 m p v n)
  show ?case
  proof (cases "n = 0")
    case True
    then show ?thesis using memset_loop.simps [of m p v 0] by simp
  next
    case False
    then have n: "unat n = Suc (unat (n - 1))"
      using unat_gt_0 [of n] by (simp add: unat_pred)
    have lt: "unat (n - 1) < 2 ^ 32"
      using unat_less_pow [of "n - 1"] by simp
    from 1 [OF False] have "memset_loop (m(p := v)) (p + 1) v (n - 1) =
        (\<lambda>a. if in_range (p + 1) (unat (n - 1)) a then v else (m(p := v)) a)"
      .
    then show ?thesis
      using False by (auto simp: memset_loop.simps [of m p v n] n in_range_Suc [OF lt])
  qed
qed

lemma memcpy_loop_eq:
  assumes "n \<le> unat (dest - source)"
  shows "k \<le> n \<Longrightarrow> memcpy_loop m source dest (int n) (int k) =
    (\<lambda>a. if in_range (dest + of_nat k) (n - k) a then m (source + (a - dest)) else m a)"
proof (induction "n - k" arbitrary: k m)
  case 0
  then show ?case by (simp add: memcpy_loop.simps [of m])
next
  case (Suc d)
  let ?m1 = "m(dest + of_nat k := m (source + of_nat k))"
  have n32: "n < 2 ^ 32"
    using assms unat_less_pow [of "dest - source"] by simp
  have kn: "k < n" using Suc.hyps(2) by linarith
  have step: "memcpy_loop m source dest (int n) (int k) =
      memcpy_loop ?m1 source dest (int n) (int (Suc k))"
    using kn by (simp add: memcpy_loop.simps [of m] add.commute)
  have ih: "memcpy_loop ?m1 source dest (int n) (int (Suc k)) =
      (\<lambda>a. if in_range (dest + of_nat (Suc k)) (n - Suc k) a
           then ?m1 (source + (a - dest)) else ?m1 a)"
    using Suc.hyps by (intro Suc.hyps(1)) auto
  have keep: "?m1 (source + (a - dest)) = m (source + (a - dest))"
    if a: "in_range (dest + of_nat (Suc k)) (n - Suc k) a" for a
  proof -
    from a n32 obtain j where j: "j < n - Suc k" "a = dest + of_nat (Suc k) + of_nat j"
      by (auto simp: in_range_iff_offset)
    have "source + (a - dest) \<noteq> dest + of_nat k"
    proof
      assume "source + (a - dest) = dest + of_nat k"
      then have "dest - source = of_nat (Suc j)"
        using j(2) by (simp add: algebra_simps)
      moreover have "Suc j < 2 ^ 32" using j(1) n32 by linarith
      ultimately have "unat (dest - source) = Suc j"
        using unat_of_nat_small [where 'a = 32, of "Suc j"] by simp
      then show False using assms j(1) by linarith
    qed
    then show ?thesis by simp
  qed
  have nk: "n - k = Suc (n - Suc k)" using Suc.hyps(2) by linarith
  have "n - Suc k < 2 ^ 32" using n32 by simp
  from in_range_Suc [OF this, of "dest + of_nat k"]
  have split: "in_range (dest + of_nat k) (Suc (n - Suc k)) a \<longleftrightarrow>
      a = dest + of_nat k \<or> in_range (dest + of_nat (Suc k)) (n - Suc k) a" for a
    by (simp add: ac_simps)
  show ?case
    unfolding step ih nk split
    using keep by (intro ext) (auto simp del: of_nat_Suc fun_upd_apply, auto)
qed

section \<open>itoa\<close>

text \<open>The digits in the order the loop writes them, least significant first.\<close>

function rev_digits :: "bool \<Rightarrow> int \<Rightarrow> u8 list" where
  "rev_digits hex v =
     (if v > 0
      then digit_char (v mod (if hex then 16 else 10)) # rev_digits hex (v div (if hex then 16 else 10))
      else [])"
  by pat_completeness auto
termination
  by (relation "measure (\<lambda>(hex, v). nat v)") auto

declare rev_digits.simps [simp del]

lemma rev_digits_nonpos [simp]: "v \<le> 0 \<Longrightarrow> rev_digits hex v = []"
  by (simp add: rev_digits.simps)

lemma write_bytes_eq:
  "length xs \<le> 2 ^ 32 \<Longrightarrow>
    write_bytes m p xs = (\<lambda>a. if in_range p (length xs) a then xs ! unat (a - p) else m a)"
proof (induction xs arbitrary: m p)
  case Nil
  then show ?case by simp
next
  case (Cons x xs)
  then have lt: "length xs < 2 ^ 32" by simp
  have idx: "(x # xs) ! unat (a - p) = xs ! unat (a - (p + 1))"
    if "in_range (p + 1) (length xs) a" for a
  proof -
    have "a - p \<noteq> 0" using that not_in_range_before [OF lt, of p] by auto
    then have "unat (a - p) \<noteq> 0" and "unat (a - (p + 1)) = unat (a - p) - 1"
      using unat_pred [of "a - p"] by (simp_all add: algebra_simps unat_eq_zero)
    then show ?thesis by (simp add: nth_Cons')
  qed
  show ?case
    using Cons lt not_in_range_before [OF lt, of p]
    by (auto simp: fun_eq_iff in_range_Suc [OF lt] idx)
qed

lemma itoa_loop_eq:
  "unat i + length (rev_digits hex v) < 256 \<Longrightarrow>
    itoa_loop hex m v str i =
      (i + of_nat (length (rev_digits hex v)), write_bytes m (str + ucast i) (rev_digits hex v))"
proof (induction hex m v str i rule: itoa_loop.induct)
  case (1 hex m v str i)
  show ?case
  proof (cases "v > 0")
    case False
    then show ?thesis by (simp add: itoa_loop.simps [of hex m v])
  next
    case True
    let ?d = "if hex then 16 else 10 :: int"
    have rd: "rev_digits hex v = digit_char (v mod ?d) # rev_digits hex (v div ?d)"
      using True by (simp add: rev_digits.simps [of hex v])
    have i1: "unat (i + 1) = Suc (unat i)"
      using "1.prems" rd unat_add_nowrap [of i 1] by simp
    have "itoa_loop hex (m(str + ucast i := digit_char (v mod ?d))) (v div ?d) str (i + 1) =
        (i + 1 + of_nat (length (rev_digits hex (v div ?d))),
         write_bytes (m(str + ucast i := digit_char (v mod ?d))) (str + ucast (i + 1))
           (rev_digits hex (v div ?d)))"
      by (rule "1.IH" [OF True refl]) (use "1.prems" rd i1 in simp)
    then show ?thesis
      using True rd i1 by (simp add: itoa_loop.simps [of hex m v] Let_def add.assoc ucast_Suc)
  qed
qed

lemma itoa_rev_eq:
  "itoa_rev m str j i = (\<lambda>a.
     if unat j \<le> unat (a - str) \<and> unat (a - str) \<le> unat i
     then m (str + of_nat (unat i + unat j - unat (a - str))) else m a)"
proof (induction m str j i rule: itoa_rev.induct)
  case (1 m str j i)
  have byte: "unat i < 256" "unat j < 256"
    using unat_less_pow [of i] unat_less_pow [of j] by simp_all
  show ?case
  proof (cases "j < i")
    case False
    then have "m a = m (str + of_nat (unat i + unat j - unat (a - str)))"
      if "unat j \<le> unat (a - str)" "unat (a - str) \<le> unat i" for a
    proof -
      have "unat i + unat j - unat (a - str) = unat (a - str)"
        using that False by (simp add: word_less_nat_alt)
      then show ?thesis by simp
    qed
    with False show ?thesis by (auto simp: itoa_rev.simps [of m str j i])
  next
    case True
    let ?m1 = "m(str + ucast j := m (str + ucast i), str + ucast i := m (str + ucast j))"
    have "i \<noteq> 0" using True by auto
    then have i1: "unat (i - 1) = unat i - 1" and j1: "unat (j + 1) = Suc (unat j)"
      and ji: "unat j < unat i"
      using True unat_pred [of i] unat_Suc_less [OF True] by (auto simp: word_less_nat_alt)
    have ih: "itoa_rev ?m1 str (j + 1) (i - 1) = (\<lambda>a.
        if unat (j + 1) \<le> unat (a - str) \<and> unat (a - str) \<le> unat (i - 1)
        then ?m1 (str + of_nat (unat (i - 1) + unat (j + 1) - unat (a - str))) else ?m1 a)"
      by (rule 1 [OF True])
    have eq: "str + of_nat k = str + ucast l \<longleftrightarrow> k = unat l" if "k < 2 ^ 32" for k and l :: u8
      using that unat_less_pow [of l] by (simp add: ucast_eq_of_nat of_nat_inj_small del: of_nat_unat)
    have "itoa_rev m str j i a = (if unat j \<le> unat (a - str) \<and> unat (a - str) \<le> unat i
        then m (str + of_nat (unat i + unat j - unat (a - str))) else m a)" for a
    proof -
      define k where "k = unat (a - str)"
      have k: "k < 2 ^ 32" "a = str + of_nat k"
        using unat_less_pow [of "a - str"] by (simp_all add: k_def)
      have sum: "unat i - 1 + Suc (unat j) - k = unat i + unat j - k"
        using ji by simp
      have m1: "?m1 (str + of_nat l) = (if l = unat i then m (str + of_nat (unat j))
          else if l = unat j then m (str + of_nat (unat i)) else m (str + of_nat l))"
        if "l < 2 ^ 32" for l
        using eq [OF that] by simp
      have small: "unat i + unat j - k < 2 ^ 32" using byte by simp
      consider "k < unat j" | "k = unat j" | "unat j < k" "k < unat i" | "k = unat i" | "unat i < k"
        by linarith
      moreover have "itoa_rev m str j i a =
          (if Suc (unat j) \<le> k \<and> k \<le> unat i - 1
           then ?m1 (str + of_nat (unat i + unat j - k)) else ?m1 (str + of_nat k))"
        by (simp only: itoa_rev.simps [of m str j i] if_P [OF True] ih k_def [symmetric] sum i1 j1
            k(2) [symmetric])
      ultimately show ?thesis
        unfolding m1 [OF small] m1 [OF k(1)] k_def [symmetric]
        using ji by cases (auto simp add: k(2) simp del: of_nat_unat)
    qed
    then show ?thesis by (rule ext)
  qed
qed

lemma cstr_at_iff:
  "cstr_at m p s \<longleftrightarrow>
    (\<forall>k<length s. m (p + of_nat k) = s ! k \<and> s ! k \<noteq> 0) \<and> m (p + of_nat (length s)) = 0"
  by (induction s arbitrary: p) (auto simp: All_less_Suc2 add.assoc)

lemma write_bytes_append:
  "write_bytes m p (xs @ ys) = write_bytes (write_bytes m p xs) (p + of_nat (length xs)) ys"
  by (induction xs arbitrary: m p) (simp_all add: add.assoc)

lemma itoa_finish:
  fixes m :: mem and str :: u32
  assumes "xs \<noteq> []" "length xs < 256" "\<forall>x\<in>set xs. x \<noteq> 0"
  defines "m' \<equiv> itoa_rev ((write_bytes m str xs)(str + of_nat (length xs) := 0)) str 0
    (of_nat (length xs) - 1)"
  shows "cstr_at m' str (rev xs)" and "unchanged_outside str (Suc (length xs)) m m'"
proof -
  let ?n = "length xs"
  let ?m1 = "(write_bytes m str xs)(str + of_nat ?n := 0)"
  have pos: "unat (of_nat ?n :: u8) = ?n" "(of_nat ?n :: u8) \<noteq> 0"
    using assms(1,2) unat_of_nat_small [where 'a = 8, of ?n] by auto
  then have i: "unat (of_nat ?n - 1 :: u8) = ?n - 1"
    using unat_pred [of "of_nat ?n :: u8"] by simp
  have m1: "?m1 (str + of_nat k) = (if k < ?n then xs ! k else if k = ?n then 0 else m (str + of_nat k))"
    if "k < 2 ^ 32" for k
    using that assms(2) of_nat_inj_small [where 'a = 32, of k ?n]
    by (simp add: write_bytes_eq in_range_def unat_of_nat_small)
  have m': "m' (str + of_nat k) =
      (if k < ?n then xs ! (?n - 1 - k) else if k = ?n then 0 else m (str + of_nat k))"
    if "k < 2 ^ 32" for k
    using that assms(1,2) m1 [of k] m1 [of "?n - 1 - k"]
    by (auto simp: m'_def itoa_rev_eq i unat_of_nat_small simp del: fun_upd_apply)
  show "cstr_at m' str (rev xs)"
    using assms(2,3) by (auto simp: cstr_at_iff m' rev_nth)
  show "unchanged_outside str (Suc ?n) m m'"
    unfolding unchanged_outside_def
  proof (intro allI impI)
    fix a assume a: "\<not> in_range str (Suc ?n) a"
    then show "m' a = m a"
      using m' [of "unat (a - str)"] unat_less_pow [of "a - str"] by (auto simp: in_range_def)
  qed
qed

lemma digit_char_facts:
  assumes "0 \<le> d" "d < 16"
  shows "digit_val (digit_char d) = d" "digit_char d \<noteq> 0" "digit_char d \<noteq> 45"
proof -
  have "d = 0 \<or> d = 1 \<or> d = 2 \<or> d = 3 \<or> d = 4 \<or> d = 5 \<or> d = 6 \<or> d = 7 \<or>
    d = 8 \<or> d = 9 \<or> d = 10 \<or> d = 11 \<or> d = 12 \<or> d = 13 \<or> d = 14 \<or> d = 15"
    using assms by presburger
  then have "digit_val (digit_char d) = d \<and> digit_char d \<noteq> 0 \<and> digit_char d \<noteq> 45"
    by (elim disjE) (simp_all add: digit_char_def digit_val_def Let_def)
  then show "digit_val (digit_char d) = d" "digit_char d \<noteq> 0" "digit_char d \<noteq> 45" by simp_all
qed

lemma mod_base_bounds:
  "0 \<le> v mod (if hex then 16 else 10 :: int)" "v mod (if hex then 16 else 10 :: int) < 16"
  using pos_mod_bound [of 10 v] pos_mod_bound [of 16 v] by auto

lemma parse_digits_snoc [simp]:
  "parse_digits b (xs @ [c]) = parse_digits b xs * b + digit_val c"
  by (simp add: parse_digits_def)

lemma rev_digits_chars: "c \<in> set (rev_digits hex v) \<Longrightarrow> c \<noteq> 0 \<and> c \<noteq> 45"
proof (induction hex v rule: rev_digits.induct)
  case (1 hex v)
  then show ?case
    using digit_char_facts [OF mod_base_bounds, of v hex]
    by (auto simp: rev_digits.simps [of hex v] split: if_splits)
qed

lemma parse_rev_digits:
  "0 \<le> v \<Longrightarrow> parse_digits (if hex then 16 else 10) (rev (rev_digits hex v)) = v"
proof (induction hex v rule: rev_digits.induct)
  case (1 hex v)
  have "digit_val (digit_char (v mod (if hex then 16 else 10))) = v mod (if hex then 16 else 10)"
    by (rule digit_char_facts [OF mod_base_bounds])
  moreover have "0 \<le> v div (if hex then 16 else 10)"
    using "1.prems" by (cases hex) (simp_all add: pos_imp_zdiv_nonneg_iff)
  ultimately show ?case
    using 1 by (cases "v > 0") (simp_all add: rev_digits.simps [of hex v] parse_digits_def
      del: if_split_eq1 split del: if_split)
qed

lemma length_rev_digits:
  "v < (if hex then 16 else 10) ^ k \<Longrightarrow> length (rev_digits hex v) \<le> k"
proof (induction hex v arbitrary: k rule: rev_digits.induct)
  case (1 hex v)
  show ?case
  proof (cases "v > 0")
    case True
    let ?b = "if hex then 16 else 10 :: int"
    from True "1.prems" obtain l where k: "k = Suc l" by (cases k) auto
    have "v div ?b < ?b ^ l"
      using "1.prems" k by (auto simp: div_less_iff_less_mult mult.commute)
    from "1.IH" [OF True this] show ?thesis
      using True k by (simp add: rev_digits.simps [of hex v])
  qed simp
qed

lemma rev_digits_nonempty: "0 < v \<Longrightarrow> rev_digits hex v \<noteq> []"
  by (simp add: rev_digits.simps)

lemma parse_decimal_digits:
  assumes "0 < v"
  shows "parse_decimal (rev (rev_digits False v)) = v"
    and "parse_decimal (45 # rev (rev_digits False v)) = - v"
proof -
  have p: "parse_digits 10 (rev (rev_digits False v)) = v"
    using parse_rev_digits [of v False] assms by simp
  then show "parse_decimal (45 # rev (rev_digits False v)) = - v" by simp
  obtain c s where cs: "rev (rev_digits False v) = c # s"
    using rev_digits_nonempty [OF assms] by (cases "rev (rev_digits False v)") auto
  then have "c \<noteq> 45" using rev_digits_chars [of c False v] by (metis list.set_intros(1) set_rev)
  with p cs show "parse_decimal (rev (rev_digits False v)) = v" by simp
qed

text \<open>
  What the routine has written before it reverses: \<open>xs\<close>, least significant digit first,
  and then the NUL byte. \<open>itoa_finish\<close> does the rest.
\<close>

lemma itoa_positive:
  assumes "0 < v" "v \<le> c_int_max" "base = 10 \<or> base = 16"
  defines "xs \<equiv> rev_digits (base = 16) v @ (if base = 16 then [120, 48] else [])"
  shows "itoa m v str base = Inr (itoa_rev ((write_bytes m str xs)(str + of_nat (length xs) := 0))
           str 0 (of_nat (length xs) - 1))" and "length xs \<le> 10"
proof -
  let ?ds = "rev_digits (base = 16) v"
  have len: "length ?ds \<le> (if base = 16 then 8 else 10)"
    using length_rev_digits [of v "base = 16" "if base = 16 then 8 else 10"] assms
    by (auto simp: c_int_defs split: if_splits)
  then show "length xs \<le> 10" by (auto simp: xs_def split: if_splits)
  have small: "length ?ds < 256" using len by (simp split: if_splits)
  have loop: "itoa_loop (base = 16) m v str 0 = (of_nat (length ?ds), write_bytes m str ?ds)"
    using itoa_loop_eq [of 0 "base = 16" v m str] small by simp
  have idx: "ucast (of_nat (length ?ds) :: u8) = (of_nat (length ?ds) :: u32)"
    using ucast_of_nat_small [where 'a = 8 and 'b = 32, of "length ?ds"] small by simp
  have idx1: "ucast (of_nat (length ?ds) + 1 :: u8) = (of_nat (length ?ds) + 1 :: u32)"
    and idx2: "ucast (of_nat (length ?ds) + 2 :: u8) = (of_nat (length ?ds) + 2 :: u32)"
    using ucast_of_nat_small [where 'a = 8 and 'b = 32, of "length ?ds + 1"]
      ucast_of_nat_small [where 'a = 8 and 'b = 32, of "length ?ds + 2"] len
    by (auto simp: add.commute split: if_splits)
  show "itoa m v str base = Inr (itoa_rev ((write_bytes m str xs)(str + of_nat (length xs) := 0))
           str 0 (of_nat (length xs) - 1))"
    using assms(1,3) loop idx idx1 idx2
    by (auto simp: itoa_def xs_def Let_def write_bytes_append add.assoc)
qed

lemma itoa_negative:
  assumes "c_int_min < v" "v < 0"
  defines "xs \<equiv> rev_digits False (- v) @ [45]"
  shows "itoa m v str 10 = Inr (itoa_rev ((write_bytes m str xs)(str + of_nat (length xs) := 0))
           str 0 (of_nat (length xs) - 1))" and "length xs \<le> 11"
proof -
  let ?ds = "rev_digits False (- v)"
  have len: "length ?ds \<le> 10"
    using length_rev_digits [of "- v" False 10] assms by (simp add: c_int_defs)
  then show "length xs \<le> 11" by (simp add: xs_def)
  have loop: "itoa_loop False m (- v) str 0 = (of_nat (length ?ds), write_bytes m str ?ds)"
    using itoa_loop_eq [of 0 False "- v" m str] len by simp
  have idx: "ucast (of_nat (length ?ds) :: u8) = (of_nat (length ?ds) :: u32)"
    and idx1: "ucast (of_nat (length ?ds) + 1 :: u8) = (of_nat (length ?ds) + 1 :: u32)"
    using ucast_of_nat_small [where 'a = 8 and 'b = 32, of "length ?ds"]
      ucast_of_nat_small [where 'a = 8 and 'b = 32, of "length ?ds + 1"] len
    by (simp_all add: add.commute)
  show "itoa m v str 10 = Inr (itoa_rev ((write_bytes m str xs)(str + of_nat (length xs) := 0))
           str 0 (of_nat (length xs) - 1))"
    using assms(1,2) loop idx idx1
    by (auto simp: itoa_def xs_def Let_def write_bytes_append neg_int_def add.assoc add.commute)
qed

section \<open>Properties\<close>

text \<open>
  C35. \<open>itoa\<close> in base 10 writes a numeral that reads back as the value, for every
  \<^verbatim>\<open>int\<close> but the least; the string has at most 11 characters, and nothing outside
  its 12 bytes changes, so the 20-byte buffer of \<^verbatim>\<open>kprintf\<close> is large enough.
\<close>
theorem itoa_decimal_roundtrip:
  assumes "c_int_min < v" "v \<le> c_int_max"
  shows "\<exists>m' s. itoa m v str 10 = Inr m' \<and> cstr_at m' str s \<and> parse_decimal s = v \<and>
    length s \<le> 11 \<and> unchanged_outside str 12 m m'"
proof -
  consider "v = 0" | "0 < v" | "v < 0" by linarith
  then obtain xs where xs: "itoa m v str 10 =
      Inr (itoa_rev ((write_bytes m str xs)(str + of_nat (length xs) := 0)) str 0 (of_nat (length xs) - 1))"
    "length xs \<le> 11" "xs \<noteq> []" "\<forall>x\<in>set xs. x \<noteq> 0" "parse_decimal (rev xs) = v"
  proof cases
    case 1
    have "itoa m v str 10 = Inr (itoa_rev ((write_bytes m str [48])(str + of_nat (length [48::u8]) := 0))
        str 0 (of_nat (length [48::u8]) - 1))"
      using 1 by (simp add: itoa_def itoa_loop.simps [of _ _ 0] Let_def)
    then show ?thesis
      using that [of "[48]"] 1 by (simp add: parse_digits_def digit_val_def)
  next
    case 2
    from itoa_positive(1) [OF 2 assms(2), where base = 10 and m = m and str = str]
      itoa_positive(2) [OF 2 assms(2), where base = 10] rev_digits_nonempty [OF 2, of False]
      rev_digits_chars [of _ False v] parse_decimal_digits(1) [OF 2]
    show ?thesis by (intro that [of "rev_digits False v"]) auto
  next
    case 3
    then have "0 < - v" by simp
    from itoa_negative(1) [OF assms(1) 3, where m = m and str = str]
      itoa_negative(2) [OF assms(1) 3] rev_digits_chars [of _ False "- v"]
      parse_decimal_digits(2) [OF this]
    show ?thesis by (intro that [of "rev_digits False (- v) @ [45]"]) auto
  qed
  have "length xs < 256" using xs(2) by simp
  note fin = itoa_finish [OF xs(3) this xs(4), where m = m and str = str]
  have "unchanged_outside str 12 m
      (itoa_rev ((write_bytes m str xs)(str + of_nat (length xs) := 0)) str 0 (of_nat (length xs) - 1))"
    by (rule unchanged_outside_mono [OF fin(2)]) (use xs(2) in simp)
  with xs(1,2,5) fin(1) show ?thesis by (intro exI conjI) (assumption | simp)+
qed

theorem itoa_decimal_roundtrip_witness:
  "\<exists>m' s. itoa (\<lambda>_. 7) (- 2016) 4096 10 = Inr m' \<and> cstr_at m' 4096 s \<and> parse_decimal s = - 2016 \<and>
    length s \<le> 11 \<and> unchanged_outside 4096 12 (\<lambda>_. 7) m'"
  by (rule itoa_decimal_roundtrip) (simp_all add: c_int_defs)

text \<open>
  \<open>itoa\<close> in base 16 writes \<open>0x\<close> and hexadecimal digits that read back as the value
  when the value is not negative; for a negative \<^verbatim>\<open>int\<close>, such as any address from
  \<open>0x80000000\<close> on, it writes \<open>0x\<close> and no digit at all.
\<close>
theorem itoa_hex:
  assumes "c_int_min \<le> v" "v \<le> c_int_max"
  shows "\<exists>m' s. itoa m v str 16 = Inr m' \<and> cstr_at m' str (48 # 120 # s) \<and>
    (if v < 0 then s = [] else s \<noteq> [] \<and> parse_digits 16 s = v) \<and> length s \<le> 8"
proof -
  let ?P = "\<lambda>xs. itoa m v str 16 =
      Inr (itoa_rev ((write_bytes m str xs)(str + of_nat (length xs) := 0)) str 0 (of_nat (length xs) - 1))"
  consider "v = 0" | "0 < v" | "v < 0" by linarith
  then obtain ds where ds: "?P (ds @ [120, 48])" "length ds \<le> 8" "\<forall>x\<in>set ds. x \<noteq> 0"
    "if v < 0 then ds = [] else ds \<noteq> [] \<and> parse_digits 16 (rev ds) = v"
  proof cases
    case 1
    then have "?P ([48] @ [120, 48])"
      by (simp add: itoa_def itoa_loop.simps [of _ _ 0] Let_def) (simp only: add.commute [of 2 str])
    then show ?thesis
      using 1 by (intro that [of "[48]"]) (simp_all add: parse_digits_def digit_val_def)
  next
    case 2
    from itoa_positive(1) [OF 2 assms(2), where base = 16 and m = m and str = str]
      length_rev_digits [of v True 8] assms(2)
    have "?P (rev_digits True v @ [120, 48])" "length (rev_digits True v) \<le> 8"
      by (simp_all add: c_int_defs)
    show ?thesis
    proof (rule that [of "rev_digits True v"])
      show "?P (rev_digits True v @ [120, 48])" by fact
      show "length (rev_digits True v) \<le> 8" by fact
    qed (use 2 rev_digits_nonempty [OF 2, of True] rev_digits_chars [of _ True v]
          parse_rev_digits [of v True] in auto)
  next
    case 3
    then have "?P ([] @ [120, 48])"
      by (simp add: itoa_def itoa_loop.simps [of _ _ v] Let_def)
    then show ?thesis using 3 by (intro that [of "[]"]) simp_all
  qed
  have "length (ds @ [120, 48]) < 256" "ds @ [120, 48] \<noteq> []" "\<forall>x\<in>set (ds @ [120, 48]). x \<noteq> 0"
    using ds by auto
  note fin = itoa_finish(1) [OF this(2,1,3), where m = m and str = str]
  have eq: "rev (ds @ [120, 48]) = 48 # 120 # rev ds" by simp
  show ?thesis
    by (intro exI [where x = "rev ds"] exI conjI) (rule ds(1), rule fin [unfolded eq], use ds(2,4) in simp_all)
qed

theorem itoa_hex_witness:
  "\<exists>m' s. itoa (\<lambda>_. 0) (- 1610612736) 4096 16 = Inr m' \<and> cstr_at m' 4096 (48 # 120 # s) \<and>
    (if (- 1610612736 :: int) < 0 then s = [] else s \<noteq> [] \<and> parse_digits 16 s = - 1610612736) \<and>
    length s \<le> 8"
  by (rule itoa_hex) (simp_all add: c_int_defs)

text \<open>
  Base 2 passes the check of \<open>itoa\<close> but is converted with the divisor 10: a value that
  is not negative gets its decimal numeral. A negative value gets no digit, the index of the
  reversal wraps to 255, and the 256 bytes from the buffer on are reversed.
\<close>
theorem itoa_base_2:
  "itoa m v str 2 =
    (if 0 \<le> v then itoa m v str 10
     else Inr (\<lambda>a. if in_range str 256 a then (m(str := 0)) (str + 255 - (a - str)) else m a))"
proof (cases "0 \<le> v")
  case True
  then show ?thesis by (simp add: itoa_def Let_def)
next
  case False
  have rev: "itoa_rev (m(str := 0)) str 0 255 a =
      (if in_range str 256 a then (m(str := 0)) (str + 255 - (a - str)) else m a)" for a
  proof (cases "in_range str 256 a")
    case True
    then have k: "unat (a - str) \<le> 255" by (simp add: in_range_def)
    then have "str + of_nat (255 - unat (a - str)) = str + 255 - (a - str)"
      by (simp add: of_nat_diff add_diff_eq)
    with k True show ?thesis
      by (simp add: itoa_rev_eq del: fun_upd_apply of_nat_diff)
  next
    case False
    moreover from this have "a \<noteq> str" by auto
    ultimately show ?thesis by (simp add: itoa_rev_eq in_range_def)
  qed
  have wrap: "(- 1 :: u8) = 255" by simp
  have "itoa m v str 2 = Inr (itoa_rev (m(str := 0)) str 0 255)"
    using False by (simp add: itoa_def itoa_loop.simps [of _ _ v] Let_def flip: wrap)
  also have "itoa_rev (m(str := 0)) str 0 255 =
      (\<lambda>a. if in_range str 256 a then (m(str := 0)) (str + 255 - (a - str)) else m a)"
    by (rule ext) (rule rev)
  finally show ?thesis using False by (simp only: if_False)
qed

text \<open>
  \<open>strcpy\<close> ends with an exact copy of the source string at the destination and changes
  nothing but the bytes of that copy, provided the copy does not run into the source.
\<close>
theorem strcpy_copies:
  assumes "cstr_at m src s" "length s < unat (dest - src)"
  shows "\<exists>m'. strcpy m dest src = Some m' \<and> cstr_at m' dest s \<and>
    unchanged_outside dest (Suc (length s)) m m'"
  using assms by (rule strcpy_cstr)

theorem strcpy_copies_witness:
  "\<exists>m'. strcpy (write_bytes (\<lambda>_. 0) 16 [104, 105]) 64 16 = Some m' \<and> cstr_at m' 64 [104, 105] \<and>
    unchanged_outside 64 (Suc (length [104 :: u8, 105])) (write_bytes (\<lambda>_. 0) 16 [104, 105]) m'"
  by (rule strcpy_copies) simp_all

text \<open>
  On two NUL-terminated strings \<open>strcmp\<close> returns, and it returns 0 exactly when they
  are the same string.
\<close>
theorem strcmp_equal_strings:
  assumes "cstr_at m p s" "cstr_at m q t"
  shows "\<exists>d. strcmp m p q = Some d \<and> (d = 0 \<longleftrightarrow> s = t)"
  using assms by (rule strcmp_cstr)

theorem strcmp_equal_strings_witness:
  "\<exists>d. strcmp (write_bytes (\<lambda>_. 0) 16 [108, 115]) 16 17 = Some d \<and>
    (d = 0 \<longleftrightarrow> [108, 115] = [115 :: u8])"
  by (rule strcmp_equal_strings) simp_all

text \<open>
  \<open>memset\<close> stores the value in the \<open>len\<close> bytes from the address on, and in no other.
\<close>
theorem memset_fills:
  "memset m p v len = (\<lambda>a. if in_range p (unat len) a then v else m a)"
  by (simp add: memset_def memset_loop_eq)

text \<open>
  \<open>memcpy\<close> (source first, then destination) copies byte by byte in increasing order; the
  destination then holds what the source held, unless it starts inside the source.
\<close>
theorem memcpy_copies:
  assumes "n \<le> unat (dest - source)"
  shows "memcpy m source dest (int n) =
    (\<lambda>a. if in_range dest n a then m (source + (a - dest)) else m a)"
  using memcpy_loop_eq [OF assms, of 0 m] by (simp add: memcpy_def)

theorem memcpy_copies_witness:
  "memcpy (\<lambda>a. ucast a) 256 512 (int 4) =
    (\<lambda>a. if in_range 512 4 a then ucast (256 + (a - 512)) else ucast a)"
  by (rule memcpy_copies) simp

text \<open>
  \<open>append\<close> extends the string by one character.
\<close>
theorem append_extends:
  assumes "cstr_at m p s" "int (length s) \<le> c_int_max" "n \<noteq> 0"
  shows "\<exists>m'. append_c m p n = Inr m' \<and> cstr_at m' p (s @ [n])"
proof -
  let ?m' = "m(p + of_nat (length s) := n, p + of_nat (length s) + 1 := 0)"
  have len: "length s < 2 ^ 31" using assms(2) by (simp add: c_int_defs)
  then have "?m' (p + of_nat k) = m (p + of_nat k)" if "k < length s" for k
  proof -
    have "(of_nat k :: u32) \<noteq> of_nat (length s)" "(of_nat k :: u32) \<noteq> of_nat (Suc (length s))"
      using that len by (simp_all add: of_nat_inj_small del: of_nat_Suc)
    then show ?thesis by (simp add: add.assoc add.commute)
  qed
  then have "cstr_at ?m' p (s @ [n])"
    using assms(1,3) by (auto simp: cstr_at_iff nth_append less_Suc_eq add.assoc add.commute)
  with assms(1,2) show ?thesis by (simp add: append_c_def)
qed

theorem append_extends_witness:
  "\<exists>m'. append_c (write_bytes (\<lambda>_. 0) 16 [108]) 16 115 = Inr m' \<and> cstr_at m' 16 ([108] @ [115])"
  by (rule append_extends) (simp_all add: c_int_defs)

end
