(* ===== verification/OrderedArray.thy ===== *)
theory OrderedArray
  imports Prelude Clib "HOL-Library.Multiset"
begin

text \<open>
  The ordered array of \<^verbatim>\<open>kernel/ordered_array.c\<close>, which the kernel heap keeps its holes
  in: the record \<^verbatim>\<open>ordered_array_t\<close> by value, its elements in the byte memory. The
  comparison is the function pointer of the source: it reads memory, and it may be null.
  \<open>hole_index\<close> is the contract the heap relies on, interpreted on these definitions.
\<close>

section \<open>The code\<close>

type_synonym less_pred = "mem \<Rightarrow> u32 \<Rightarrow> u32 \<Rightarrow> int"

record ordered_array =
  array :: u32
  oa_size :: u32
  max_size :: u32
  less_than :: "less_pred option"

definition standard_lessthan_predicate :: less_pred where
  "standard_lessthan_predicate m a b = (if a < b then 1 else 0)"

text \<open>The address of element \<open>i\<close>: a \<^verbatim>\<open>type_t\<close> is a pointer of four bytes.\<close>

definition slot :: "ordered_array \<Rightarrow> u32 \<Rightarrow> u32" where
  "slot a i = array a + 4 * i"

definition place_ordered_array ::
    "u32 \<Rightarrow> u32 \<Rightarrow> less_pred option \<Rightarrow> mem \<Rightarrow> ordered_array \<times> mem" where
  "place_ordered_array addr n lt m =
     (\<lparr>array = addr, oa_size = 0, max_size = n, less_than = lt\<rparr>, memset m addr 0 (n * 4))"

function insert_search :: "less_pred \<Rightarrow> u32 \<Rightarrow> ordered_array \<Rightarrow> mem \<Rightarrow> u32 \<Rightarrow> u32" where
  "insert_search lt item a m iterator =
     (if iterator < oa_size a \<and> lt m (load32 m (slot a iterator)) item \<noteq> 0
      then insert_search lt item a m (iterator + 1) else iterator)"
  by pat_completeness auto
termination
  by (relation "measure (\<lambda>(lt, item, a, m, iterator). unat (oa_size a) - unat iterator)")
    (auto intro: word_less_Suc_measure)

function insert_shift :: "ordered_array \<Rightarrow> u32 \<Rightarrow> u32 \<Rightarrow> mem \<Rightarrow> mem" where
  "insert_shift a iterator tmp m =
     (if iterator < oa_size a
      then insert_shift a (iterator + 1) (load32 m (slot a (iterator + 1)))
             (store32 m (slot a (iterator + 1)) tmp)
      else m)"
  by pat_completeness auto
termination
  by (relation "measure (\<lambda>(a, iterator, tmp, m). unat (oa_size a) - unat iterator)")
    (auto intro: word_less_Suc_measure)

declare insert_search.simps [simp del] insert_shift.simps [simp del]

definition insert_ordered_array ::
    "u32 \<Rightarrow> ordered_array \<Rightarrow> mem \<Rightarrow> (ordered_array \<times> mem) res" where
  "insert_ordered_array item a m =
     (case less_than a of
        None \<Rightarrow> Inl (Assert_failed ''array->less_than'')
      | Some lt \<Rightarrow>
          let iterator = insert_search lt item a m 0
          in if iterator = oa_size a
             then Inr (a\<lparr>oa_size := oa_size a + 1\<rparr>, store32 m (slot a (oa_size a)) item)
             else
               let tmp = load32 m (slot a iterator);
                   m = store32 m (slot a iterator) item;
                   m = insert_shift a iterator tmp m
               in Inr (a\<lparr>oa_size := oa_size a + 1\<rparr>, m))"

definition lookup_ordered_array :: "u32 \<Rightarrow> ordered_array \<Rightarrow> mem \<Rightarrow> u32 res" where
  "lookup_ordered_array i a m =
     (if i < oa_size a then Inr (load32 m (slot a i)) else Inl (Assert_failed ''i < array->size''))"

function remove_shift :: "ordered_array \<Rightarrow> u32 \<Rightarrow> mem \<Rightarrow> mem" where
  "remove_shift a i m =
     (if i < oa_size a
      then remove_shift a (i + 1) (store32 m (slot a i) (load32 m (slot a (i + 1))))
      else m)"
  by pat_completeness auto
termination
  by (relation "measure (\<lambda>(a, i, m). unat (oa_size a) - unat i)") (auto intro: word_less_Suc_measure)

declare remove_shift.simps [simp del]

definition remove_ordered_array :: "u32 \<Rightarrow> ordered_array \<Rightarrow> mem \<Rightarrow> ordered_array \<times> mem" where
  "remove_ordered_array i a m = (a\<lparr>oa_size := oa_size a - 1\<rparr>, remove_shift a i m)"

section \<open>Arrays of words in memory\<close>

text \<open>The \<open>n\<close> words from \<open>base\<close> on.\<close>

definition words_at :: "mem \<Rightarrow> u32 \<Rightarrow> nat \<Rightarrow> u32 list" where
  "words_at m base n = map (\<lambda>i. load32 m (base + 4 * of_nat i)) [0..<n]"

lemma length_words_at [simp]: "length (words_at m base n) = n"
  by (simp add: words_at_def)

lemma nth_words_at [simp]: "i < n \<Longrightarrow> words_at m base n ! i = load32 m (base + 4 * of_nat i)"
  by (simp add: words_at_def)

lemma take_words_at: "k \<le> n \<Longrightarrow> take k (words_at m base n) = words_at m base k"
  by (simp add: words_at_def take_map)

lemma unat_word_offset: "4 * n \<le> 2 ^ 32 \<Longrightarrow> i < n \<Longrightarrow> unat (4 * of_nat i :: u32) = 4 * i"
  using unat_of_nat_small [of "4 * i", where 'a = 32] by simp

lemma word_offset_inj:
  "4 * n \<le> 2 ^ 32 \<Longrightarrow> i < n \<Longrightarrow> j < n \<Longrightarrow> (4 * of_nat i :: u32) = 4 * of_nat j \<longleftrightarrow> i = j"
  by (metis unat_word_offset mult_cancel1 zero_neq_numeral)

lemma load32_store32_word:
  assumes "4 * n \<le> 2 ^ 32" "i < n" "j < n"
  shows "load32 (store32 m (base + 4 * of_nat i) v) (base + 4 * of_nat j) =
    (if i = j then v else load32 m (base + 4 * of_nat j))"
proof (cases "i = j")
  case False
  have far: "4 \<le> unat ((base + 4 * of_nat l) - (base + 4 * of_nat k :: u32))"
    if "k < n" "l < n" "k \<noteq> l" for k l
  proof (rule aligned4_far)
    show "aligned4 ((base + 4 * of_nat l) - (base + 4 * of_nat k :: u32))"
      using aligned4_mult(1) [of "of_nat l - of_nat k"] by (simp add: algebra_simps)
    show "(base + 4 * of_nat l) - (base + 4 * of_nat k :: u32) \<noteq> 0"
      using word_offset_inj [OF assms(1) that(1,2)] that(3) by auto
  qed
  have "load32 (store32 m (base + 4 * of_nat i) v) (base + 4 * of_nat j) =
      load32 m (base + 4 * of_nat j)"
    by (rule load32_store32_disjoint) (rule far; use assms False in simp)+
  then show ?thesis using False by simp
qed simp

lemma words_at_store:
  assumes "4 * n \<le> 2 ^ 32" "i < n"
  shows "words_at (store32 m (base + 4 * of_nat i) v) base n = (words_at m base n)[i := v]"
  using assms by (intro nth_equalityI) (auto simp: load32_store32_word nth_list_update)

lemma unchanged_store_word:
  assumes "4 * n \<le> 2 ^ 32" "i < n"
  shows "unchanged_outside base (4 * n) m (store32 m (base + 4 * of_nat i) v)"
  unfolding unchanged_outside_def
proof (intro allI impI store32_other notI)
  fix a assume a: "\<not> in_range base (4 * n) a" "in_range (base + 4 * of_nat i) 4 a"
  then obtain k where k: "k < 4" "a = base + 4 * of_nat i + of_nat k"
    using in_range_iff_offset [of 4 "base + 4 * of_nat i" a] by auto
  then have "a = base + of_nat (4 * i + k)" by simp
  moreover have "4 * i + k < 4 * n" using assms(2) k(1) by simp
  ultimately show False using in_range_offset [of "4 * i + k" "4 * n" base] assms(1) a(1) by simp
qed

lemma words_at_cong:
  assumes "unchanged_outside base' k m m'" "4 * n \<le> 2 ^ 32"
    and "\<And>i. i < 4 * n \<Longrightarrow> \<not> in_range base' k (base + of_nat i)"
  shows "words_at m' base n = words_at m base n"
proof (intro nth_equalityI; simp)
  fix i assume "i < n"
  show "load32 m' (base + 4 * of_nat i) = load32 m (base + 4 * of_nat i)"
  proof (rule load32_cong)
    fix j :: u32 assume "unat j < 4"
    then have "\<not> in_range base' k (base + of_nat (4 * i + unat j))"
      using \<open>i < n\<close> by (intro assms(3)) simp
    then show "m' (base + 4 * of_nat i + j) = m (base + 4 * of_nat i + j)"
      using assms(1) by (simp add: unchanged_outside_def add.assoc)
  qed
qed

section \<open>What the operations do to the list of elements\<close>

definition oa_list :: "ordered_array \<Rightarrow> mem \<Rightarrow> u32 list" where
  "oa_list a m = words_at m (array a) (unat (oa_size a))"

lemma length_oa_list [simp]: "length (oa_list a m) = unat (oa_size a)"
  by (simp add: oa_list_def)

lemma slot_unat: "slot a i = array a + 4 * of_nat (unat i)"
  by (simp add: slot_def)

lemma insert_search_eq:
  "iterator \<le> oa_size a \<Longrightarrow>
    insert_search lt item a m iterator \<le> oa_size a \<and>
    unat (insert_search lt item a m iterator) =
    unat iterator + length (takeWhile (\<lambda>y. lt m y item \<noteq> 0) (drop (unat iterator) (oa_list a m)))"
proof (induction lt item a m iterator rule: insert_search.induct)
  case (1 lt item a m it)
  show ?case
  proof (cases "it < oa_size a")
    case False
    then show ?thesis using 1 by (simp add: insert_search.simps [of lt item a m it] word_less_nat_alt word_le_nat_alt)
  next
    case True
    then have lt: "unat it < unat (oa_size a)" by (simp add: word_less_nat_alt)
    have u: "unat (it + 1) = Suc (unat it)" by (rule unat_Suc_less [OF True])
    have d: "drop (unat it) (oa_list a m) = load32 m (slot a it) # drop (Suc (unat it)) (oa_list a m)"
      using lt by (simp add: Cons_nth_drop_Suc [symmetric] oa_list_def slot_unat)
    have "it + 1 \<le> oa_size a" using u lt by (simp add: word_le_nat_alt)
    with 1 True d u show ?thesis
      by (simp add: insert_search.simps [of lt item a m it] less_imp_le)
  qed
qed

lemma insert_shift_eq:
  assumes "n = Suc (unat (oa_size a))" "4 * n \<le> 2 ^ 32"
  shows "it \<le> oa_size a \<Longrightarrow>
    words_at (insert_shift a it tmp m) (array a) n =
      take (Suc (unat it)) (words_at m (array a) n) @
      butlast (tmp # drop (Suc (unat it)) (words_at m (array a) n)) \<and>
    unchanged_outside (array a) (4 * n) m (insert_shift a it tmp m)"
  using assms
proof (induction a it tmp m rule: insert_shift.induct)
  case (1 a it tmp m)
  let ?ws = "words_at m (array a) n"
  show ?case
  proof (cases "it < oa_size a")
    case False
    then have "it = oa_size a" using 1(2) by simp
    then show ?thesis using 1(3) by (simp add: insert_shift.simps [of a "oa_size a" tmp m])
  next
    case True
    define k where "k = Suc (unat it)"
    have k: "unat (it + 1) = k" by (simp add: k_def unat_Suc_less [OF True])
    have kn: "k < n" using True 1(3) by (simp add: k_def word_less_nat_alt)
    have le: "it + 1 \<le> oa_size a" using k kn 1(3) by (simp add: word_le_nat_alt)
    have sl: "slot a (it + 1) = array a + 4 * of_nat k" by (simp add: slot_unat k)
    define m1 where "m1 = store32 m (slot a (it + 1)) tmp"
    have ws1: "words_at m1 (array a) n = ?ws[k := tmp]"
      unfolding m1_def sl by (rule words_at_store [OF 1(4) kn])
    have un: "unchanged_outside (array a) (4 * n) m m1"
      unfolding m1_def sl by (rule unchanged_store_word [OF 1(4) kn])
    have old: "load32 m (slot a (it + 1)) = ?ws ! k" using kn by (simp add: sl)
    from 1(1) [OF True le 1(3,4)] have IH:
      "words_at (insert_shift a (it + 1) (?ws ! k) m1) (array a) n =
        take (Suc k) (?ws[k := tmp]) @ butlast (?ws ! k # drop (Suc k) (?ws[k := tmp]))"
      "unchanged_outside (array a) (4 * n) m1 (insert_shift a (it + 1) (?ws ! k) m1)"
      unfolding k ws1 old m1_def [symmetric] by simp_all
    have "take (Suc k) (?ws[k := tmp]) = take k ?ws @ [tmp]"
      using kn by (simp add: take_Suc_conv_app_nth)
    moreover have "drop k ?ws = ?ws ! k # drop (Suc k) ?ws"
      using kn by (intro Cons_nth_drop_Suc [symmetric]) simp
    ultimately have "take (Suc k) (?ws[k := tmp]) @ butlast (?ws ! k # drop (Suc k) (?ws[k := tmp])) =
        take k ?ws @ butlast (tmp # drop k ?ws)"
      using kn by simp
    moreover have "insert_shift a it tmp m = insert_shift a (it + 1) (?ws ! k) m1"
      using True by (simp add: insert_shift.simps [of a it tmp m] m1_def old)
    ultimately show ?thesis
      using IH unchanged_outside_trans [OF un IH(2)] by (simp add: k_def)
  qed
qed

text \<open>The comparison an array uses; a null pointer compares nothing as smaller.\<close>

definition oa_less :: "ordered_array \<Rightarrow> mem \<Rightarrow> u32 \<Rightarrow> u32 \<Rightarrow> bool" where
  "oa_less a m x y = (case less_than a of None \<Rightarrow> False | Some lt \<Rightarrow> lt m x y \<noteq> 0)"

text \<open>An array that fits the address space.\<close>

definition oa_wf :: "ordered_array \<Rightarrow> bool" where
  "oa_wf a \<longleftrightarrow> less_than a \<noteq> None \<and> unat (oa_size a) < 2 ^ 30"

lemma insert_ordered_array_list:
  assumes "oa_wf a"
  shows "\<exists>m'. insert_ordered_array item a m = Inr (a\<lparr>oa_size := oa_size a + 1\<rparr>, m') \<and>
    oa_list (a\<lparr>oa_size := oa_size a + 1\<rparr>) m' =
      takeWhile (\<lambda>y. oa_less a m y item) (oa_list a m) @ item #
      dropWhile (\<lambda>y. oa_less a m y item) (oa_list a m) \<and>
    unchanged_outside (array a) (4 * Suc (unat (oa_size a))) m m'"
proof -
  from assms obtain lt where lt: "less_than a = Some lt" and small: "unat (oa_size a) < 2 ^ 30"
    by (auto simp: oa_wf_def)
  define n where "n = Suc (unat (oa_size a))"
  have n4: "4 * n \<le> 2 ^ 32" using small by (simp add: n_def)
  have un: "unat (oa_size a + 1) = n" using small by (simp add: n_def unat_word_ariths)
  let ?P = "\<lambda>y. lt m y item \<noteq> 0" and ?xs = "oa_list a m" and ?ws = "words_at m (array a) n"
  define k where "k = length (takeWhile ?P ?xs)"
  define it where "it = insert_search lt item a m 0"
  have it: "it \<le> oa_size a" "unat it = k"
    using insert_search_eq [of 0 a lt item m] by (simp_all add: it_def k_def)
  have xs: "?xs = take (unat (oa_size a)) ?ws"
    by (simp add: oa_list_def n_def take_words_at)
  have tw: "takeWhile ?P ?xs = take k ?xs" "dropWhile ?P ?xs = drop k ?xs"
    unfolding k_def by (rule takeWhile_eq_take) (rule dropWhile_eq_drop)
  have P: "(\<lambda>y. oa_less a m y item) = ?P" by (simp add: oa_less_def lt)
  have kn: "k < n" using it by (simp add: word_le_nat_alt n_def)
  have sl: "slot a it = array a + 4 * of_nat k" by (simp add: slot_unat it(2))
  define m1 where "m1 = store32 m (slot a it) item"
  have ws1: "words_at m1 (array a) n = ?ws[k := item]"
    unfolding m1_def sl by (rule words_at_store [OF n4 kn])
  have un1: "unchanged_outside (array a) (4 * n) m m1"
    unfolding m1_def sl by (rule unchanged_store_word [OF n4 kn])
  have list: "oa_list (a\<lparr>oa_size := oa_size a + 1\<rparr>) m' = words_at m' (array a) n" for m'
    by (simp add: oa_list_def un)
  show ?thesis
  proof (cases "it = oa_size a")
    case True
    then have "k = unat (oa_size a)" using it(2) by simp
    then have "?ws[k := item] = take k ?xs @ item # drop k ?xs"
      using xs by (simp add: upd_conv_take_nth_drop n_def)
    then show ?thesis
      using lt True un1 ws1
      by (simp add: insert_ordered_array_def list P tw it_def [symmetric] m1_def n_def Let_def)
  next
    case False
    define m2 where "m2 = insert_shift a it (load32 m (slot a it)) m1"
    have "load32 m (slot a it) = ?ws ! k" using kn by (simp add: sl)
    with insert_shift_eq [OF n_def n4 it(1), of "load32 m (slot a it)" m1]
    have m2: "words_at m2 (array a) n =
        take (Suc k) (?ws[k := item]) @ butlast (?ws ! k # drop (Suc k) (?ws[k := item]))"
      "unchanged_outside (array a) (4 * n) m1 m2"
      by (simp_all add: m2_def it(2) ws1)
    have "?ws ! k # drop (Suc k) ?ws = drop k ?ws"
      using kn by (intro Cons_nth_drop_Suc) simp
    moreover have "butlast (drop k ?ws) = drop k ?xs"
      by (simp add: xs butlast_conv_take n_def drop_take)
    moreover have "take (Suc k) (?ws[k := item]) = take k ?xs @ [item]"
      using kn by (simp add: take_Suc_conv_app_nth xs n_def)
    ultimately have "words_at m2 (array a) n = take k ?xs @ item # drop k ?xs"
      using m2(1) by simp
    moreover have "insert_ordered_array item a m = Inr (a\<lparr>oa_size := oa_size a + 1\<rparr>, m2)"
      using lt False by (simp add: insert_ordered_array_def it_def [symmetric] m1_def m2_def Let_def)
    ultimately show ?thesis
      using unchanged_outside_trans [OF un1 m2(2)] by (simp add: list P tw n_def)
  qed
qed

lemma remove_shift_eq:
  assumes "n = Suc (unat (oa_size a))" "4 * n \<le> 2 ^ 32"
  shows "i \<le> oa_size a \<Longrightarrow>
    words_at (remove_shift a i m) (array a) n =
      take (unat i) (words_at m (array a) n) @ drop (Suc (unat i)) (words_at m (array a) n) @
      [last (words_at m (array a) n)] \<and>
    unchanged_outside (array a) (4 * unat (oa_size a)) m (remove_shift a i m)"
  using assms
proof (induction a i m rule: remove_shift.induct)
  case (1 a i m)
  let ?ws = "words_at m (array a) n"
  show ?case
  proof (cases "i < oa_size a")
    case False
    then have "i = oa_size a" using 1(2) by simp
    moreover have "?ws \<noteq> []" using 1(3) by (simp add: words_at_def)
    then have "take (unat (oa_size a)) ?ws @ [last ?ws] = ?ws"
      using 1(3) by (metis append_butlast_last_id butlast_conv_take diff_Suc_1 length_words_at)
    ultimately show ?thesis using 1(3) by (simp add: remove_shift.simps [of a "oa_size a" m])
  next
    case True
    define k where "k = unat i"
    have k: "unat (i + 1) = Suc k" by (simp add: k_def unat_Suc_less [OF True])
    have kn: "k < unat (oa_size a)" using True by (simp add: k_def word_less_nat_alt)
    then have kn': "Suc k < n" using 1(3) by simp
    have le: "i + 1 \<le> oa_size a" using k kn by (simp add: word_le_nat_alt)
    have sl: "slot a i = array a + 4 * of_nat k" "slot a (i + 1) = array a + 4 * of_nat (Suc k)"
      unfolding slot_unat k k_def by simp_all
    define m1 where "m1 = store32 m (slot a i) (load32 m (slot a (i + 1)))"
    have old: "load32 m (slot a (i + 1)) = ?ws ! Suc k"
      unfolding sl using kn' by (simp del: of_nat_Suc)
    have ws1: "words_at m1 (array a) n = ?ws[k := ?ws ! Suc k]"
      unfolding m1_def old unfolding sl by (rule words_at_store [OF 1(4)]) (use kn' in simp)
    have un: "unchanged_outside (array a) (4 * unat (oa_size a)) m m1"
      unfolding m1_def sl by (rule unchanged_store_word) (use kn 1(3,4) in simp_all)
    from 1(1) [OF True le 1(3,4)] have IH:
      "words_at (remove_shift a (i + 1) m1) (array a) n =
        take (Suc k) (?ws[k := ?ws ! Suc k]) @ drop (Suc (Suc k)) (?ws[k := ?ws ! Suc k]) @
        [last (?ws[k := ?ws ! Suc k])]"
      "unchanged_outside (array a) (4 * unat (oa_size a)) m1 (remove_shift a (i + 1) m1)"
      unfolding k ws1 m1_def [symmetric] by simp_all
    have "last (?ws[k := ?ws ! Suc k]) = last ?ws"
      using kn' last_list_update [of ?ws k] by (cases "?ws = []") auto
    moreover have "take (Suc k) (?ws[k := ?ws ! Suc k]) = take k ?ws @ [?ws ! Suc k]"
      using kn' by (simp add: take_Suc_conv_app_nth)
    moreover have "?ws ! Suc k # drop (Suc (Suc k)) ?ws = drop (Suc k) ?ws"
      using kn' by (intro Cons_nth_drop_Suc) simp
    moreover have "remove_shift a i m = remove_shift a (i + 1) m1"
      using True by (simp add: remove_shift.simps [of a i m] m1_def)
    ultimately show ?thesis
      using IH unchanged_outside_trans [OF un IH(2)] by (simp add: k_def [symmetric])
  qed
qed

lemma remove_ordered_array_list:
  assumes "oa_wf a" "i < oa_size a"
  shows "\<exists>m'. remove_ordered_array i a m = (a\<lparr>oa_size := oa_size a - 1\<rparr>, m') \<and>
    oa_list (a\<lparr>oa_size := oa_size a - 1\<rparr>) m' =
      take (unat i) (oa_list a m) @ drop (Suc (unat i)) (oa_list a m) \<and>
    unchanged_outside (array a) (4 * unat (oa_size a)) m m'"
proof -
  define n where "n = Suc (unat (oa_size a))"
  have n4: "4 * n \<le> 2 ^ 32" using assms(1) by (simp add: n_def oa_wf_def)
  have i: "unat i < unat (oa_size a)" using assms(2) by (simp add: word_less_nat_alt)
  then have un: "unat (oa_size a - 1) = unat (oa_size a) - 1"
    by (intro unat_pred) auto
  let ?ws = "words_at m (array a) n" and ?m' = "remove_shift a i m"
  have xs: "oa_list a m = take (unat (oa_size a)) ?ws"
    by (simp add: oa_list_def n_def take_words_at)
  have "oa_list (a\<lparr>oa_size := oa_size a - 1\<rparr>) ?m' = take (unat (oa_size a) - 1) (words_at ?m' (array a) n)"
    by (simp add: oa_list_def un n_def take_words_at)
  also have "\<dots> = take (unat i) (oa_list a m) @ drop (Suc (unat i)) (oa_list a m)"
    using remove_shift_eq [OF n_def n4, of i m] assms(2) i
      min_absorb2 [of "unat i" "unat (oa_size a) - Suc 0"]
    by (simp add: xs n_def drop_take)
  finally show ?thesis
    using remove_shift_eq [OF n_def n4, of i m] assms(2)
    by (simp add: remove_ordered_array_def)
qed

section \<open>The contract of the hole index\<close>

locale hole_index =
  fixes ins :: "'a \<Rightarrow> 's \<Rightarrow> 's res"
    and look :: "nat \<Rightarrow> 's \<Rightarrow> 'a res"
    and rem :: "nat \<Rightarrow> 's \<Rightarrow> 's"
    and contents :: "'s \<Rightarrow> 'a list"
    and less :: "'s \<Rightarrow> 'a \<Rightarrow> 'a \<Rightarrow> bool"
    and room :: "'s \<Rightarrow> bool"
    and invar :: "'s \<Rightarrow> bool"
  assumes ins_position: "invar s \<Longrightarrow> room s \<Longrightarrow>
      \<exists>s'. ins x s = Inr s' \<and> invar s' \<and>
        contents s' = takeWhile (\<lambda>y. less s y x) (contents s) @ x # dropWhile (\<lambda>y. less s y x) (contents s)"
    and look_nth: "invar s \<Longrightarrow> i < length (contents s) \<Longrightarrow> look i s = Inr (contents s ! i)"
    and rem_nth: "invar s \<Longrightarrow> i < length (contents s) \<Longrightarrow>
      invar (rem i s) \<and> contents (rem i s) = take i (contents s) @ drop (Suc i) (contents s)"
begin

lemma ins_mset:
  assumes "invar s" "room s" "ins x s = Inr s'"
  shows "mset (contents s') = add_mset x (mset (contents s))"
proof -
  have "contents s' = takeWhile (\<lambda>y. less s y x) (contents s) @ x # dropWhile (\<lambda>y. less s y x) (contents s)"
    using ins_position [OF assms(1,2), of x] assms(3) by auto
  moreover have "mset (A @ x # B) = add_mset x (mset (A @ B))" for A B
    by simp
  ultimately show ?thesis by (metis takeWhile_dropWhile_id)
qed

lemma rem_mset:
  assumes "invar s" "i < length (contents s)"
  shows "mset (contents (rem i s)) = mset (contents s) - {#contents s ! i#}"
proof -
  have "mset (contents s) = add_mset (contents s ! i) (mset (take i (contents s) @ drop (Suc i) (contents s)))"
    by (subst id_take_nth_drop [OF assms(2)]) simp
  then show ?thesis using rem_nth [OF assms] by simp
qed

lemma ins_sorted:
  assumes "invar s" "room s" "ins x s = Inr s'"
    and sorted: "sorted_wrt (\<lambda>y z. \<not> less s z y) (contents s)"
    and trans: "\<And>u v w. \<not> less s v u \<Longrightarrow> \<not> less s w v \<Longrightarrow> \<not> less s w u"
    and asym: "\<And>u v. less s u v \<Longrightarrow> \<not> less s v u"
  shows "sorted_wrt (\<lambda>y z. \<not> less s z y) (contents s')"
proof -
  let ?P = "\<lambda>y. less s y x" and ?xs = "contents s"
  have split': "sorted_wrt r ?xs = sorted_wrt r (takeWhile ?P ?xs @ dropWhile ?P ?xs)" for r by simp
  have parts: "sorted_wrt (\<lambda>y z. \<not> less s z y) (takeWhile ?P ?xs)"
    "sorted_wrt (\<lambda>y z. \<not> less s z y) (dropWhile ?P ?xs)"
    "\<forall>y\<in>set (takeWhile ?P ?xs). \<forall>z\<in>set (dropWhile ?P ?xs). \<not> less s z y"
    using sorted unfolding split' sorted_wrt_append by auto
  have before: "\<not> less s x y" if "y \<in> set (takeWhile ?P ?xs)" for y
    using set_takeWhileD [OF that] asym by blast
  have after: "\<not> less s z x" if "z \<in> set (dropWhile ?P ?xs)" for z
  proof (cases "dropWhile ?P ?xs")
    case Nil
    then show ?thesis using that by (simp only: list.set empty_iff)
  next
    case (Cons h t)
    then have "\<not> less s h x" by (metis hd_dropWhile list.sel(1) list.distinct(1))
    moreover have "z = h \<or> \<not> less s z h" using that Cons parts(2) by auto
    ultimately show ?thesis using trans by blast
  qed
  have "contents s' = takeWhile ?P ?xs @ x # dropWhile ?P ?xs"
    using ins_position [OF assms(1,2), of x] assms(3) by auto
  moreover have "sorted_wrt (\<lambda>y z. \<not> less s z y) (A @ x # B)"
    if "sorted_wrt (\<lambda>y z. \<not> less s z y) A" "sorted_wrt (\<lambda>y z. \<not> less s z y) B"
      "\<forall>y\<in>set A. \<forall>z\<in>set B. \<not> less s z y" "\<And>y. y \<in> set A \<Longrightarrow> \<not> less s x y"
      "\<And>z. z \<in> set B \<Longrightarrow> \<not> less s z x" for A B
    using that by (auto simp: sorted_wrt_append)
  ultimately show ?thesis using parts before after by metis
qed

text \<open>Taking out what was just put in restores the contents.\<close>

lemma ins_rem:
  assumes "invar s" "room s" "ins x s = Inr s'"
  shows "\<exists>i < length (contents s'). look i s' = Inr x \<and> contents (rem i s') = contents s"
proof -
  let ?A = "takeWhile (\<lambda>y. less s y x) (contents s)" and ?B = "dropWhile (\<lambda>y. less s y x) (contents s)"
  have s': "invar s'" "contents s' = ?A @ x # ?B"
    using ins_position [OF assms(1,2), of x] assms(3) by auto
  then have lt: "length ?A < length (contents s')" by simp
  show ?thesis
    using look_nth [OF s'(1) lt] rem_nth [OF s'(1) lt] lt s'(2)
    by (intro exI [of _ "length ?A"]) simp
qed

end

interpretation oa: hole_index
  "\<lambda>x (a, m). insert_ordered_array x a m"
  "\<lambda>i (a, m). lookup_ordered_array (of_nat i) a m"
  "\<lambda>i (a, m). remove_ordered_array (of_nat i) a m"
  "\<lambda>(a, m). oa_list a m"
  "\<lambda>(a, m). oa_less a m"
  "\<lambda>(a, m). unat (oa_size a) + 1 < 2 ^ 30"
  "\<lambda>(a, m). oa_wf a"
proof (unfold_locales, goal_cases)
  case (1 s x)
  then obtain a m where s: "s = (a, m)" and wf: "oa_wf a" and room: "unat (oa_size a) + 1 < 2 ^ 30"
    by (cases s) auto
  then have "oa_wf (a\<lparr>oa_size := oa_size a + 1\<rparr>)"
    by (simp add: oa_wf_def unat_word_ariths)
  with insert_ordered_array_list [OF wf, of x m] show ?case
    by (auto simp: s)
next
  case (2 s i)
  then obtain a m where s: "s = (a, m)" and wf: "oa_wf a" and i: "i < unat (oa_size a)"
    by (cases s) auto
  then have "unat (of_nat i :: u32) = i" "of_nat i < oa_size a"
    using unat_less_pow [of "oa_size a"]
    by (simp_all add: word_less_nat_alt unat_of_nat_small)
  then show ?case
    using i by (simp add: s lookup_ordered_array_def oa_list_def slot_def)
next
  case (3 s i)
  then obtain a m where s: "s = (a, m)" and wf: "oa_wf a" and i: "i < unat (oa_size a)"
    by (cases s) auto
  then have u: "unat (of_nat i :: u32) = i" "of_nat i < oa_size a"
    using unat_less_pow [of "oa_size a"]
    by (simp_all add: word_less_nat_alt unat_of_nat_small)
  have "oa_wf (a\<lparr>oa_size := oa_size a - 1\<rparr>)"
    using wf i unat_pred [of "oa_size a"] by (cases "oa_size a = 0") (auto simp: oa_wf_def)
  with remove_ordered_array_list [OF wf u(2), of m] show ?case
    by (auto simp: s u)
qed

section \<open>Properties\<close>

text \<open>An array placed at address \<open>0x1000\<close> with room for four elements, as an example.\<close>

definition sample_array :: "ordered_array \<times> mem" where
  "sample_array = place_ordered_array 0x1000 4 (Some standard_lessthan_predicate) (\<lambda>a. 0)"

lemma sample_array_facts:
  "oa_wf (fst sample_array)" "oa_list (fst sample_array) m = []"
  "oa_size (fst sample_array) = 0" "array (fst sample_array) = 0x1000" "max_size (fst sample_array) = 4"
  "oa_less (fst sample_array) m x y = (x < y)"
  by (simp_all add: sample_array_def place_ordered_array_def oa_wf_def oa_list_def words_at_def
      oa_less_def standard_lessthan_predicate_def)

text \<open>
  \<open>insert_ordered_array\<close> puts the item after the longest prefix of elements that compare
  smaller, keeps all others in order, and writes nothing but the element slots: the old ones and
  the one after them.
\<close>
theorem insert_ordered_array_position:
  assumes "less_than a = Some lt" "unat (oa_size a) < 2 ^ 30"
  shows "\<exists>m'. insert_ordered_array item a m = Inr (a\<lparr>oa_size := oa_size a + 1\<rparr>, m') \<and>
    oa_list (a\<lparr>oa_size := oa_size a + 1\<rparr>) m' =
      takeWhile (\<lambda>y. lt m y item \<noteq> 0) (oa_list a m) @ item #
      dropWhile (\<lambda>y. lt m y item \<noteq> 0) (oa_list a m) \<and>
    unchanged_outside (array a) (4 * Suc (unat (oa_size a))) m m'"
proof -
  have "oa_wf a" "oa_less a m y item \<longleftrightarrow> lt m y item \<noteq> 0" for y
    using assms by (simp_all add: oa_wf_def oa_less_def)
  with insert_ordered_array_list [of a item m] show ?thesis by simp
qed

lemma insert_ordered_array_position_witness:
  "\<exists>m'. insert_ordered_array 7 (fst sample_array) (\<lambda>a. 0) =
      Inr ((fst sample_array)\<lparr>oa_size := 1\<rparr>, m') \<and>
    oa_list ((fst sample_array)\<lparr>oa_size := 1\<rparr>) m' = [7]"
proof -
  have "less_than (fst sample_array) = Some standard_lessthan_predicate"
    by (simp add: sample_array_def place_ordered_array_def)
  from insert_ordered_array_position [OF this, of 7 "\<lambda>a. 0"] show ?thesis
    by (auto simp: sample_array_facts)
qed

text \<open>
  C24. Insertion keeps a sorted array sorted and adds exactly the item to it, for every comparison
  that is asymmetric and whose negation is transitive, as a comparison of numbers is.
\<close>
theorem insert_ordered_array_sorted:
  assumes "oa_wf a" "unat (oa_size a) + 1 < 2 ^ 30" "insert_ordered_array item a m = Inr (a', m')"
    and "sorted_wrt (\<lambda>y z. \<not> oa_less a m z y) (oa_list a m)"
    and "\<And>u v w. \<not> oa_less a m v u \<Longrightarrow> \<not> oa_less a m w v \<Longrightarrow> \<not> oa_less a m w u"
    and "\<And>u v. oa_less a m u v \<Longrightarrow> \<not> oa_less a m v u"
  shows "sorted_wrt (\<lambda>y z. \<not> oa_less a m z y) (oa_list a' m') \<and>
    mset (oa_list a' m') = add_mset item (mset (oa_list a m))"
proof
  show "sorted_wrt (\<lambda>y z. \<not> oa_less a m z y) (oa_list a' m')"
    by (rule oa.ins_sorted [of "(a, m)" item "(a', m')", unfolded prod.case, OF assms])
  show "mset (oa_list a' m') = add_mset item (mset (oa_list a m))"
    by (rule oa.ins_mset [of "(a, m)" item "(a', m')", unfolded prod.case, OF assms(1-3)])
qed

lemma insert_ordered_array_sorted_witness:
  "\<exists>a' m'. insert_ordered_array 7 (fst sample_array) (\<lambda>a. 0) = Inr (a', m') \<and>
    mset (oa_list a' m') = {#7#}"
proof -
  obtain a' m' where ins: "insert_ordered_array 7 (fst sample_array) (\<lambda>a. 0) = Inr (a', m')"
    using insert_ordered_array_list [OF sample_array_facts(1)] by blast
  have "sorted_wrt (\<lambda>y z. \<not> oa_less (fst sample_array) (\<lambda>a. 0) z y) (oa_list a' m') \<and>
      mset (oa_list a' m') = add_mset 7 (mset (oa_list (fst sample_array) (\<lambda>a. 0)))"
    by (rule insert_ordered_array_sorted [OF sample_array_facts(1) _ ins])
      (simp_all only: sample_array_facts sorted_wrt.simps, simp_all)
  with ins show ?thesis by (auto simp: sample_array_facts)
qed

text \<open>
  C36. \<open>remove_ordered_array\<close> takes out the element at an index below the size and keeps the
  order of the others; an index from the size on takes the last element off instead, and on an
  empty array the size wraps around to \<open>0xFFFFFFFF\<close>.
\<close>
theorem remove_ordered_array_removes:
  assumes "oa_wf a" "remove_ordered_array i a m = (a', m')"
  shows "(i < oa_size a \<longrightarrow> oa_list a' m' = take (unat i) (oa_list a m) @ drop (Suc (unat i)) (oa_list a m) \<and>
      oa_wf a' \<and> unchanged_outside (array a) (4 * unat (oa_size a)) m m') \<and>
    (oa_size a \<le> i \<and> oa_size a \<noteq> 0 \<longrightarrow> oa_list a' m' = butlast (oa_list a m) \<and> m' = m) \<and>
    (oa_size a = 0 \<longrightarrow> oa_size a' = 0xFFFFFFFF)"
proof (intro conjI impI)
  assume i: "i < oa_size a"
  then have pos: "oa_size a \<noteq> 0" by auto
  show "oa_list a' m' = take (unat i) (oa_list a m) @ drop (Suc (unat i)) (oa_list a m)"
    "unchanged_outside (array a) (4 * unat (oa_size a)) m m'"
    using remove_ordered_array_list [OF assms(1) i, of m] assms(2) by auto
  show "oa_wf a'"
    using assms pos unat_pred [OF pos] by (auto simp: remove_ordered_array_def oa_wf_def)
next
  assume i: "oa_size a \<le> i \<and> oa_size a \<noteq> 0"
  then have "remove_shift a i m = m" by (simp add: remove_shift.simps [of a i m] leD)
  then have a': "a' = a\<lparr>oa_size := oa_size a - 1\<rparr>" and m': "m' = m"
    using assms(2) by (auto simp: remove_ordered_array_def)
  show "m' = m" by (rule m')
  show "oa_list a' m' = butlast (oa_list a m)"
    using unat_pred [of "oa_size a"] i
    by (simp add: a' m' oa_list_def butlast_conv_take take_words_at)
qed (use assms(2) in \<open>auto simp: remove_ordered_array_def\<close>)

lemma remove_ordered_array_removes_witness:
  "oa_size (fst (remove_ordered_array 0 (fst sample_array) (\<lambda>a. 0))) = 0xFFFFFFFF"
  using remove_ordered_array_removes [OF sample_array_facts(1)] sample_array_facts(3)
  by (metis prod.collapse)

text \<open>
  Insertion does not look at \<^verbatim>\<open>max_size\<close>: into a full array it succeeds, and the word
  after the last slot is overwritten with the greatest element.
\<close>
theorem insert_ordered_array_overflows:
  assumes "oa_wf a" "oa_size a = max_size a"
  shows "\<exists>a' m'. insert_ordered_array item a m = Inr (a', m') \<and> oa_size a' = max_size a + 1 \<and>
    load32 m' (array a + 4 * max_size a) =
      (if \<forall>y\<in>set (oa_list a m). oa_less a m y item then item else last (oa_list a m))"
proof -
  from insert_ordered_array_list [OF assms(1), of item m] obtain m' where m':
    "insert_ordered_array item a m = Inr (a\<lparr>oa_size := oa_size a + 1\<rparr>, m')"
    "oa_list (a\<lparr>oa_size := oa_size a + 1\<rparr>) m' =
      takeWhile (\<lambda>y. oa_less a m y item) (oa_list a m) @ item #
      dropWhile (\<lambda>y. oa_less a m y item) (oa_list a m)" (is "?new = ?A @ item # ?B")
    by blast
  have u: "unat (oa_size a + 1) = Suc (unat (oa_size a))"
    using assms(1) by (simp add: oa_wf_def unat_word_ariths)
  have "load32 m' (array a + 4 * max_size a) = ?new ! unat (oa_size a)"
    by (simp add: oa_list_def u assms(2) [symmetric])
  also have "\<dots> = last ?new"
    by (subst last_conv_nth) (auto simp: oa_list_def u words_at_def)
  also have "\<dots> = (if ?B = [] then item else last ?B)"
    by (simp add: m'(2))
  also have "\<dots> = (if \<forall>y\<in>set (oa_list a m). oa_less a m y item then item else last (oa_list a m))"
  proof -
    have "?B = [] \<longleftrightarrow> (\<forall>y\<in>set (oa_list a m). oa_less a m y item)"
      by (rule dropWhile_eq_Nil_conv)
    moreover have "?B \<noteq> [] \<Longrightarrow> last ?B = last (oa_list a m)"
      by (metis last_appendR takeWhile_dropWhile_id)
    ultimately show ?thesis by presburger
  qed
  finally show ?thesis
    using m'(1) assms(2) by auto
qed

lemma insert_ordered_array_overflows_witness:
  "\<exists>a' m'. insert_ordered_array 7
      (\<lparr>array = 0x1000, oa_size = 0, max_size = 0, less_than = Some standard_lessthan_predicate\<rparr>)
      (\<lambda>a. 0) = Inr (a', m') \<and> load32 m' 0x1000 = 7"
  using insert_ordered_array_overflows [of "\<lparr>array = 0x1000, oa_size = 0, max_size = 0,
      less_than = Some standard_lessthan_predicate\<rparr>" 7 "\<lambda>a. 0"]
  by (auto simp: oa_wf_def oa_list_def words_at_def)

end
