(* ===== verification/Ports.thy ===== *)
theory Ports
  imports Prelude
begin

text \<open>
  The outside world of the kernel: the I/O ports (\<^verbatim>\<open>kernel/include/x86.h\<close>,
  \<^verbatim>\<open>kernel/x86.asm\<close>), the interrupt controllers (\<^verbatim>\<open>kernel/pic.c\<close>) and
  the calls of \<^verbatim>\<open>kprintf\<close>. The devices are not code: what the \<open>n\<close>-th read of a
  port returns is a parameter (\<open>in_stream\<close>) that every theorem is about all values of.
  Writes are recorded in order, and so are the calls other components make to the screen
  routines; \<open>Video\<close> says what such a call does to the screen.
\<close>

datatype io_event = OutB u16 u8 | OutW u16 u16

datatype karg = ArgInt u32 | ArgStr string

datatype screen_call = Kprintf string "karg list" | Set_color u8

record env =
  in_stream :: "u16 \<Rightarrow> nat \<Rightarrow> u8"
  in_count :: "u16 \<Rightarrow> nat"
  outs :: "io_event list"
  klog :: "screen_call list"

definition inportb :: "u16 \<Rightarrow> env \<Rightarrow> u8 \<times> env" where
  "inportb port e =
     (in_stream e port (in_count e port),
      e\<lparr>in_count := (in_count e)(port := Suc (in_count e port))\<rparr>)"

definition outportb :: "u16 \<Rightarrow> u8 \<Rightarrow> env \<Rightarrow> env" where
  "outportb port data e = e\<lparr>outs := outs e @ [OutB port data]\<rparr>"

definition outportw :: "u16 \<Rightarrow> u16 \<Rightarrow> env \<Rightarrow> env" where
  "outportw port data e = e\<lparr>outs := outs e @ [OutW port data]\<rparr>"

definition kprintf_call :: "string \<Rightarrow> karg list \<Rightarrow> env \<Rightarrow> env" where
  "kprintf_call fmt args e = e\<lparr>klog := klog e @ [Kprintf fmt args]\<rparr>"

definition set_color_call :: "u8 \<Rightarrow> env \<Rightarrow> env" where
  "set_color_call c e = e\<lparr>klog := klog e @ [Set_color c]\<rparr>"

lemma outs_simps [simp]:
  "outs (outportb p d e) = outs e @ [OutB p d]"
  "outs (outportw p w e) = outs e @ [OutW p w]"
  "outs (kprintf_call f as e) = outs e"
  "outs (set_color_call c e) = outs e"
  "outs (snd (inportb p e)) = outs e"
  by (simp_all add: outportb_def outportw_def kprintf_call_def set_color_call_def inportb_def)

lemma klog_simps [simp]:
  "klog (outportb p d e) = klog e"
  "klog (outportw p w e) = klog e"
  "klog (kprintf_call f as e) = klog e @ [Kprintf f as]"
  "klog (set_color_call c e) = klog e @ [Set_color c]"
  "klog (snd (inportb p e)) = klog e"
  by (simp_all add: outportb_def outportw_def kprintf_call_def set_color_call_def inportb_def)

lemma in_stream_simps [simp]:
  "in_stream (outportb p d e) = in_stream e"
  "in_stream (outportw p w e) = in_stream e"
  "in_stream (kprintf_call f as e) = in_stream e"
  "in_stream (set_color_call c e) = in_stream e"
  "in_stream (snd (inportb p e)) = in_stream e"
  by (simp_all add: outportb_def outportw_def kprintf_call_def set_color_call_def inportb_def)

lemma in_count_simps [simp]:
  "in_count (outportb p d e) = in_count e"
  "in_count (outportw p w e) = in_count e"
  "in_count (kprintf_call f as e) = in_count e"
  "in_count (set_color_call c e) = in_count e"
  "in_count (snd (inportb p e)) = (in_count e)(p := Suc (in_count e p))"
  by (simp_all add: outportb_def outportw_def kprintf_call_def set_color_call_def inportb_def)

section \<open>The interrupt controllers\<close>

text \<open>\<^verbatim>\<open>PIC_WAIT\<close> only spends time.\<close>

definition irq_remap :: "env \<Rightarrow> env" where
  "irq_remap e =
     (let e = outportb 0x20 0x11 e;
          e = outportb 0xA0 0x11 e;
          e = outportb 0x21 0x20 e;
          e = outportb 0xA1 0x28 e;
          e = outportb 0x21 0x04 e;
          e = outportb 0xA1 0x02 e;
          e = outportb 0x21 0x01 e;
          e = outportb 0xA1 0x01 e;
          e = outportb 0x21 0x00 e;
          e = outportb 0xA1 0x00 e
      in e)"

text \<open>
  What a controller makes of the bytes it is sent, from its data sheet: a command byte with
  bit 4 set starts the initialisation; the next data bytes are the vector offset, the
  cascade wiring and the mode; every later data byte is the interrupt mask.
\<close>

record pic =
  pic_phase :: nat
  pic_offset :: u8
  pic_cascade :: u8
  pic_mode :: u8
  pic_mask :: u8

definition pic_command :: "u8 \<Rightarrow> pic \<Rightarrow> pic" where
  "pic_command d p = (if bit d 4 then p\<lparr>pic_phase := 1, pic_mask := 0\<rparr> else p)"

definition pic_data :: "u8 \<Rightarrow> pic \<Rightarrow> pic" where
  "pic_data d p =
     (if pic_phase p = 1 then p\<lparr>pic_offset := d, pic_phase := 2\<rparr>
      else if pic_phase p = 2 then p\<lparr>pic_cascade := d, pic_phase := 3\<rparr>
      else if pic_phase p = 3 then p\<lparr>pic_mode := d, pic_phase := 0\<rparr>
      else p\<lparr>pic_mask := d\<rparr>)"

fun pics_after :: "io_event list \<Rightarrow> pic \<times> pic \<Rightarrow> pic \<times> pic" where
  "pics_after [] ps = ps"
| "pics_after (OutW p w # es) ps = pics_after es ps"
| "pics_after (OutB p d # es) (m, s) = pics_after es
     (if p = 0x20 then (pic_command d m, s) else if p = 0x21 then (pic_data d m, s)
      else if p = 0xA0 then (m, pic_command d s) else if p = 0xA1 then (m, pic_data d s)
      else (m, s))"

definition irq_remap_events :: "io_event list" where
  "irq_remap_events =
     [OutB 0x20 0x11, OutB 0xA0 0x11, OutB 0x21 0x20, OutB 0xA1 0x28, OutB 0x21 0x04,
      OutB 0xA1 0x02, OutB 0x21 0x01, OutB 0xA1 0x01, OutB 0x21 0x00, OutB 0xA1 0x00]"

lemma outs_irq_remap [simp]: "outs (irq_remap e) = outs e @ irq_remap_events"
  by (simp add: irq_remap_def irq_remap_events_def Let_def)

lemma irq_remap_frame [simp]:
  "klog (irq_remap e) = klog e" "in_stream (irq_remap e) = in_stream e"
  "in_count (irq_remap e) = in_count e"
  by (simp_all add: irq_remap_def Let_def)

text \<open>
  The bytes \<open>irq_remap\<close> sends leave the two controllers, whatever state they were in,
  initialised and unmasked with the master's lines on vectors \<open>0x20..0x27\<close> and the
  slave's on \<open>0x28..0x2F\<close>, the slave wired to line 2 of the master, both in 8086 mode.
\<close>
theorem irq_remap_programs_pics:
  "\<exists>es m' s'. outs (irq_remap e) = outs e @ es \<and> pics_after es (m, s) = (m', s') \<and>
    pic_offset m' = 0x20 \<and> pic_offset s' = 0x28 \<and> pic_cascade m' = 4 \<and> pic_cascade s' = 2 \<and>
    pic_mode m' = 1 \<and> pic_mode s' = 1 \<and> pic_phase m' = 0 \<and> pic_phase s' = 0 \<and>
    pic_mask m' = 0 \<and> pic_mask s' = 0"
  by (simp add: irq_remap_events_def pic_command_def pic_data_def)

end
