(* ===== verification/Interrupts.thy ===== *)
theory Interrupts
  imports Ports
begin

text \<open>
  Dispatch of exceptions and interrupts (\<^verbatim>\<open>kernel/isr.c\<close>), the panic of
  \<^verbatim>\<open>kernel/video.c\<close> and the interval timer (\<^verbatim>\<open>kernel/timer.c\<close>). A
  handler is a value of some type \<open>'h\<close>; what calling it does is the parameter \<open>run\<close>. A
  routine that never returns because the processor has been halted ends in \<open>Stopped\<close>, with
  the state it leaves behind.
\<close>

datatype 'a outcome = Running 'a | Stopped 'a

record registers =
  ds :: u32
  edi :: u32
  esi :: u32
  ebp :: u32
  useless :: u32
  ebx :: u32
  edx :: u32
  ecx :: u32
  eax :: u32
  int_no :: u32
  err_code :: u32
  eip :: u32
  cs :: u32
  eflags :: u32
  esp :: u32
  ss :: u32

section \<open>kpanic\<close>

definition kpanic :: "string \<Rightarrow> karg list \<Rightarrow> env \<Rightarrow> env outcome" where
  "kpanic str args e =
     (let e = set_color_call 4 e;
          e = kprintf_call ''A system error has occured and system has been halted\<newline>'' [] e;
          e = kprintf_call ''to prevent damage to your computer. Error information:\<newline>'' [] e;
          e = kprintf_call str (take 1 args) e
      in Stopped e)"

section \<open>The handler table\<close>

type_synonym 'h handlers = "nat \<Rightarrow> 'h option"

definition no_handlers :: "'h handlers" where
  "no_handlers = (\<lambda>_. None)"

definition register_interrupt_handler :: "u8 \<Rightarrow> 'h \<Rightarrow> 'h handlers \<Rightarrow> 'h handlers" where
  "register_interrupt_handler n h hs = hs(unat n \<mapsto> h)"

definition unregister_interrupt_handler :: "u8 \<Rightarrow> 'h handlers \<Rightarrow> 'h handlers" where
  "unregister_interrupt_handler n hs = hs(unat n := None)"

definition exception_messages :: "string list" where
  "exception_messages =
     [''Division By Zero'', ''Debug'', ''Non Maskable Interrupt'', ''Breakpoint'',
      ''Into Detected Overflow'', ''Out of Bounds'', ''Invalid Opcode'', ''No Coprocessor'',
      ''Double Fault'', ''Coprocessor Segment Overrun'', ''Bad TSS'', ''Segment Not Present'',
      ''Stack Fault'', ''General Protection Fault'', ''Page Fault'', ''Unknown Interrupt'',
      ''Coprocessor Fault'', ''Alignment Check'', ''Machine Check'', ''Reserved'', ''Reserved'',
      ''Reserved'', ''Reserved'', ''Reserved'', ''Reserved'', ''Reserved'', ''Reserved'',
      ''Reserved'', ''Reserved'', ''Reserved'', ''Reserved'', ''Reserved'']"

text \<open>
  Both tables are C arrays: 32 messages, 256 handlers. Calling a handler that is not
  registered is skipped.
\<close>

definition call_handler :: "('h \<Rightarrow> registers \<Rightarrow> env \<times> 's \<Rightarrow> (env \<times> 's) outcome res) \<Rightarrow> 'h handlers \<Rightarrow>
    registers \<Rightarrow> env \<times> 's \<Rightarrow> (env \<times> 's) outcome res" where
  "call_handler run hs regs st =
     (if unat (int_no regs) < 256
      then (case hs (unat (int_no regs)) of None \<Rightarrow> Inr (Running st) | Some h \<Rightarrow> run h regs st)
      else Inl Out_of_bounds)"

definition isr_handler :: "('h \<Rightarrow> registers \<Rightarrow> env \<times> 's \<Rightarrow> (env \<times> 's) outcome res) \<Rightarrow> 'h handlers \<Rightarrow>
    registers \<Rightarrow> env \<times> 's \<Rightarrow> (env \<times> 's) outcome res" where
  "isr_handler run hs regs st =
     (if unat (int_no regs) < length exception_messages
      then
        (case kpanic ''%s Exception'' [ArgStr (exception_messages ! unat (int_no regs))] (fst st) of
           Stopped e \<Rightarrow> Inr (Stopped (e, snd st))
         | Running e \<Rightarrow> call_handler run hs regs (e, snd st))
      else Inl Out_of_bounds)"

definition irq_handler :: "('h \<Rightarrow> registers \<Rightarrow> env \<times> 's \<Rightarrow> (env \<times> 's) outcome res) \<Rightarrow> 'h handlers \<Rightarrow>
    registers \<Rightarrow> env \<times> 's \<Rightarrow> (env \<times> 's) outcome res" where
  "irq_handler run hs regs st =
     (let e = (if int_no regs \<ge> 40 then outportb 0xA0 0x20 (fst st) else fst st);
          e = outportb 0x20 0x20 e
      in call_handler run hs regs (e, snd st))"

section \<open>timer.c\<close>

definition timer_callback :: "u64 \<Rightarrow> u64" where
  "timer_callback ticks = ticks + 1"

definition timer_init :: "'h \<Rightarrow> u32 \<Rightarrow> 'h handlers \<Rightarrow> env \<Rightarrow> ('h handlers \<times> env) res" where
  "timer_init callback frequency hs e =
     (let hs = register_interrupt_handler 32 callback hs
      in if frequency = 0 then Inl Div_by_zero
         else
           let divisor = 1193180 div frequency;
               low = ucast (divisor AND 0xFF) :: u8;
               high = ucast (drop_bit 8 divisor AND 0xFF) :: u8;
               e = outportb 0x43 0x36 e;
               e = outportb 0x40 low e;
               e = outportb 0x40 high e
           in Inr (hs, e))"

text \<open>
  The 16-bit counter of the timer chip after a run of port writes, from its data sheet: after
  the mode byte \<open>0x36\<close> it takes the low byte of the divisor, then the high byte.
\<close>

fun pit_divisor :: "io_event list \<Rightarrow> nat option" where
  "pit_divisor [OutB p c, OutB q lo, OutB r hi] =
     (if p = 0x43 \<and> c = 0x36 \<and> q = 0x40 \<and> r = 0x40 then Some (unat lo + 256 * unat hi) else None)"
| "pit_divisor _ = None"

section \<open>Properties\<close>

text \<open>
  C30. An interrupt is acknowledged before its handler runs: the slave controller first when
  the vector is one of its own (40 and up), then always the master, and nothing else is sent;
  the registered handler, if there is one, then runs on that state.
\<close>
theorem irq_handler_acknowledges:
  assumes "unat (int_no regs) < 256"
  shows "\<exists>e'. outs e' = outs e @ (if 40 \<le> unat (int_no regs)
        then [OutB 0xA0 0x20, OutB 0x20 0x20] else [OutB 0x20 0x20]) \<and>
    klog e' = klog e \<and>
    irq_handler run hs regs (e, s) =
      (case hs (unat (int_no regs)) of None \<Rightarrow> Inr (Running (e', s)) | Some h \<Rightarrow> run h regs (e', s))"
proof -
  have "int_no regs \<ge> 40 \<longleftrightarrow> 40 \<le> unat (int_no regs)"
    by (simp add: word_le_nat_alt)
  then show ?thesis
    using assms
    by (intro exI [of _ "outportb 0x20 0x20 (if int_no regs \<ge> 40 then outportb 0xA0 0x20 e else e)"])
      (simp add: irq_handler_def call_handler_def Let_def split: option.splits)
qed

theorem irq_handler_acknowledges_witness:
  "\<exists>e'. outs e' = [OutB 0x20 0x20] \<and>
    irq_handler (\<lambda>h r st. Inr (Running st)) (register_interrupt_handler 33 () no_handlers)
      \<lparr>ds = 16, edi = 0, esi = 0, ebp = 0, useless = 0, ebx = 0, edx = 0, ecx = 0, eax = 0,
       int_no = 33, err_code = 1, eip = 0x100000, cs = 8, eflags = 0x202, esp = 0, ss = 0\<rparr>
      (\<lparr>in_stream = (\<lambda>_ _. 0), in_count = (\<lambda>_. 0), outs = [], klog = []\<rparr>, ()) =
    Inr (Running (e', ()))"
  using irq_handler_acknowledges [of
      "\<lparr>ds = 16, edi = 0, esi = 0, ebp = 0, useless = 0, ebx = 0, edx = 0, ecx = 0, eax = 0,
       int_no = 33, err_code = 1, eip = 0x100000, cs = 8, eflags = 0x202, esp = 0, ss = 0\<rparr>"
      "\<lparr>in_stream = (\<lambda>_ _. 0), in_count = (\<lambda>_. 0), outs = [], klog = []\<rparr>"
      "\<lambda>h r st. Inr (Running st)" "register_interrupt_handler 33 () no_handlers" "()"]
  by (auto simp: register_interrupt_handler_def)

text \<open>
  An exception never reaches a registered handler: \<open>isr_handler\<close> panics first and the
  processor is halted, whatever is registered for the vector (the page fault handler of
  \<^verbatim>\<open>paging.c\<close> included). A vector from 32 on reads past the table of messages.
\<close>
theorem isr_handler_never_dispatches:
  "isr_handler run hs regs st =
    (if unat (int_no regs) < 32
     then Inr (Stopped ((fst st)\<lparr>klog := klog (fst st) @
       [Set_color 4,
        Kprintf ''A system error has occured and system has been halted\<newline>'' [],
        Kprintf ''to prevent damage to your computer. Error information:\<newline>'' [],
        Kprintf ''%s Exception'' [ArgStr (exception_messages ! unat (int_no regs))]]\<rparr>, snd st))
     else Inl Out_of_bounds)"
proof -
  have "length exception_messages = 32" by (simp add: exception_messages_def)
  then show ?thesis
    by (simp add: isr_handler_def kpanic_def kprintf_call_def set_color_call_def Let_def)
qed

text \<open>
  C37. \<open>timer_init\<close> faults on frequency 0. Otherwise it installs the callback for vector 32 and
  the chip ends up with the divisor \<open>1193180 div frequency\<close>, cut to 16 bits: the whole divisor
  exactly for frequencies from 19 Hz on.
\<close>
theorem timer_init_divisor:
  "if frequency = 0 then timer_init cb frequency hs e = Inl Div_by_zero
   else \<exists>e' es. timer_init cb frequency hs e = Inr (hs(32 \<mapsto> cb), e') \<and> outs e' = outs e @ es \<and>
     pit_divisor es = Some ((1193180 div unat frequency) mod 65536) \<and>
     (pit_divisor es = Some (1193180 div unat frequency) \<longleftrightarrow> 19 \<le> unat frequency)"
proof (cases "frequency = 0")
  case True
  then show ?thesis by (simp add: timer_init_def)
next
  case False
  let ?d = "1193180 div frequency"
  have d: "unat ?d = 1193180 div unat frequency" by (simp add: unat_div)
  have bytes: "unat (ucast (?d AND 0xFF) :: u8) + 256 * unat (ucast (drop_bit 8 ?d AND 0xFF) :: u8) =
      (1193180 div unat frequency) mod 65536"
    using mod_mult2_eq [of "unat ?d" 256 256]
    by (simp add: ucast_low_byte unat_ucast_u8 unat_drop_bit_eq drop_bit_eq_div unat_div)
  have "0 < unat frequency" using False by (simp add: unat_gt_0)
  then have "1193180 div unat frequency < 65536 \<longleftrightarrow> 19 \<le> unat frequency"
    by (auto simp: div_less_iff_less_mult)
  then have exact: "(1193180 div unat frequency) mod 65536 = 1193180 div unat frequency \<longleftrightarrow>
      19 \<le> unat frequency"
    using mod_less_divisor [of 65536 "1193180 div unat frequency"] by (metis mod_less zero_less_numeral)
  show ?thesis
    using False bytes exact
    by (simp add: timer_init_def register_interrupt_handler_def Let_def del: mod_less)
qed

text \<open>At the 50 Hz of \<^verbatim>\<open>kmain\<close> the chip divides by 23863.\<close>

theorem timer_init_divisor_witness:
  "\<exists>e' es. timer_init () 50 no_handlers
      \<lparr>in_stream = (\<lambda>_ _. 0), in_count = (\<lambda>_. 0), outs = [], klog = []\<rparr> = Inr ([32 \<mapsto> ()], e') \<and>
    outs e' = es \<and> pit_divisor es = Some 23863"
  using timer_init_divisor [of 50 "()" no_handlers
      "\<lparr>in_stream = (\<lambda>_ _. 0), in_count = (\<lambda>_. 0), outs = [], klog = []\<rparr>"]
  by (simp add: no_handlers_def)

end
