(* ===== verification/Memory_State.thy ===== *)
theory Memory_State
  imports OrderedArray Interrupts
begin

text \<open>
  The state the memory manager works on: the byte memory and the globals of
  \<^verbatim>\<open>kernel/mm.c\<close>, \<^verbatim>\<open>kernel/paging.c\<close> and \<^verbatim>\<open>kernel/kheap.c\<close>, and the allocator
  \<^verbatim>\<open>kmalloc_int\<close> falls back to while there is no heap, which only moves a pointer up. The heap
  descriptor is a record by value; everything the descriptor points to is in the byte memory.
\<close>

record heap =
  index :: ordered_array
  start_address :: u32
  end_address :: u32
  max_address :: u32
  supervisor :: u8
  readonly :: u8

record kst =
  kmem :: mem
  placement_address :: u32
  kheap :: "heap option"
  nframes :: u32
  frames :: u32
  kernel_directory :: u32
  cr3 :: u32
  paging_on :: bool
  kenv :: env

text \<open>\<^verbatim>\<open>PAGE_SIZE\<close>\<close>

abbreviation page_size :: u32 where
  "page_size \<equiv> 4096"

definition klog_kst :: "string \<Rightarrow> karg list \<Rightarrow> kst \<Rightarrow> kst" where
  "klog_kst fmt args st = st\<lparr>kenv := kprintf_call fmt args (kenv st)\<rparr>"

lemma klog_kst_simps [simp]:
  "kmem (klog_kst f as st) = kmem st"
  "placement_address (klog_kst f as st) = placement_address st"
  "kheap (klog_kst f as st) = kheap st"
  "nframes (klog_kst f as st) = nframes st"
  "frames (klog_kst f as st) = frames st"
  "kernel_directory (klog_kst f as st) = kernel_directory st"
  "cr3 (klog_kst f as st) = cr3 st"
  "paging_on (klog_kst f as st) = paging_on st"
  "outs (kenv (klog_kst f as st)) = outs (kenv st)"
  by (simp_all add: klog_kst_def)

section \<open>kmalloc before the heap\<close>

text \<open>
  The part of \<^verbatim>\<open>kmalloc_int\<close> after the heap case. The value is the address and, for a caller
  that passed \<^verbatim>\<open>phys\<close>, the physical address.
\<close>

definition placement_alloc :: "u32 \<Rightarrow> u8 \<Rightarrow> kst \<Rightarrow> u32 \<times> u32 \<times> kst" where
  "placement_alloc n align st =
     (let st = (if align = 1 \<and> placement_address st AND 0xFFFFF000 \<noteq> 0
                then st\<lparr>placement_address := (placement_address st AND 0xFFFFF000) + page_size\<rparr>
                else st);
          phys = placement_address st;
          temp = placement_address st
      in (temp, phys, st\<lparr>placement_address := placement_address st + n\<rparr>))"

text \<open>Rounding down to a page by the mask the code uses.\<close>

lemma page_mask: "(x AND 0xFFFFF000 :: u32) = push_bit 12 (drop_bit 12 x)"
proof (rule bit_word_eqI)
  fix n assume "n < LENGTH(32)"
  have "(0xFFFFF000 :: int) = push_bit 12 (mask 20)"
    by (simp add: mask_eq_exp_minus_1 push_bit_eq_mult)
  then have "bit (0xFFFFF000 :: int) n \<longleftrightarrow> 12 \<le> n \<and> n - 12 < 20"
    by (simp only: bit_push_bit_iff bit_mask_iff) auto
  then show "bit (x AND 0xFFFFF000) n = bit (push_bit 12 (drop_bit 12 x)) n"
    using \<open>n < LENGTH(32)\<close> by (auto simp: bit_and_iff bit_push_bit_iff bit_drop_bit_eq)
qed

lemma unat_page_mask: "unat (x AND 0xFFFFF000 :: u32) = 4096 * (unat x div 4096)"
proof -
  have "unat (drop_bit 12 x) = unat x div 4096"
    by (simp add: drop_bit_eq_div unat_div)
  moreover have "unat (push_bit 12 y :: u32) = 4096 * unat y" if "unat y < 2 ^ 20" for y :: u32
    using that by (simp add: push_bit_eq_mult unat_word_ariths)
  moreover have "unat x div 4096 < 2 ^ 20"
    using unat_less_pow [of x] by (simp add: div_less_iff_less_mult)
  ultimately show ?thesis by (simp add: page_mask)
qed

text \<open>What an aligned request returns, in numbers.\<close>

definition page_up :: "nat \<Rightarrow> nat" where
  "page_up p = (if p < 4096 then p else 4096 * (p div 4096) + 4096)"

lemma placement_alloc_aligned:
  assumes "placement_alloc n 1 st = (a, p, st')" "unat (placement_address st) + 4096 + unat n < 2 ^ 32"
  shows "p = a \<and> unat a = page_up (unat (placement_address st)) \<and>
    st' = st\<lparr>placement_address := a + n\<rparr> \<and> unat (a + n) = unat a + unat n"
proof -
  have m: "placement_address st AND 0xFFFFF000 \<noteq> 0 \<longleftrightarrow> 4096 \<le> unat (placement_address st)"
    by (simp add: word_unat_eq_iff unat_page_mask div_eq_0_iff) auto
  have "4096 * (unat (placement_address st) div 4096) \<le> unat (placement_address st)" by simp
  then have up: "unat ((placement_address st AND 0xFFFFF000) + page_size) =
      4096 * (unat (placement_address st) div 4096) + 4096"
    using assms(2) by (subst unat_add_nowrap) (auto simp: unat_page_mask)
  have "unat a = page_up (unat (placement_address st))" "p = a" "st' = st\<lparr>placement_address := a + n\<rparr>"
    using assms(1) up by (auto simp: placement_alloc_def m page_up_def Let_def split: if_splits)
  moreover have "page_up (unat (placement_address st)) \<le> unat (placement_address st) + 4096"
    by (simp add: page_up_def)
  ultimately show ?thesis
    using assms(2) by (simp add: unat_word_ariths)
qed

end
