(* ===== verification/Paging.thy ===== *)
theory Paging
  imports Memory_State
begin

text \<open>
  Physical frames and page tables, \<^verbatim>\<open>kernel/paging.c\<close>: the bitmap of frames, the page
  directory and the page tables in the byte memory, the routines that hand out frames and find
  page entries, the start of paging and the page fault handler. A page entry is a 32-bit word
  whose bit fields are those of \<^verbatim>\<open>page_t\<close>. The allocator is an argument of the routines
  that need a page table (\<open>Heap\<close> closes the loop through \<^verbatim>\<open>kmalloc_int\<close>).
  \<open>translate\<close> is what the processor makes of the tables.
\<close>

section \<open>Page entries\<close>

definition page_present :: "u32 \<Rightarrow> bool" where
  "page_present w \<longleftrightarrow> bit w 0"

definition page_frame_addr :: "u32 \<Rightarrow> u32" where
  "page_frame_addr w = drop_bit 12 w"

definition page_set_bit :: "nat \<Rightarrow> bool \<Rightarrow> u32 \<Rightarrow> u32" where
  "page_set_bit n b w = (if b then set_bit n w else unset_bit n w)"

definition page_set_frame_addr :: "u32 \<Rightarrow> u32 \<Rightarrow> u32" where
  "page_set_frame_addr f w = (w AND 0xFFF) OR push_bit 12 f"

text \<open>An assignment to a field of \<^verbatim>\<open>*page\<close>.\<close>

definition update_page :: "u32 \<Rightarrow> (u32 \<Rightarrow> u32) \<Rightarrow> kst \<Rightarrow> kst" where
  "update_page page f st = st\<lparr>kmem := store32 (kmem st) page (f (load32 (kmem st) page))\<rparr>"

section \<open>The bitmap of frames\<close>

definition frame_word :: "kst \<Rightarrow> u32 \<Rightarrow> u32" where
  "frame_word st i = load32 (kmem st) (frames st + 4 * i)"

definition set_frame :: "u32 \<Rightarrow> kst \<Rightarrow> kst" where
  "set_frame frame_addr st =
     (let frame = frame_addr div page_size;
          i = frame div 32;
          offset = frame mod 32
      in st\<lparr>kmem := store32 (kmem st) (frames st + 4 * i)
           (frame_word st i OR push_bit (unat offset) 1)\<rparr>)"

definition clear_frame :: "u32 \<Rightarrow> kst \<Rightarrow> kst" where
  "clear_frame frame_addr st =
     (let frame = frame_addr div page_size;
          i = frame div 32;
          offset = frame mod 32
      in st\<lparr>kmem := store32 (kmem st) (frames st + 4 * i)
           (frame_word st i AND NOT (push_bit (unat offset) 1))\<rparr>)"

function free_offset :: "u32 \<Rightarrow> u32 \<Rightarrow> u32 \<Rightarrow> u32 option" where
  "free_offset w i offset =
     (if offset < 32
      then if w AND push_bit (unat offset) 1 = 0 then Some (i * 32 + offset)
           else free_offset w i (offset + 1)
      else None)"
  by pat_completeness auto
termination
  by (relation "measure (\<lambda>(w, i, offset). unat (32 :: u32) - unat offset)")
    (auto dest: word_less_Suc_measure)

function first_free_from :: "kst \<Rightarrow> u32 \<Rightarrow> u32" where
  "first_free_from st i =
     (if i < nframes st div 32
      then
        if frame_word st i \<noteq> 0xFFFFFFFF
        then (case free_offset (frame_word st i) i 0 of
                Some f \<Rightarrow> f
              | None \<Rightarrow> first_free_from st (i + 1))
        else first_free_from st (i + 1)
      else 0xFFFFFFFF)"
  by pat_completeness auto
termination
  by (relation "measure (\<lambda>(st, i). unat (nframes st div 32) - unat i)")
    (auto intro: word_less_Suc_measure)

declare free_offset.simps [simp del] first_free_from.simps [simp del]

definition first_free_frame :: "kst \<Rightarrow> u32" where
  "first_free_frame st = first_free_from st 0"

text \<open>The branch for a full memory is empty in the source.\<close>

definition alloc_frame :: "u32 \<Rightarrow> bool \<Rightarrow> bool \<Rightarrow> kst \<Rightarrow> u32 \<times> kst" where
  "alloc_frame page is_kernel is_writeable st =
     (if page_frame_addr (load32 (kmem st) page) = 0
      then
        let i = first_free_frame st;
            st = set_frame (i * page_size) st;
            st = update_page page (page_set_bit 0 True) st;
            st = update_page page (page_set_bit 1 is_writeable) st;
            st = update_page page (page_set_bit 2 (\<not> is_kernel)) st;
            st = update_page page (page_set_frame_addr i) st
        in (i, st)
      else (0, st))"

definition free_frame :: "u32 \<Rightarrow> kst \<Rightarrow> kst" where
  "free_frame page st =
     (let f = page_frame_addr (load32 (kmem st) page)
      in if f \<noteq> 0
         then update_page page (page_set_frame_addr 0) (clear_frame f st)
         else st)"

section \<open>Finding a page entry\<close>

text \<open>
  \<^verbatim>\<open>page_directory_t\<close>: the physical addresses of the tables at offset 0, the pointers to
  them at \<open>0x1000\<close>, the physical address of the directory at \<open>0x2000\<close>. The argument \<open>kap\<close> is
  \<^verbatim>\<open>kmalloc_ap(sizeof(page_table_t), &phys)\<close>.
\<close>

type_synonym table_alloc = "u32 \<Rightarrow> kst \<Rightarrow> (u32 \<times> u32 \<times> kst) res"

definition table_present :: "u32 \<Rightarrow> u32 \<Rightarrow> mem \<Rightarrow> bool" where
  "table_present dir i m \<longleftrightarrow>
     load32 m (dir + 4 * i) AND 1 \<noteq> 0 \<and> load32 m (dir + 0x1000 + 4 * i) \<noteq> 0"

definition get_page :: "table_alloc \<Rightarrow> u32 \<Rightarrow> u32 \<Rightarrow> kst \<Rightarrow> (u32 \<times> kst) res" where
  "get_page kap address dir st =
     (let address = drop_bit 12 address;
          table_index = drop_bit 10 address
      in res_bind
        (if table_present dir table_index (kmem st) then Inr st
         else res_bind (kap 4096 st) (\<lambda>(table, phys, st).
           let st = st\<lparr>kmem := store32 (kmem st) (dir + 0x1000 + 4 * table_index) table\<rparr>;
               st = st\<lparr>kmem := memset (kmem st) table 0 page_size\<rparr>;
               st = st\<lparr>kmem := store32 (kmem st) (dir + 4 * table_index) (phys OR 0x7)\<rparr>
           in Inr st))
        (\<lambda>st. Inr (load32 (kmem st) (dir + 0x1000 + 4 * table_index) + 4 * (address mod 1024), st)))"

definition set_page :: "table_alloc \<Rightarrow> u32 \<Rightarrow> u32 \<Rightarrow> kst \<Rightarrow> (u32 \<times> kst) res" where
  "set_page kap address dir st =
     (let address = drop_bit 12 address;
          table_index = drop_bit 10 address
      in res_bind
        (if table_present dir table_index (kmem st) then Inr st
         else res_bind (kap 4096 st) (\<lambda>(table, phys, st).
           let st = st\<lparr>kmem := store32 (kmem st) (dir + 0x1000 + 4 * table_index) table\<rparr>;
               st = st\<lparr>kmem := memset (kmem st) table 0 page_size\<rparr>;
               st = st\<lparr>kmem := store32 (kmem st) (dir + 4 * table_index) (phys OR 0x7)\<rparr>
           in Inr st))
        (\<lambda>st. Inr (load32 (kmem st) (dir + 0x1000 + 4 * table_index) + 4 * (address mod 1024), st)))"

text \<open>Before there is a heap.\<close>

definition early_table_alloc :: table_alloc where
  "early_table_alloc n st = Inr (placement_alloc n 1 st)"

section \<open>Starting paging\<close>

text \<open>The loop that maps the memory in use; \<open>fuel\<close> bounds its iterations.\<close>

fun map_used :: "nat \<Rightarrow> u32 \<Rightarrow> u32 \<Rightarrow> kst \<Rightarrow> (u32 \<times> kst) res" where
  "map_used 0 i counter st = Inl Out_of_fuel"
| "map_used (Suc fuel) i counter st =
     (if i < placement_address st
      then res_bind (get_page early_table_alloc i (kernel_directory st) st) (\<lambda>(page, st).
        let (f, st) = alloc_frame page False False st
        in map_used fuel (i + page_size) (counter + 1) st)
      else Inr (counter, st))"

definition paging_setup :: "u32 \<Rightarrow> kst \<Rightarrow> kst" where
  "paging_setup available_mem st =
     (let st = klog_kst ''Initializing Paging...\<newline>'' [] st;
          st = st\<lparr>nframes := (available_mem * 1024) div page_size\<rparr>;
          (a, phys, st) = placement_alloc (nframes st div 32) 0 st;
          st = st\<lparr>frames := a\<rparr>;
          st = st\<lparr>kmem := memset (kmem st) (frames st) 0 (nframes st div 32)\<rparr>;
          st = klog_kst ''Detected memory: %dKB (%d frames)\<newline>''
                 [ArgInt available_mem, ArgInt (nframes st)] st;
          (a, phys, st) = placement_alloc 8196 1 st;
          st = st\<lparr>kernel_directory := a\<rparr>;
          st = st\<lparr>kmem := memset (kmem st) (kernel_directory st) 0 8196\<rparr>
      in st\<lparr>kmem := store32 (kmem st) (kernel_directory st + 0x2000) phys\<rparr>)"

definition paging_init :: "nat \<Rightarrow> 'h \<Rightarrow> u32 \<Rightarrow> 'h handlers \<Rightarrow> kst \<Rightarrow> ('h handlers \<times> kst) res" where
  "paging_init fuel page_fault_handler available_mem hs st =
     (let st = paging_setup available_mem st
      in res_bind (map_used fuel 0 0 st) (\<lambda>(counter, st).
        let phys = load32 (kmem st) (kernel_directory st + 0x2000);
            st = klog_kst ''\<newline>\<newline>INFO FROM PAGING\<newline>'' [] st;
            st = klog_kst ''nframes = %d\<newline>'' [ArgInt (nframes st)] st;
            st = klog_kst ''frames = %x\<newline>'' [ArgInt (frames st)] st;
            st = klog_kst ''kernel_directory->phys: %x\<newline>'' [ArgInt phys] st;
            st = klog_kst ''placement_addres: %x\<newline>'' [ArgInt (placement_address st)] st;
            st = klog_kst ''allocated frames: %d\<newline>\<newline>'' [ArgInt counter] st;
            hs = register_interrupt_handler 14 page_fault_handler hs
        in Inr (hs, st\<lparr>cr3 := phys, paging_on := True\<rparr>)))"

text \<open>\<open>faulting_address\<close> is the register \<^verbatim>\<open>cr2\<close>.\<close>

definition page_fault :: "u32 \<Rightarrow> registers \<Rightarrow> env \<Rightarrow> env outcome" where
  "page_fault faulting_address r e =
     (let present = (err_code r AND 0x1 = 0);
          rw = (err_code r AND 0x2 \<noteq> 0);
          us = (err_code r AND 0x4 \<noteq> 0);
          reserved = (err_code r AND 0x8 \<noteq> 0);
          e = kprintf_call ''Page fault ( '' [] e;
          e = (if present then kprintf_call ''present '' [] e else e);
          e = (if rw then kprintf_call ''read-only '' [] e else e);
          e = (if us then kprintf_call ''user-mode '' [] e else e);
          e = (if reserved then kprintf_call ''reserved '' [] e else e);
          e = kprintf_call '') at %x\<newline>'' [ArgInt faulting_address] e
      in kpanic ''PANIC'' [] e)"

section \<open>What the processor makes of the tables\<close>

definition translate :: "kst \<Rightarrow> u32 \<Rightarrow> u32 option" where
  "translate st a =
     (let pde = load32 (kmem st) ((cr3 st AND 0xFFFFF000) + 4 * drop_bit 22 a)
      in if \<not> bit pde 0 then None
         else
           let pte = load32 (kmem st) ((pde AND 0xFFFFF000) + 4 * (drop_bit 12 a mod 1024))
           in if \<not> bit pte 0 then None
              else Some ((pte AND 0xFFFFF000) + (a AND 0xFFF)))"

section \<open>The bitmap\<close>

definition frame_bit :: "kst \<Rightarrow> nat \<Rightarrow> bool" where
  "frame_bit st f \<longleftrightarrow> bit (frame_word st (of_nat (f div 32))) (f mod 32)"

text \<open>The number of frames \<open>first_free_frame\<close> looks at: whole words of the bitmap only.\<close>

definition managed_frames :: "kst \<Rightarrow> nat" where
  "managed_frames st = 32 * (unat (nframes st) div 32)"

lemma and_one_bit: "(w AND push_bit k 1 = 0) \<longleftrightarrow> \<not> bit (w :: u32) k"
  using and_exp_eq_0_iff_not_bit [of w k] by (simp add: push_bit_of_1)

lemma free_offset_eq:
  "offset \<le> 32 \<Longrightarrow> free_offset w i offset =
    (case find (\<lambda>k. \<not> bit w k) [unat offset..<32] of None \<Rightarrow> None | Some k \<Rightarrow> Some (i * 32 + of_nat k))"
proof (induction w i offset rule: free_offset.induct)
  case (1 w i offset)
  show ?case
  proof (cases "offset < 32")
    case True
    then have lt: "unat offset < 32" by (simp add: word_less_nat_alt)
    have u: "unat (offset + 1) = Suc (unat offset)" by (rule unat_Suc_less [OF True])
    then have "offset + 1 \<le> 32" using lt by (simp add: word_le_nat_alt)
    moreover have "[unat offset..<32] = unat offset # [Suc (unat offset)..<32]"
      using lt by (simp add: upt_conv_Cons)
    ultimately show ?thesis
      using 1 True by (simp add: free_offset.simps [of w i offset] and_one_bit u del: push_bit_of_1)
  next
    case False
    then have "offset = 32" using 1(2) by simp
    then show ?thesis by (simp add: free_offset.simps [of w i 32])
  qed
qed

lemma full_word: "(w :: u32) = 0xFFFFFFFF \<longleftrightarrow> (\<forall>k<32. bit w k)"
proof -
  have "(0xFFFFFFFF :: u32) = - 1" by simp
  then have "bit (0xFFFFFFFF :: u32) k" if "k < 32" for k
    using that by (simp only: bit_minus_1_iff possible_bit_word) simp
  then show ?thesis by (auto intro!: bit_word_eqI simp del: bit_numeral_word_iff)
qed

lemma find_least:
  "k < n \<Longrightarrow> P k \<Longrightarrow> (\<And>j. j < k \<Longrightarrow> \<not> P j) \<Longrightarrow> find P [0..<n] = Some k"
  by (auto simp: find_Some_iff intro!: exI [of _ k])

lemma frame_bit_split: "k < 32 \<Longrightarrow> frame_bit st (32 * unat i + k) = bit (frame_word st i) k"
  by (simp add: frame_bit_def)

lemma first_free_from_full:
  "(\<And>g. 32 * unat i \<le> g \<Longrightarrow> g < managed_frames st \<Longrightarrow> frame_bit st g) \<Longrightarrow>
    first_free_from st i = 0xFFFFFFFF"
proof (induction st i rule: first_free_from.induct)
  case (1 st i)
  show ?case
  proof (cases "i < nframes st div 32")
    case False
    then show ?thesis by (simp add: first_free_from.simps [of st i])
  next
    case True
    then have lt: "unat i < unat (nframes st) div 32" by (simp add: word_less_nat_alt unat_div)
    then have "bit (frame_word st i) k" if "k < 32" for k
      using that 1(3) [of "32 * unat i + k"] by (simp add: managed_frames_def frame_bit_split)
    then have full: "frame_word st i = 0xFFFFFFFF" by (simp add: full_word)
    have "first_free_from st (i + 1) = 0xFFFFFFFF"
      by (rule 1(2)) (use True full 1(3) in \<open>simp_all add: unat_Suc_less [OF True]\<close>)
    then show ?thesis using True full by (simp add: first_free_from.simps [of st i])
  qed
qed

lemma first_free_from_least:
  "32 * unat i \<le> f \<Longrightarrow> f < managed_frames st \<Longrightarrow> \<not> frame_bit st f \<Longrightarrow>
    (\<And>g. 32 * unat i \<le> g \<Longrightarrow> g < f \<Longrightarrow> frame_bit st g) \<Longrightarrow> first_free_from st i = of_nat f"
proof (induction st i rule: first_free_from.induct)
  case (1 st i)
  have "unat i \<le> f div 32" using 1(3) by simp
  moreover have "f div 32 < unat (nframes st) div 32"
    using 1(4) by (simp add: managed_frames_def div_less_iff_less_mult mult.commute)
  ultimately have True: "i < nframes st div 32" by (simp add: word_less_nat_alt unat_div)
  show ?case
  proof (cases "f div 32 = unat i")
    case here: True
    define k where "k = f mod 32"
    have f: "f = 32 * unat i + k" "k < 32" using here by (simp_all add: k_def flip: here)
    have nb: "\<not> bit (frame_word st i) k" using 1(5) f by (simp add: frame_bit_split)
    then have "frame_word st i \<noteq> 0xFFFFFFFF" using f(2) by (auto simp: full_word)
    moreover have "find (\<lambda>k. \<not> bit (frame_word st i) k) [0..<32] = Some k"
    proof (rule find_least)
      show "\<not> \<not> bit (frame_word st i) j" if "j < k" for j
        using 1(6) [of "32 * unat i + j"] that f by (simp add: frame_bit_split)
    qed (use f nb in simp_all)
    ultimately show ?thesis
      using True f(1) by (simp add: first_free_from.simps [of st i] free_offset_eq)
  next
    case False
    then have nxt: "32 * Suc (unat i) \<le> f"
      using 1(3) by (metis \<open>unat i \<le> f div 32\<close> le_neq_implies_less Suc_leI less_eq_div_iff_mult_less_eq
          mult.commute zero_less_numeral)
    then have "bit (frame_word st i) k" if "k < 32" for k
      using that 1(6) [of "32 * unat i + k"] by (simp add: frame_bit_split)
    then have full: "frame_word st i = 0xFFFFFFFF" by (simp add: full_word)
    have "first_free_from st (i + 1) = of_nat f"
      by (rule 1(2)) (use True full nxt 1(4-6) in \<open>simp_all add: unat_Suc_less [OF True]\<close>)
    then show ?thesis using True full by (simp add: first_free_from.simps [of st i])
  qed
qed

text \<open>Changing one word of the bitmap.\<close>

lemma frame_word_store:
  assumes "i < 2 ^ 15" "j < 2 ^ 15"
  shows "frame_word (st\<lparr>kmem := store32 (kmem st) (frames st + 4 * of_nat i) v\<rparr>) (of_nat j) =
    (if i = j then v else frame_word st (of_nat j))"
  using load32_store32_word [of "2 ^ 15" i j "kmem st" "frames st" v] assms
  by (simp add: frame_word_def)

lemma frame_bit_store:
  assumes "f < 2 ^ 20" "g < 2 ^ 20"
    and "\<And>k. k < 32 \<Longrightarrow> bit v k = P (32 * (f div 32) + k)"
  shows "frame_bit (st\<lparr>kmem := store32 (kmem st) (frames st + 4 * of_nat (f div 32)) v\<rparr>) g =
    (if f div 32 = g div 32 then P g else frame_bit st g)"
proof -
  have lt: "f div 32 < 2 ^ 15" "g div 32 < 2 ^ 15"
    using assms(1,2) by (simp_all add: div_less_iff_less_mult)
  have "32 * (f div 32) + g mod 32 = g" if "f div 32 = g div 32"
    using that mult_div_mod_eq [of 32 g] by simp
  then show ?thesis
    using frame_word_store [OF lt, of st v] assms(3) [of "g mod 32"] by (auto simp: frame_bit_def)
qed

text \<open>The word and bit of a frame address.\<close>

lemma frame_index:
  "(a :: u32) div page_size div 32 = of_nat (unat a div 4096 div 32)"
  "unat (a div page_size mod 32) = unat a div 4096 mod 32"
proof -
  have "unat a div 4096 div 32 < 2 ^ 32"
    using unat_less_pow [of a] by (simp add: div_less_iff_less_mult)
  then show "a div page_size div 32 = of_nat (unat a div 4096 div 32)"
    by (simp add: word_unat_eq_iff unat_div unat_of_nat_small)
  show "unat (a div page_size mod 32) = unat a div 4096 mod 32"
    by (simp add: unat_div unat_mod)
qed

lemma bit_of_frame:
  "k < 32 \<Longrightarrow> bit (push_bit (f mod 32) 1 :: u32) k \<longleftrightarrow> 32 * (f div 32) + k = f"
proof -
  assume k: "k < 32"
  have "32 * (f div 32) + k = f \<longleftrightarrow> k = f mod 32"
    by (metis add_left_cancel mult_div_mod_eq)
  then show ?thesis
    using k by (auto simp: bit_push_bit_iff bit_1_iff simp del: push_bit_of_1)
qed

lemma set_frame_bits:
  assumes "g < 2 ^ 20"
  shows "frame_bit (set_frame a st) g = (g = unat a div 4096 \<or> frame_bit st g)"
proof -
  define f where "f = unat a div 4096"
  have f: "f < 2 ^ 20" using unat_less_pow [of a] by (simp add: f_def div_less_iff_less_mult)
  define v where "v = frame_word st (of_nat (f div 32)) OR push_bit (f mod 32) 1"
  have "set_frame a st = st\<lparr>kmem := store32 (kmem st) (frames st + 4 * of_nat (f div 32)) v\<rparr>"
    by (simp only: set_frame_def Let_def frame_index f_def v_def)
  moreover have "bit v k = (32 * (f div 32) + k = f \<or> frame_bit st (32 * (f div 32) + k))"
    if "k < 32" for k
    using bit_of_frame [OF that, of f] frame_bit_def [of st "32 * (f div 32) + k"] that
    by (auto simp: v_def bit_or_iff simp del: push_bit_of_1)
  ultimately show ?thesis
    using frame_bit_store [OF f assms, of v "\<lambda>g. g = f \<or> frame_bit st g" st] f_def by auto
qed

lemma clear_frame_bits:
  assumes "g < 2 ^ 20"
  shows "frame_bit (clear_frame a st) g = (g \<noteq> unat a div 4096 \<and> frame_bit st g)"
proof -
  define f where "f = unat a div 4096"
  have f: "f < 2 ^ 20" using unat_less_pow [of a] by (simp add: f_def div_less_iff_less_mult)
  define v where "v = frame_word st (of_nat (f div 32)) AND NOT (push_bit (f mod 32) 1)"
  have "clear_frame a st = st\<lparr>kmem := store32 (kmem st) (frames st + 4 * of_nat (f div 32)) v\<rparr>"
    by (simp only: clear_frame_def Let_def frame_index f_def v_def)
  moreover have "bit v k = (32 * (f div 32) + k \<noteq> f \<and> frame_bit st (32 * (f div 32) + k))"
    if "k < 32" for k
    using bit_of_frame [OF that, of f] frame_bit_def [of st "32 * (f div 32) + k"] that
    by (auto simp: v_def bit_and_iff bit_not_iff simp del: push_bit_of_1)
  ultimately show ?thesis
    using frame_bit_store [OF f assms, of v "\<lambda>g. g \<noteq> f \<and> frame_bit st g" st] f_def by auto
qed

text \<open>What a page entry becomes when it is given a frame.\<close>

definition page_entry :: "u32 \<Rightarrow> bool \<Rightarrow> bool \<Rightarrow> u32 \<Rightarrow> u32" where
  "page_entry f is_kernel is_writeable w =
     page_set_frame_addr f (page_set_bit 2 (\<not> is_kernel) (page_set_bit 1 is_writeable (page_set_bit 0 True w)))"

lemma bit_page_set_bit:
  "m < 32 \<Longrightarrow> bit (page_set_bit n b w) m = (if m = n then b else bit w m)"
  by (auto simp: page_set_bit_def bit_set_bit_iff bit_unset_bit_iff)

lemma bit_low12: "bit (0xFFF :: int) n \<longleftrightarrow> n < 12"
proof -
  have "(0xFFF :: int) = mask 12" by (simp add: mask_eq_exp_minus_1)
  then show ?thesis by (simp only: bit_mask_iff) auto
qed

lemma bit_page_set_frame_addr:
  "m < 32 \<Longrightarrow> bit (page_set_frame_addr f w) m = (if m < 12 then bit w m else bit f (m - 12))"
  by (auto simp: page_set_frame_addr_def bit_or_iff bit_and_iff bit_push_bit_iff bit_low12)

lemma bit_page_entry:
  "m < 32 \<Longrightarrow> bit (page_entry f k w v) m =
    (if m = 0 then True else if m = 1 then w else if m = 2 then \<not> k
     else if m < 12 then bit v m else bit f (m - 12))"
  by (simp add: page_entry_def bit_page_set_frame_addr bit_page_set_bit)

lemma bit_frame_addr: "bit (page_frame_addr w) m = bit w (m + 12)"
  by (simp add: page_frame_addr_def bit_drop_bit_eq add.commute)

lemma page_frame_addr_set:
  "page_frame_addr (page_set_frame_addr f w) = take_bit 20 f"
proof (rule bit_word_eqI)
  fix n assume "n < LENGTH(32)"
  have "\<not> bit (page_set_frame_addr f w) (n + 12)" if "20 \<le> n"
    using that bit_imp_le_length [of "page_set_frame_addr f w" "n + 12"] by auto
  then show "bit (page_frame_addr (page_set_frame_addr f w)) n = bit (take_bit 20 f) n"
    by (cases "n < 20") (auto simp: bit_frame_addr bit_page_set_frame_addr bit_take_bit_iff)
qed

lemma page_frame_addr_entry: "page_frame_addr (page_entry f k w v) = take_bit 20 f"
  by (simp add: page_entry_def page_frame_addr_set)

lemma alloc_frame_mapped:
  "page_frame_addr (load32 (kmem st) page) \<noteq> 0 \<Longrightarrow> alloc_frame page k w st = (0, st)"
  by (simp add: alloc_frame_def)

lemma alloc_frame_unmapped:
  assumes "page_frame_addr (load32 (kmem st) page) = 0"
    and "st1 = set_frame (first_free_frame st * page_size) st"
  shows "alloc_frame page k w st = (first_free_frame st,
    st1\<lparr>kmem := store32 (kmem st1) page
      (page_entry (first_free_frame st) k w (load32 (kmem st1) page))\<rparr>)"
  using assms by (simp add: alloc_frame_def update_page_def page_entry_def Let_def)

section \<open>Taking and giving back a frame\<close>

text \<open>An aligned word that is not one of the bitmap.\<close>

definition outside_bitmap :: "kst \<Rightarrow> u32 \<Rightarrow> bool" where
  "outside_bitmap st a \<longleftrightarrow> aligned4 a \<and> aligned4 (frames st) \<and>
     (\<forall>j < unat (nframes st) div 32. a \<noteq> frames st + 4 * of_nat j)"

lemma aligned4_bitmap: "aligned4 (frames st) \<Longrightarrow> aligned4 (frames st + 4 * i)"
  by (intro aligned4_add aligned4_mult)

lemma managed_word: "f < managed_frames st \<Longrightarrow> f div 32 < unat (nframes st) div 32"
  by (simp add: managed_frames_def div_less_iff_less_mult mult.commute)

lemma frame_bit_store_page:
  assumes "outside_bitmap st page" "g < managed_frames st"
  shows "frame_bit (st\<lparr>kmem := store32 (kmem st) page v\<rparr>) g = frame_bit st g"
proof -
  have "page \<noteq> frames st + 4 * of_nat (g div 32)"
    using assms(1) managed_word [OF assms(2)] by (simp add: outside_bitmap_def)
  then show ?thesis
    using assms(1)
    by (simp add: frame_bit_def frame_word_def load32_store32_aligned aligned4_bitmap outside_bitmap_def)
qed

lemma kst_simps_set_frame [simp]:
  "frames (set_frame a st) = frames st" "nframes (set_frame a st) = nframes st"
  "placement_address (set_frame a st) = placement_address st" "kheap (set_frame a st) = kheap st"
  "kernel_directory (set_frame a st) = kernel_directory st" "kenv (set_frame a st) = kenv st"
  "cr3 (set_frame a st) = cr3 st" "paging_on (set_frame a st) = paging_on st"
  by (simp_all add: set_frame_def Let_def)

lemma kst_simps_clear_frame [simp]:
  "frames (clear_frame a st) = frames st" "nframes (clear_frame a st) = nframes st"
  by (simp_all add: clear_frame_def Let_def)

lemma frame_addr_index:
  "f < 2 ^ 20 \<Longrightarrow> unat (of_nat f * page_size :: u32) div 4096 = f"
  by (simp add: unat_word_ariths unat_of_nat_small)

lemma set_frame_load:
  assumes "aligned4 b" "aligned4 (frames st)" "b \<noteq> frames st + 4 * of_nat (unat a div 4096 div 32)"
  shows "load32 (kmem (set_frame a st)) b = load32 (kmem st) b"
  using assms by (simp add: set_frame_def Let_def frame_index load32_store32_aligned aligned4_bitmap)

lemma clear_frame_load:
  assumes "aligned4 b" "aligned4 (frames st)" "b \<noteq> frames st + 4 * of_nat (unat a div 4096 div 32)"
  shows "load32 (kmem (clear_frame a st)) b = load32 (kmem st) b"
  using assms by (simp add: clear_frame_def Let_def frame_index load32_store32_aligned aligned4_bitmap)

lemma alloc_frame_least:
  assumes "unat (nframes st) \<le> 2 ^ 20" "outside_bitmap st page"
    and "page_frame_addr (load32 (kmem st) page) = 0"
    and "f < managed_frames st" "\<not> frame_bit st f" "\<And>g. g < f \<Longrightarrow> frame_bit st g"
  shows "\<exists>st'. alloc_frame page k w st = (of_nat f, st') \<and>
    load32 (kmem st') page = page_entry (of_nat f) k w (load32 (kmem st) page) \<and>
    (\<forall>g < managed_frames st. frame_bit st' g = (g = f \<or> frame_bit st g)) \<and>
    (\<forall>b. outside_bitmap st b \<and> b \<noteq> page \<longrightarrow> load32 (kmem st') b = load32 (kmem st) b) \<and>
    st' = st\<lparr>kmem := kmem st'\<rparr>"
proof -
  have ff: "first_free_frame st = of_nat f"
    unfolding first_free_frame_def by (rule first_free_from_least) (use assms in auto)
  have m20: "managed_frames st \<le> 2 ^ 20" using assms(1) by (simp add: managed_frames_def)
  then have f20: "f < 2 ^ 20" using assms(4) by simp
  define st1 where "st1 = set_frame (of_nat f * page_size) st"
  define v where "v = page_entry (of_nat f) k w (load32 (kmem st1) page)"
  define st2 where "st2 = st1\<lparr>kmem := store32 (kmem st1) page v\<rparr>"
  have al: "alloc_frame page k w st = (of_nat f, st2)"
    using alloc_frame_unmapped [OF assms(3) refl, of k w] by (simp add: ff st1_def st2_def v_def)
  have ob1: "outside_bitmap st1 b = outside_bitmap st b" for b
    by (simp add: outside_bitmap_def st1_def)
  have ld: "load32 (kmem st1) b = load32 (kmem st) b" if "outside_bitmap st b" for b
    unfolding st1_def using that managed_word [OF assms(4)]
    by (intro set_frame_load) (auto simp: outside_bitmap_def frame_addr_index [OF f20])
  have "frame_bit st2 g = (g = f \<or> frame_bit st g)" if "g < managed_frames st" for g
  proof -
    have "frame_bit st2 g = frame_bit st1 g"
      unfolding st2_def by (rule frame_bit_store_page)
        (use assms(2) that in \<open>simp_all add: ob1, simp add: managed_frames_def st1_def\<close>)
    then show ?thesis
      using set_frame_bits [of g "of_nat f * page_size" st] that m20
      by (simp add: st1_def frame_addr_index [OF f20])
  qed
  moreover have "load32 (kmem st2) b = load32 (kmem st) b" if "outside_bitmap st b" "b \<noteq> page" for b
    using that assms(2) ld by (auto simp: st2_def load32_store32_aligned outside_bitmap_def)
  moreover have "st2 = st\<lparr>kmem := kmem st2\<rparr>"
    by (simp add: st2_def st1_def set_frame_def Let_def)
  ultimately show ?thesis
    using ld [OF assms(2)] by (intro exI [of _ st2]) (auto simp: al st2_def v_def)
qed

text \<open>A memory of zeros with \<open>nf\<close> frames whose bitmap is at \<open>0x1000\<close>, for examples.\<close>

definition blank_kst :: "u32 \<Rightarrow> kst" where
  "blank_kst nf = \<lparr>kmem = (\<lambda>a. 0), placement_address = 0x200000, kheap = None, nframes = nf,
     frames = 0x1000, kernel_directory = 0, cr3 = 0, paging_on = False,
     kenv = \<lparr>in_stream = (\<lambda>p n. 0), in_count = (\<lambda>p. 0), outs = [], klog = []\<rparr>\<rparr>"

lemma blank_kst_facts:
  "\<not> frame_bit (blank_kst nf) f" "managed_frames (blank_kst nf) = 32 * (unat nf div 32)"
  "load32 (kmem (blank_kst nf)) a = 0" "nframes (blank_kst nf) = nf" "frames (blank_kst nf) = 0x1000"
  "kheap (blank_kst nf) = None" "placement_address (blank_kst nf) = 0x200000"
  by (simp_all add: blank_kst_def frame_bit_def frame_word_def managed_frames_def load32_def)

lemma outside_bitmap_blank: "outside_bitmap (blank_kst 64) 0x2000" "outside_bitmap (blank_kst 64) 0x2004"
proof -
  have two: "j < 2 \<Longrightarrow> j = 0 \<or> j = (1 :: nat)" for j by auto
  then show "outside_bitmap (blank_kst 64) 0x2000" "outside_bitmap (blank_kst 64) 0x2004"
    by (auto simp: outside_bitmap_def blank_kst_facts aligned4_def dest: two)
qed

text \<open>
  \<open>first_free_frame\<close> returns the least frame whose bit is clear, and \<^verbatim>\<open>ULONG_MAX\<close>
  exactly when every frame of the whole words of the bitmap is taken; the up to 31 frames of a
  last partial word are never found.
\<close>
theorem first_free_frame_least:
  "first_free_frame st =
    (if \<forall>g < managed_frames st. frame_bit st g then 0xFFFFFFFF
     else of_nat (LEAST f. \<not> frame_bit st f))"
proof (cases "\<forall>g < managed_frames st. frame_bit st g")
  case True
  then show ?thesis using first_free_from_full [of 0 st] by (simp add: first_free_frame_def)
next
  case False
  define f where "f = (LEAST f. \<not> frame_bit st f)"
  obtain g where g: "g < managed_frames st" "\<not> frame_bit st g" using False by blast
  have "\<not> frame_bit st f" unfolding f_def by (rule LeastI [of "\<lambda>f. \<not> frame_bit st f", OF g(2)])
  moreover have "f \<le> g" unfolding f_def by (rule Least_le [of "\<lambda>f. \<not> frame_bit st f", OF g(2)])
  moreover have "frame_bit st h" if "h < f" for h
    using not_less_Least that unfolding f_def by blast
  ultimately have "first_free_from st 0 = of_nat f"
    using g(1) by (intro first_free_from_least) auto
  then show ?thesis unfolding if_not_P [OF False] by (simp only: first_free_frame_def f_def)
qed

lemma first_free_frame_least_witness: "first_free_frame (blank_kst 64) = 0"
proof -
  have "\<not> (\<forall>g < managed_frames (blank_kst 64). frame_bit (blank_kst 64) g)"
    by (auto simp: blank_kst_facts intro: exI [of _ 0])
  moreover have "(LEAST f. \<not> frame_bit (blank_kst 64) f) = 0"
    by (simp add: blank_kst_facts)
  ultimately show ?thesis using first_free_frame_least [of "blank_kst 64"] by simp
qed

text \<open>
  C18. \<open>alloc_frame\<close> on a page without a frame takes the least free frame: its bit is set and no
  other, the entry holds the frame, is present, and has the rights that were asked for; every
  other word outside the bitmap is unchanged.
\<close>
theorem alloc_frame_takes_least_free:
  assumes "unat (nframes st) \<le> 2 ^ 20" "outside_bitmap st page"
    and "page_frame_addr (load32 (kmem st) page) = 0"
    and "f < managed_frames st" "\<not> frame_bit st f" "\<And>g. g < f \<Longrightarrow> frame_bit st g"
  shows "\<exists>st'. alloc_frame page k w st = (of_nat f, st') \<and>
    page_frame_addr (load32 (kmem st') page) = of_nat f \<and>
    page_present (load32 (kmem st') page) \<and>
    bit (load32 (kmem st') page) 1 = w \<and> bit (load32 (kmem st') page) 2 = (\<not> k) \<and>
    (\<forall>g < managed_frames st. frame_bit st' g = (g = f \<or> frame_bit st g)) \<and>
    (\<forall>b. outside_bitmap st b \<and> b \<noteq> page \<longrightarrow> load32 (kmem st') b = load32 (kmem st) b)"
proof -
  have "f < 2 ^ 20" using assms(1,4) by (simp add: managed_frames_def)
  then have "take_bit 20 (of_nat f :: u32) = of_nat f"
    by (simp add: word_unat_eq_iff unsigned_take_bit_eq unat_of_nat_small take_bit_nat_eq_self)
  then show ?thesis
    using alloc_frame_least [OF assms, of k w]
    by (auto simp: page_frame_addr_entry page_present_def bit_page_entry)
qed

lemma alloc_frame_takes_least_free_witness:
  "\<exists>st'. alloc_frame 0x2000 False True (blank_kst 64) = (0, st') \<and>
    page_present (load32 (kmem st') 0x2000) \<and> frame_bit st' 0 \<and> \<not> frame_bit st' 1"
proof -
  have "page_frame_addr (load32 (kmem (blank_kst 64)) 0x2000) = 0"
    by (simp add: blank_kst_facts page_frame_addr_def)
  from alloc_frame_takes_least_free [OF _ outside_bitmap_blank(1) this, of 0 False True] show ?thesis
    by (auto simp: blank_kst_facts)
qed

text \<open>
  With no free frame left, \<open>alloc_frame\<close> does not stop: it returns \<^verbatim>\<open>ULONG_MAX\<close>, writes
  the bit of frame \<open>0xFFFFF\<close> into the word \<open>0x7FFF\<close> after the start of the bitmap, which lies
  behind it for every smaller memory, and gives the page the frame \<open>0xFFFFF\<close>.
\<close>
theorem alloc_frame_without_free_frames:
  assumes "\<And>g. g < managed_frames st \<Longrightarrow> frame_bit st g"
    and "aligned4 page" "aligned4 (frames st)" "page \<noteq> frames st + 0x1FFFC"
    and "page_frame_addr (load32 (kmem st) page) = 0"
  shows "\<exists>st'. alloc_frame page k w st = (0xFFFFFFFF, st') \<and>
    load32 (kmem st') (frames st + 0x1FFFC) = load32 (kmem st) (frames st + 0x1FFFC) OR 0x80000000 \<and>
    page_frame_addr (load32 (kmem st') page) = 0xFFFFF \<and> page_present (load32 (kmem st') page)"
proof -
  have ff: "first_free_frame st = 0xFFFFFFFF"
    unfolding first_free_frame_def by (rule first_free_from_full) (use assms(1) in simp)
  define st1 where "st1 = set_frame (0xFFFFF000) st"
  have st1: "kmem st1 = store32 (kmem st) (frames st + 0x1FFFC)
      (load32 (kmem st) (frames st + 0x1FFFC) OR 0x80000000)"
    by (simp add: st1_def set_frame_def Let_def frame_word_def)
  define v where "v = page_entry 0xFFFFFFFF k w (load32 (kmem st1) page)"
  define st2 where "st2 = st1\<lparr>kmem := store32 (kmem st1) page v\<rparr>"
  have al: "alloc_frame page k w st = (0xFFFFFFFF, st2)"
  proof -
    have "(0xFFFFFFFF * page_size :: u32) = 0xFFFFF000" by simp
    then have "st1 = set_frame (first_free_frame st * page_size) st"
      by (simp only: st1_def ff)
    then show ?thesis
      using alloc_frame_unmapped [OF assms(5), of st1 k w] by (simp add: ff st2_def v_def)
  qed
  have "aligned4 (frames st + 0x1FFFC)"
    using aligned4_bitmap [OF assms(3), of "0x7FFF"] by simp
  then have "load32 (kmem st2) (frames st + 0x1FFFC) = load32 (kmem st1) (frames st + 0x1FFFC)"
    using assms(2,4) by (simp add: st2_def load32_store32_aligned)
  moreover have "load32 (kmem st2) page = v" by (simp add: st2_def)
  moreover have "take_bit 20 0xFFFFFFFF = (0xFFFFF :: u32)"
    by (simp add: take_bit_eq_mod)
  ultimately show ?thesis
    by (simp add: al st1 v_def page_frame_addr_entry page_present_def bit_page_entry)
qed

lemma alloc_frame_without_free_frames_witness:
  "\<exists>st'. alloc_frame 0x2000 False True (blank_kst 31) = (0xFFFFFFFF, st') \<and>
    load32 (kmem st') 0x20FFC = 0x80000000"
  using alloc_frame_without_free_frames [of "blank_kst 31" "0x2000" False True]
  by (auto simp: blank_kst_facts aligned4_def page_frame_addr_def)

text \<open>Giving back a frame.\<close>

lemma free_frame_effect:
  assumes "outside_bitmap st page" "page_frame_addr (load32 (kmem st) page) = of_nat f"
    and "0 < f" "f < 2 ^ 20" "f div 4096 < managed_frames st" "unat (nframes st) \<le> 2 ^ 20"
  shows "load32 (kmem (free_frame page st)) page = page_set_frame_addr 0 (load32 (kmem st) page) \<and>
    (\<forall>g < managed_frames st. frame_bit (free_frame page st) g = (g \<noteq> f div 4096 \<and> frame_bit st g)) \<and>
    (\<forall>b. outside_bitmap st b \<and> b \<noteq> page \<longrightarrow> load32 (kmem (free_frame page st)) b = load32 (kmem st) b) \<and>
    frames (free_frame page st) = frames st \<and> nframes (free_frame page st) = nframes st"
proof -
  have f: "(of_nat f :: u32) \<noteq> 0" "unat (of_nat f :: u32) = f"
    using of_nat_inj_small [of f 0, where 'a = 32] assms(3,4) by (simp_all add: unat_of_nat_small)
  define st1 where "st1 = clear_frame (of_nat f) st"
  have free: "free_frame page st = update_page page (page_set_frame_addr 0) st1"
    using f(1) assms(2) by (simp add: free_frame_def st1_def Let_def)
  have ob1: "outside_bitmap st1 b = outside_bitmap st b" for b
    by (simp add: outside_bitmap_def st1_def)
  have m20: "managed_frames st \<le> 2 ^ 20" using assms(6) by (simp add: managed_frames_def)
  have ld: "load32 (kmem st1) b = load32 (kmem st) b" if "outside_bitmap st b" for b
    unfolding st1_def using that managed_word [OF assms(5)]
    by (intro clear_frame_load) (auto simp: outside_bitmap_def f(2))
  have bits: "frame_bit (free_frame page st) g = (g \<noteq> f div 4096 \<and> frame_bit st g)"
    if g: "g < managed_frames st" for g
  proof -
    have "g < managed_frames st1" using g by (simp add: managed_frames_def st1_def)
    then have "frame_bit (free_frame page st) g = frame_bit st1 g"
      unfolding free update_page_def using assms(1) by (intro frame_bit_store_page) (simp_all add: ob1)
    then show ?thesis
      using clear_frame_bits [of g "of_nat f" st] g m20 by (simp add: st1_def f(2))
  qed
  show ?thesis
    using assms(1) ld bits
    by (auto simp: free update_page_def load32_store32_aligned outside_bitmap_def st1_def)
qed

text \<open>
  \<open>free_frame\<close> does not give the page's own frame back: it clears the bit of frame
  \<open>f div 4096\<close>, since \<^verbatim>\<open>clear_frame\<close> expects an address and is passed a frame number. The bit
  of \<open>f\<close> stays set, and the entry stays present, now with frame 0.
\<close>
theorem free_frame_clears_another_bit:
  assumes "outside_bitmap st page" "page_frame_addr (load32 (kmem st) page) = of_nat f"
    and "0 < f" "f < managed_frames st" "unat (nframes st) \<le> 2 ^ 20"
  shows "frame_bit (free_frame page st) f = frame_bit st f \<and>
    \<not> frame_bit (free_frame page st) (f div 4096) \<and>
    page_frame_addr (load32 (kmem (free_frame page st)) page) = 0 \<and>
    page_present (load32 (kmem (free_frame page st)) page) = page_present (load32 (kmem st) page)"
proof -
  have "f < 2 ^ 20" "f div 4096 < managed_frames st"
    using assms(4,5) by (auto simp: managed_frames_def)
  moreover have "f \<noteq> f div 4096" using assms(3) by (simp add: div_eq_dividend_iff)
  ultimately show ?thesis
    using free_frame_effect [OF assms(1,2,3) _ _ assms(5)] assms(4)
    by (simp add: page_frame_addr_set page_present_def bit_page_set_frame_addr)
qed

text \<open>One page that was given frame 0, and a second one that was given frame 1.\<close>

definition two_pages :: kst where
  "two_pages = snd (alloc_frame 0x2004 False False (snd (alloc_frame 0x2000 False False (blank_kst 64))))"

lemma two_pages_facts:
  "nframes two_pages = 64" "frames two_pages = 0x1000" "managed_frames two_pages = 64"
  "g < 64 \<Longrightarrow> frame_bit two_pages g = (g < 2)"
  "page_frame_addr (load32 (kmem two_pages) 0x2004) = of_nat 1"
  "page_frame_addr (load32 (kmem two_pages) 0x2000) = 0"
proof -
  have z: "page_frame_addr (load32 (kmem (blank_kst 64)) a) = 0" for a
    by (simp add: blank_kst_facts page_frame_addr_def)
  from alloc_frame_least [OF _ outside_bitmap_blank(1) z, of 0 False False] obtain st1 where st1:
    "alloc_frame 0x2000 False False (blank_kst 64) = (0, st1)"
    "load32 (kmem st1) 0x2000 = page_entry 0 False False 0"
    "\<forall>g<64. frame_bit st1 g = (g = 0)" "load32 (kmem st1) 0x2004 = 0"
    "st1 = (blank_kst 64)\<lparr>kmem := kmem st1\<rparr>"
    using outside_bitmap_blank(2) by (auto simp: blank_kst_facts)
  have nf: "nframes st1 = 64" "frames st1 = 0x1000" "managed_frames st1 = 64"
    by (subst st1(5), simp add: blank_kst_facts managed_frames_def)+
  have ob: "outside_bitmap st1 0x2004" "outside_bitmap st1 0x2000"
    using outside_bitmap_blank by (simp_all add: outside_bitmap_def nf blank_kst_facts)
  have z1: "page_frame_addr (load32 (kmem st1) 0x2004) = 0"
    by (simp add: st1(4) page_frame_addr_def)
  have least: "g < 1 \<Longrightarrow> frame_bit st1 g" for g using st1(3) by simp
  from alloc_frame_least [OF _ ob(1) z1, where f = 1 and k = False and w = False] st1(3) nf obtain st2 where st2:
    "alloc_frame 0x2004 False False st1 = (1, st2)"
    "load32 (kmem st2) 0x2004 = page_entry 1 False False 0"
    "\<forall>g<64. frame_bit st2 g = (g = 1 \<or> frame_bit st1 g)"
    "load32 (kmem st2) 0x2000 = load32 (kmem st1) 0x2000" "st2 = st1\<lparr>kmem := kmem st2\<rparr>"
    using ob st1(4) by auto
  have two: "two_pages = st2" by (simp add: two_pages_def st1(1) st2(1))
  show "nframes two_pages = 64" "frames two_pages = 0x1000" "managed_frames two_pages = 64"
    unfolding two by (subst st2(5), simp add: nf managed_frames_def)+
  show "g < 64 \<Longrightarrow> frame_bit two_pages g = (g < 2)"
    using st1(3) st2(3) two by auto
  have tb: "take_bit 20 1 = (1 :: u32)" by (simp add: take_bit_eq_mod)
  show "page_frame_addr (load32 (kmem two_pages) 0x2004) = of_nat 1"
    "page_frame_addr (load32 (kmem two_pages) 0x2000) = 0"
    using st2(2,4) st1(2) tb by (simp_all add: two page_frame_addr_entry)
qed

lemma outside_bitmap_two_pages: "outside_bitmap two_pages 0x2000" "outside_bitmap two_pages 0x2004"
  using outside_bitmap_blank by (simp_all add: outside_bitmap_def two_pages_facts blank_kst_facts)

lemma free_frame_clears_another_bit_witness:
  "frame_bit (free_frame 0x2004 two_pages) 1 \<and> \<not> frame_bit (free_frame 0x2004 two_pages) 0"
  using free_frame_clears_another_bit [OF outside_bitmap_two_pages(2) two_pages_facts(5)]
  by (simp add: two_pages_facts)

text \<open>
  C38. So a frame in use is handed out again: when all frames up to \<open>f div 4096\<close> are taken, giving
  back a page with frame \<open>f\<close> makes the next allocation return frame \<open>f div 4096\<close>, whoever
  owns it.
\<close>
theorem free_then_alloc_takes_frame_in_use:
  assumes "outside_bitmap st page" "page_frame_addr (load32 (kmem st) page) = of_nat f"
    and "0 < f" "f < managed_frames st" "unat (nframes st) \<le> 2 ^ 20"
    and "\<And>g. g \<le> f div 4096 \<Longrightarrow> frame_bit st g"
    and "outside_bitmap st page2" "page_frame_addr (load32 (kmem (free_frame page st)) page2) = 0"
  shows "fst (alloc_frame page2 k w (free_frame page st)) = of_nat (f div 4096) \<and>
    frame_bit st (f div 4096)"
proof -
  have f: "f < 2 ^ 20" "f div 4096 < managed_frames st"
    using assms(4,5) by (auto simp: managed_frames_def)
  note free = free_frame_effect [OF assms(1,2,3) f assms(5)]
  let ?st = "free_frame page st"
  have m: "managed_frames ?st = managed_frames st" "outside_bitmap ?st page2"
    using free assms(7) by (simp_all add: managed_frames_def outside_bitmap_def)
  have "frame_bit ?st g" if "g < f div 4096" for g
    using free assms(6) [of g] that f(2) by auto
  with alloc_frame_least [OF _ m(2) assms(8), of "f div 4096" k w] free f(2) m(1) assms(5,6)
  show ?thesis by auto
qed

lemma free_then_alloc_takes_frame_in_use_witness:
  "fst (alloc_frame 0x2000 False False (free_frame 0x2004 two_pages)) = 0 \<and> frame_bit two_pages 0"
proof -
  have "page_frame_addr (load32 (kmem (free_frame 0x2004 two_pages)) 0x2000) = 0"
    using free_frame_effect [OF outside_bitmap_two_pages(2) two_pages_facts(5)]
      outside_bitmap_two_pages(1) two_pages_facts
    by simp
  from free_then_alloc_takes_frame_in_use [OF outside_bitmap_two_pages(2) two_pages_facts(5)
      _ _ _ _ outside_bitmap_two_pages(1) this] show ?thesis
    by (simp add: two_pages_facts)
qed

end
