(* ===== verification/Heap.thy ===== *)
theory Heap
  imports Paging
begin

text \<open>
  The kernel heap, \<^verbatim>\<open>kernel/kheap.c\<close>, and the allocation calls of \<^verbatim>\<open>kernel/mm.c\<close> on top
  of it. Headers, footers and the index of holes are in the byte memory, at the offsets C gives
  the fields of \<^verbatim>\<open>header_t\<close> (12 bytes) and \<^verbatim>\<open>footer_t\<close> (8 bytes). Every call of the
  source passes the global \<^verbatim>\<open>kheap\<close> as the heap, so the routines work on that field of the
  state; a null \<^verbatim>\<open>kheap\<close> ends in a fault. An expansion may need a page table and then calls
  \<^verbatim>\<open>kmalloc_ap\<close>, which comes back to \<^verbatim>\<open>alloc\<close>: the two are mutually recursive, with
  fuel. This theory holds the definitions, \<open>Heap_Spec\<close> what is proved of them.
\<close>

section \<open>Headers and footers\<close>

abbreviation heap_magic :: u32 where
  "heap_magic \<equiv> 0x123890AB"

definition get_magic :: "mem \<Rightarrow> u32 \<Rightarrow> u32" where
  "get_magic m p = load32 m p"

definition get_is_hole :: "mem \<Rightarrow> u32 \<Rightarrow> u8" where
  "get_is_hole m p = m (p + 4)"

definition get_size :: "mem \<Rightarrow> u32 \<Rightarrow> u32" where
  "get_size m p = load32 m (p + 8)"

definition get_header :: "mem \<Rightarrow> u32 \<Rightarrow> u32" where
  "get_header m f = load32 m (f + 4)"

definition set_magic :: "u32 \<Rightarrow> mem \<Rightarrow> mem" where
  "set_magic p m = store32 m p heap_magic"

definition set_is_hole :: "u32 \<Rightarrow> u8 \<Rightarrow> mem \<Rightarrow> mem" where
  "set_is_hole p b m = m(p + 4 := b)"

definition set_size :: "u32 \<Rightarrow> u32 \<Rightarrow> mem \<Rightarrow> mem" where
  "set_size p n m = store32 m (p + 8) n"

definition set_header :: "u32 \<Rightarrow> u32 \<Rightarrow> mem \<Rightarrow> mem" where
  "set_header f p m = store32 m (f + 4) p"

definition header_t_less_than :: less_pred where
  "header_t_less_than m a b = (if get_size m a < get_size m b then 1 else 0)"

section \<open>The heap of the state\<close>

text \<open>Dereferencing \<^verbatim>\<open>kheap\<close>.\<close>

definition with_heap :: "kst \<Rightarrow> (heap \<Rightarrow> 'a res) \<Rightarrow> 'a res" where
  "with_heap st k = (case kheap st of None \<Rightarrow> Inl Out_of_bounds | Some h \<Rightarrow> k h)"

definition set_heap :: "heap \<Rightarrow> kst \<Rightarrow> kst" where
  "set_heap h st = st\<lparr>kheap := Some h\<rparr>"

definition on_mem :: "(mem \<Rightarrow> mem) \<Rightarrow> kst \<Rightarrow> kst" where
  "on_mem f st = st\<lparr>kmem := f (kmem st)\<rparr>"

text \<open>The index calls, on \<^verbatim>\<open>&heap->index\<close>.\<close>

definition index_insert :: "u32 \<Rightarrow> kst \<Rightarrow> kst res" where
  "index_insert item st = with_heap st (\<lambda>h.
     res_bind (insert_ordered_array item (index h) (kmem st)) (\<lambda>(a, m).
       Inr (set_heap (h\<lparr>index := a\<rparr>) (st\<lparr>kmem := m\<rparr>))))"

definition index_remove :: "u32 \<Rightarrow> kst \<Rightarrow> kst res" where
  "index_remove i st = with_heap st (\<lambda>h.
     let (a, m) = remove_ordered_array i (index h) (kmem st)
     in Inr (set_heap (h\<lparr>index := a\<rparr>) (st\<lparr>kmem := m\<rparr>)))"

definition assert_that :: "bool \<Rightarrow> string \<Rightarrow> unit res" where
  "assert_that b what = (if b then Inr () else Inl (Assert_failed what))"

section \<open>Growing and shrinking\<close>

fun expand_loop :: "nat \<Rightarrow> table_alloc \<Rightarrow> u32 \<Rightarrow> u32 \<Rightarrow> kst \<Rightarrow> kst res" where
  "expand_loop 0 kap new_size i st = Inl Out_of_fuel"
| "expand_loop (Suc fuel) kap new_size i st =
     (if i < new_size
      then with_heap st (\<lambda>h.
        res_bind (get_page kap (start_address h + i) (kernel_directory st) st) (\<lambda>(page, st).
        with_heap st (\<lambda>h.
          let (f, st) = alloc_frame page (supervisor h \<noteq> 0) (readonly h = 0) st
          in expand_loop fuel kap new_size (i + page_size) st)))
      else Inr st)"

text \<open>The loops over pages make at most \<open>2 ^ 20\<close> turns, the number of pages there are.\<close>

definition page_fuel :: nat where
  "page_fuel = 2 ^ 20 + 1"

definition expand :: "table_alloc \<Rightarrow> u32 \<Rightarrow> kst \<Rightarrow> kst res" where
  "expand kap new_size st =
     (let st = klog_kst ''expand, new size: %x\<newline>'' [ArgInt new_size] st
      in with_heap st (\<lambda>h.
        res_bind (assert_that (new_size > end_address h - start_address h)
            ''new_size > (heap->end_address - heap->start_address)'') (\<lambda>_.
        let new_size = (if new_size AND 0xFFFFF000 \<noteq> 0
                        then (new_size AND 0xFFFFF000) + page_size else new_size)
        in res_bind (assert_that (start_address h + new_size \<le> max_address h)
            ''(heap->start_address + new_size) <= heap->max_address'') (\<lambda>_.
        let old_size = end_address h - start_address h
        in res_bind (expand_loop page_fuel kap new_size old_size st) (\<lambda>st.
        with_heap st (\<lambda>h. Inr (set_heap (h\<lparr>end_address := start_address h + new_size\<rparr>) st)))))))"

fun contract_loop :: "nat \<Rightarrow> table_alloc \<Rightarrow> u32 \<Rightarrow> u32 \<Rightarrow> kst \<Rightarrow> kst res" where
  "contract_loop 0 kap new_size i st = Inl Out_of_fuel"
| "contract_loop (Suc fuel) kap new_size i st =
     (if new_size < i
      then with_heap st (\<lambda>h.
        res_bind (get_page kap (start_address h + i) (kernel_directory st) st) (\<lambda>(page, st).
          contract_loop fuel kap new_size (i - page_size) (free_frame page st)))
      else Inr st)"

definition contract :: "table_alloc \<Rightarrow> u32 \<Rightarrow> kst \<Rightarrow> (u32 \<times> kst) res" where
  "contract kap new_size st =
     (let st = klog_kst ''contract, new size: %x\<newline>'' [ArgInt new_size] st
      in with_heap st (\<lambda>h.
        res_bind (assert_that (new_size < end_address h - start_address h)
            ''new_size < (heap->end_address - heap->start_address)'') (\<lambda>_.
        let new_size = (if new_size AND page_size \<noteq> 0
                        then (new_size AND page_size) + page_size else new_size);
            new_size = (if new_size < 0x70000 then 0x70000 else new_size);
            old_size = end_address h - start_address h
        in res_bind (contract_loop page_fuel kap new_size (old_size - page_size) st) (\<lambda>st.
        with_heap st (\<lambda>h.
          Inr (new_size, set_heap (h\<lparr>end_address := start_address h + new_size\<rparr>) st))))))"

section \<open>Finding a hole\<close>

text \<open>Does the hole at \<open>header\<close> take \<open>size\<close> bytes? \<^verbatim>\<open>long\<close> has 32 bits.\<close>

definition hole_fits :: "u32 \<Rightarrow> u8 \<Rightarrow> mem \<Rightarrow> u32 \<Rightarrow> bool res" where
  "hole_fits n page_align m header =
     (if page_align > 0
      then
        let offset = (if (header + 12) AND 0xFFFFF000 \<noteq> 0
                      then uint (page_size - (header + 12) mod page_size) else 0);
            hole_size = sint (get_size m header) - offset
        in if c_int_ok hole_size then Inr (hole_size \<ge> sint n) else Inl Signed_overflow
      else Inr (get_size m header \<ge> n))"

function find_hole_from :: "u32 \<Rightarrow> u8 \<Rightarrow> ordered_array \<Rightarrow> mem \<Rightarrow> u32 \<Rightarrow> u32 res" where
  "find_hole_from n page_align a m iterator =
     (if iterator < oa_size a
      then res_bind (lookup_ordered_array iterator a m) (\<lambda>header.
        res_bind (hole_fits n page_align m header) (\<lambda>fits.
          if fits then Inr iterator else find_hole_from n page_align a m (iterator + 1)))
      else Inr 0xDEADBEEF)"
  by pat_completeness auto
termination
  by (relation "measure (\<lambda>(n, page_align, a, m, iterator). unat (oa_size a) - unat iterator)")
    (auto intro: word_less_Suc_measure)

declare find_hole_from.simps [simp del]

definition find_smallest_hole :: "u32 \<Rightarrow> u8 \<Rightarrow> kst \<Rightarrow> u32 res" where
  "find_smallest_hole n page_align st =
     with_heap st (\<lambda>h. find_hole_from n page_align (index h) (kmem st) 0)"

section \<open>Creating the heap\<close>

definition create_heap :: "(u32 \<Rightarrow> kst \<Rightarrow> (u32 \<times> kst) res) \<Rightarrow> u32 \<Rightarrow> u32 \<Rightarrow> u32 \<Rightarrow> u8 \<Rightarrow> u8 \<Rightarrow> kst \<Rightarrow>
    (heap \<times> kst) res" where
  "create_heap kma start_addr end_addr mx superv ro st =
     res_bind (kma 32 st) (\<lambda>(heap_ptr, st).
     let st = klog_kst ''k_m of heap_t* heap (size: %d): %x\<newline>'' [ArgInt 32, ArgInt heap_ptr] st
     in res_bind (assert_that (start_addr mod page_size = 0) ''start_addr % PAGE_SIZE == 0'') (\<lambda>_.
     res_bind (assert_that (end_addr mod page_size = 0) ''end_addr % PAGE_SIZE == 0'') (\<lambda>_.
     let (a, m) = place_ordered_array start_addr 0x20000 (Some header_t_less_than) (kmem st);
         st = klog_kst ''after Initialization of the heap->index: %x\<newline>'' [ArgInt heap_ptr] (st\<lparr>kmem := m\<rparr>);
         start_addr = start_addr + 4 * 0x20000;
         start_addr = (if start_addr AND 0xFFFFF000 \<noteq> 0
                       then (start_addr AND 0xFFFFF000) + page_size else start_addr);
         st = klog_kst ''HEAP start: %x end: %x max: %x kernel mode: %d read-only: %d\<newline>''
                [ArgInt start_addr, ArgInt end_addr, ArgInt mx, ArgInt (ucast superv), ArgInt (ucast ro)] st;
         hole = start_addr;
         st = on_mem (set_size hole (end_addr - start_addr)) st;
         st = on_mem (set_magic hole) st;
         st = on_mem (set_is_hole hole 1) st;
         st = klog_kst ''hole %x hole-size: %x\<newline>'' [ArgInt hole, ArgInt (get_size (kmem st) hole)] st
     in res_bind (insert_ordered_array hole a (kmem st)) (\<lambda>(a, m).
       Inr (\<lparr>index = a, start_address = start_addr, end_address = end_addr, max_address = mx,
             supervisor = superv, readonly = ro\<rparr>, st\<lparr>kmem := m\<rparr>)))))"

section \<open>alloc\<close>

text \<open>The search for the endmost header: its place in the index, -1 if there is none.\<close>

function endmost_from :: "ordered_array \<Rightarrow> mem \<Rightarrow> u32 \<Rightarrow> int \<Rightarrow> u32 \<Rightarrow> int res" where
  "endmost_from a m iterator idx val =
     (if iterator < oa_size a
      then res_bind (lookup_ordered_array iterator a m) (\<lambda>tmp.
        if tmp > val then endmost_from a m (iterator + 1) (sint iterator) tmp
        else endmost_from a m (iterator + 1) idx val)
      else Inr idx)"
  by pat_completeness auto
termination
  by (relation "measure (\<lambda>(a, m, iterator, idx, val). unat (oa_size a) - unat iterator)")
    (auto intro: word_less_Suc_measure)

declare endmost_from.simps [simp del]

text \<open>After \<^verbatim>\<open>expand\<close>: give the new space to the endmost hole, or make it a hole.\<close>

definition extend_endmost :: "u32 \<Rightarrow> u32 \<Rightarrow> kst \<Rightarrow> kst res" where
  "extend_endmost old_length old_end_address st =
     with_heap st (\<lambda>h.
       let new_length = end_address h - start_address h
       in res_bind (endmost_from (index h) (kmem st) 0 (- 1) 0) (\<lambda>idx.
         if idx = - 1
         then
           let header = old_end_address;
               st = on_mem (set_magic header) st;
               st = on_mem (set_size header (new_length - old_length)) st;
               st = on_mem (set_is_hole header 1) st;
               footer = old_end_address + get_size (kmem st) header - 8;
               st = on_mem (set_magic footer) st;
               st = on_mem (set_header footer header) st
           in index_insert header st
         else
           res_bind (lookup_ordered_array (of_int idx) (index h) (kmem st)) (\<lambda>header.
             let st = on_mem (set_size header (get_size (kmem st) header + (new_length - old_length))) st;
                 footer = header + get_size (kmem st) header - 8;
                 st = on_mem (set_header footer header) st;
                 st = on_mem (set_magic footer) st
             in Inr st)))"

text \<open>From the choice of the hole to the end.\<close>

definition alloc_in_hole :: "u32 \<Rightarrow> u32 \<Rightarrow> u32 \<Rightarrow> u8 \<Rightarrow> kst \<Rightarrow> (u32 \<times> kst) res" where
  "alloc_in_hole iterator n new_size page_align st =
     with_heap st (\<lambda>h.
     res_bind (lookup_ordered_array iterator (index h) (kmem st)) (\<lambda>orig_hole_header.
     let orig_hole_pos = orig_hole_header;
         orig_hole_size = get_size (kmem st) orig_hole_header;
         (n, new_size) = (if orig_hole_size - new_size < 12 + 8
                          then (n + (orig_hole_size - new_size), orig_hole_size) else (n, new_size))
     in res_bind
       (if page_align \<noteq> 0 \<and> orig_hole_pos AND 0xFFFFF000 \<noteq> 0
        then
          let new_location = orig_hole_pos + page_size - (orig_hole_pos AND 0xFFF) - 12;
              hole_header = orig_hole_pos;
              st = on_mem (set_size hole_header (page_size - (orig_hole_pos AND 0xFFF) - 12)) st;
              st = on_mem (set_magic hole_header) st;
              st = on_mem (set_is_hole hole_header 1) st;
              hole_footer = new_location - 8;
              st = on_mem (set_magic hole_footer) st;
              st = on_mem (set_header hole_footer hole_header) st
          in Inr (new_location, orig_hole_size - get_size (kmem st) hole_header, st)
        else res_bind (index_remove iterator st) (\<lambda>st. Inr (orig_hole_pos, orig_hole_size, st)))
       (\<lambda>(orig_hole_pos, orig_hole_size, st).
         let block_header = orig_hole_pos;
             st = on_mem (set_magic block_header) st;
             st = on_mem (set_is_hole block_header 0) st;
             st = on_mem (set_size block_header new_size) st;
             block_footer = orig_hole_pos + 12 + n;
             st = on_mem (set_magic block_footer) st;
             st = on_mem (set_header block_footer block_header) st
         in res_bind
           (if orig_hole_size - new_size > 0
            then
              let hole_header = orig_hole_pos + 12 + n + 8;
                  st = on_mem (set_magic hole_header) st;
                  st = on_mem (set_is_hole hole_header 1) st;
                  st = on_mem (set_size hole_header (orig_hole_size - new_size)) st;
                  hole_footer = hole_header + orig_hole_size - new_size - 8
              in with_heap st (\<lambda>h.
                let st = (if hole_footer < end_address h
                          then on_mem (set_header hole_footer hole_header) (on_mem (set_magic hole_footer) st)
                          else st)
                in index_insert hole_header st)
            else Inr st)
           (\<lambda>st. Inr (block_header + 12, st)))))"

fun alloc :: "nat \<Rightarrow> u32 \<Rightarrow> u8 \<Rightarrow> kst \<Rightarrow> (u32 \<times> kst) res"
  and kmalloc_int :: "nat \<Rightarrow> u32 \<Rightarrow> u8 \<Rightarrow> bool \<Rightarrow> kst \<Rightarrow> (u32 \<times> u32 \<times> kst) res" where
  "alloc 0 n page_align st = Inl Out_of_fuel"
| "alloc (Suc fuel) n page_align st =
     (let new_size = n + 12 + 8
      in res_bind (find_smallest_hole new_size page_align st) (\<lambda>iterator.
        if iterator = 0xDEADBEEF
        then with_heap st (\<lambda>h.
          let old_length = end_address h - start_address h;
              old_end_address = end_address h
          in res_bind (expand (\<lambda>sz st. kmalloc_int fuel sz 1 True st) (old_length + new_size) st) (\<lambda>st.
             res_bind (extend_endmost old_length old_end_address st) (\<lambda>st.
               alloc fuel n page_align st)))
        else alloc_in_hole iterator n new_size page_align st))"
| "kmalloc_int 0 n page_align phys st = Inl Out_of_fuel"
| "kmalloc_int (Suc fuel) n page_align phys st =
     (case kheap st of
        Some _ \<Rightarrow>
          res_bind (alloc fuel n page_align st) (\<lambda>(addr, st).
          res_bind
            (if phys
             then res_bind (get_page (\<lambda>sz st. kmalloc_int fuel sz 1 True st) addr (kernel_directory st) st)
               (\<lambda>(page, st).
                 Inr (page_frame_addr (load32 (kmem st) page) * page_size + (addr AND 0xFFF), st))
             else Inr (0, st))
            (\<lambda>(ph, st). Inr (addr, ph, klog_kst ''kmalloc heap: %X\<newline>'' [ArgInt addr] st)))
      | None \<Rightarrow> Inr (placement_alloc n page_align st))"

definition kmalloc_a :: "nat \<Rightarrow> u32 \<Rightarrow> kst \<Rightarrow> (u32 \<times> kst) res" where
  "kmalloc_a fuel n st = res_bind (kmalloc_int fuel n 1 False st) (\<lambda>(a, ph, st). Inr (a, st))"

definition kmalloc_p :: "nat \<Rightarrow> u32 \<Rightarrow> kst \<Rightarrow> (u32 \<times> u32 \<times> kst) res" where
  "kmalloc_p fuel n st = kmalloc_int fuel n 0 True st"

definition kmalloc_ap :: "nat \<Rightarrow> table_alloc" where
  "kmalloc_ap fuel n st = kmalloc_int fuel n 1 True st"

definition kmalloc :: "nat \<Rightarrow> u32 \<Rightarrow> kst \<Rightarrow> (u32 \<times> kst) res" where
  "kmalloc fuel n st = res_bind (kmalloc_int fuel n 0 False st) (\<lambda>(a, ph, st). Inr (a, st))"

section \<open>free\<close>

text \<open>The place of \<open>header\<close> in the index, its size if it is not there.\<close>

function find_header_from :: "ordered_array \<Rightarrow> mem \<Rightarrow> u32 \<Rightarrow> u32 \<Rightarrow> u32 res" where
  "find_header_from a m header iterator =
     (if iterator < oa_size a
      then res_bind (lookup_ordered_array iterator a m) (\<lambda>x.
        if x \<noteq> header then find_header_from a m header (iterator + 1) else Inr iterator)
      else Inr iterator)"
  by pat_completeness auto
termination
  by (relation "measure (\<lambda>(a, m, header, iterator). unat (oa_size a) - unat iterator)")
    (auto intro: word_less_Suc_measure)

declare find_header_from.simps [simp del]

text \<open>Merge with a hole on the left: the new header and whether it has to enter the index.\<close>

definition unify_left :: "u32 \<Rightarrow> u32 \<Rightarrow> kst \<Rightarrow> u32 \<times> bool \<times> kst" where
  "unify_left header footer st =
     (let test_footer = header - 8
      in if get_magic (kmem st) test_footer = heap_magic \<and>
            get_is_hole (kmem st) (get_header (kmem st) test_footer) = 1
         then
           let cache_size = get_size (kmem st) header;
               header = get_header (kmem st) test_footer;
               st = on_mem (set_header footer header) st;
               st = on_mem (set_size header (get_size (kmem st) header + cache_size)) st
           in (header, False, st)
         else (header, True, st))"

definition unify_right :: "u32 \<Rightarrow> u32 \<Rightarrow> kst \<Rightarrow> (u32 \<times> kst) res" where
  "unify_right header footer st =
     (let test_header = footer + 8
      in if get_magic (kmem st) test_header = heap_magic \<and> get_is_hole (kmem st) test_header \<noteq> 0
         then
           let st = on_mem (set_size header (get_size (kmem st) header + get_size (kmem st) test_header)) st;
               footer = test_header + get_size (kmem st) test_header - 8
           in with_heap st (\<lambda>h.
             res_bind (find_header_from (index h) (kmem st) test_header 0) (\<lambda>iterator.
             res_bind (assert_that (iterator < oa_size (index h)) ''iterator < heap->index.size'') (\<lambda>_.
             res_bind (index_remove iterator st) (\<lambda>st. Inr (footer, st)))))
         else Inr (footer, st))"

text \<open>\<open>test_header\<close> is what \<^verbatim>\<open>free\<close> still compares with when the block vanishes.\<close>

definition contract_end :: "table_alloc \<Rightarrow> u32 \<Rightarrow> u32 \<Rightarrow> u32 \<Rightarrow> kst \<Rightarrow> kst res" where
  "contract_end kap header footer test_header st =
     with_heap st (\<lambda>h.
       if footer + 8 = end_address h
       then
         let old_length = end_address h - start_address h
         in res_bind (contract kap (header - start_address h) st) (\<lambda>(new_length, st).
           if get_size (kmem st) header - (old_length - new_length) > 0
           then
             let st = on_mem (set_size header (get_size (kmem st) header - (old_length - new_length))) st;
                 footer = header + get_size (kmem st) header - 8;
                 st = on_mem (set_magic footer) st;
                 st = on_mem (set_header footer header) st
             in Inr st
           else with_heap st (\<lambda>h.
             res_bind (find_header_from (index h) (kmem st) test_header 0) (\<lambda>iterator.
               if iterator < oa_size (index h) then index_remove iterator st else Inr st)))
       else Inr st)"

definition free :: "table_alloc \<Rightarrow> u32 \<Rightarrow> kst \<Rightarrow> kst res" where
  "free kap p st =
     (if p = 0 then Inr st
      else
        let header = p - 12;
            footer = header + get_size (kmem st) header - 8
        in res_bind (assert_that (get_magic (kmem st) header = heap_magic) ''header->magic == HEAP_MAGIC'') (\<lambda>_.
           res_bind (assert_that (get_magic (kmem st) footer = heap_magic) ''footer->magic == HEAP_MAGIC'') (\<lambda>_.
           let st = on_mem (set_is_hole header 1) st;
               (header, do_add, st) = unify_left header footer st;
               test_header = footer + 8
           in res_bind (unify_right header footer st) (\<lambda>(footer, st).
              res_bind (contract_end kap header footer test_header st) (\<lambda>st.
                if do_add then index_insert header st else Inr st)))))"

definition kfree :: "table_alloc \<Rightarrow> u32 \<Rightarrow> kst \<Rightarrow> kst res" where
  "kfree kap p st = free kap p st"

section \<open>heap_install\<close>

fun install_low :: "nat \<Rightarrow> table_alloc \<Rightarrow> u32 \<Rightarrow> kst \<Rightarrow> kst res" where
  "install_low 0 kap i st = Inl Out_of_fuel"
| "install_low (Suc fuel) kap i st =
     (if i < placement_address st + 0x10000
      then res_bind (set_page kap i (kernel_directory st) st) (\<lambda>(page, st).
        let (num, st) = alloc_frame page False False st;
            st = klog_kst ''alloc_frame: %x\<newline>'' [ArgInt (num * page_size)] st
        in install_low fuel kap (i + page_size) st)
      else Inr st)"

fun install_range :: "nat \<Rightarrow> table_alloc \<Rightarrow> u32 \<Rightarrow> u32 \<Rightarrow> kst \<Rightarrow> kst res" where
  "install_range 0 kap mx i st = Inl Out_of_fuel"
| "install_range (Suc fuel) kap mx i st =
     (if i < mx
      then res_bind (set_page kap i (kernel_directory st) st) (\<lambda>(page, st).
        let (num, st) = alloc_frame page False False st
        in install_range fuel kap mx (i + page_size) st)
      else Inr st)"

definition heap_install :: "nat \<Rightarrow> kst \<Rightarrow> kst res" where
  "heap_install fuel st =
     res_bind (install_low page_fuel (kmalloc_ap fuel) (placement_address st) st) (\<lambda>st.
     res_bind (install_range page_fuel (kmalloc_ap fuel) 0x01FFF000 0x01000000 st) (\<lambda>st.
     res_bind (create_heap (kmalloc_a fuel) 0x01000000 0x01100000 0x01FFF000 0 0 st) (\<lambda>(h, st).
       Inr (set_heap h st))))"

section \<open>Ordered arrays on the heap\<close>

definition create_ordered_array ::
    "nat \<Rightarrow> u32 \<Rightarrow> less_pred option \<Rightarrow> kst \<Rightarrow> (ordered_array \<times> kst) res" where
  "create_ordered_array fuel n lt st =
     res_bind (kmalloc_int fuel (n * 4) 0 False st) (\<lambda>(a, ph, st).
       Inr (\<lparr>array = a, oa_size = 0, max_size = n, less_than = lt\<rparr>, on_mem (\<lambda>m. memset m a 0 (n * 4)) st))"

definition destroy_ordered_array :: "table_alloc \<Rightarrow> ordered_array \<Rightarrow> kst \<Rightarrow> kst res" where
  "destroy_ordered_array kap a st = kfree kap (array a) st"

end
