(* ===== verification/Heap_Spec.thy ===== *)
theory Heap_Spec
  imports Heap
begin

text \<open>
  What the heap of \<open>Heap\<close> promises. The heap region is tiled by blocks, each with a header and
  a footer, and the index lists exactly the blocks that are holes: \<open>heap_inv\<close>. An allocation
  that finds a hole keeps this, changes no byte of any other block, and returns an address inside
  what was a hole; freeing a block keeps it unless the block on the right is a hole, in
  which case the footer of the merged hole points to a header that is no longer one.
\<close>

section \<open>Memory between two addresses\<close>

definition same_on :: "nat \<Rightarrow> nat \<Rightarrow> mem \<Rightarrow> mem \<Rightarrow> bool" where
  "same_on lo hi m m' \<longleftrightarrow> (\<forall>a. lo \<le> unat a \<and> unat a < hi \<longrightarrow> m' a = m a)"

lemma same_on_refl [simp]: "same_on lo hi m m"
  by (simp add: same_on_def)

lemma same_on_trans [trans]: "same_on lo hi m m' \<Longrightarrow> same_on lo hi m' m'' \<Longrightarrow> same_on lo hi m m''"
  by (simp add: same_on_def)

lemma same_on_sub: "same_on lo hi m m' \<Longrightarrow> lo \<le> lo' \<Longrightarrow> hi' \<le> hi \<Longrightarrow> same_on lo' hi' m m'"
  by (auto simp: same_on_def)

lemma same_on_sym: "same_on lo hi m m' \<Longrightarrow> same_on lo hi m' m"
  by (simp add: same_on_def)

lemma same_on_top: "same_on a (2 ^ 32) m m' \<Longrightarrow> a \<le> lo \<Longrightarrow> same_on lo hi m m'"
  using unat_less_pow [where 'a = 32] by (auto simp: same_on_def)

lemma same_on_byte: "same_on lo hi m m' \<Longrightarrow> lo \<le> a \<Longrightarrow> a < hi \<Longrightarrow> hi \<le> 2 ^ 32 \<Longrightarrow>
    m' (of_nat a) = m (of_nat a)"
  by (auto simp: same_on_def unat_of_nat_small)

lemma same_on_load:
  assumes "same_on lo hi m m'" "lo \<le> a" "a + 4 \<le> hi" "hi \<le> 2 ^ 32"
  shows "load32 m' (of_nat a) = load32 m (of_nat a)"
proof (rule load32_cong)
  fix k :: u32 assume k: "unat k < 4"
  have "of_nat a + k = of_nat (a + unat k)" by simp
  then show "m' (of_nat a + k) = m (of_nat a + k)"
    using same_on_byte [OF assms(1), of "a + unat k"] assms k by simp
qed

lemma same_on_outside:
  assumes "unchanged_outside base n m m'" "unat base + n \<le> lo \<or> hi \<le> unat base"
    "unat base + n \<le> 2 ^ 32"
  shows "same_on lo hi m m'"
  unfolding same_on_def
proof (intro allI impI unchanged_outsideD [OF assms(1)] notI)
  fix a assume "lo \<le> unat a \<and> unat a < hi" "in_range base n a"
  then obtain k where "k < n" "a = base + of_nat k" "lo \<le> unat a" "unat a < hi"
    using in_range_iff_offset [of n base a] assms(3) by auto
  moreover from this have "unat a = unat base + k"
    using assms(3) by (simp add: unat_word_ariths unat_of_nat)
  ultimately show False using assms(2) by linarith
qed

lemma same_on_store32:
  assumes "a + 4 \<le> lo \<or> hi \<le> a" "a + 4 \<le> 2 ^ 32"
  shows "same_on lo hi m (store32 m (of_nat a) v)"
proof (rule same_on_outside)
  show "unchanged_outside (of_nat a) 4 m (store32 m (of_nat a) v)"
    by (simp add: unchanged_outside_def store32_other)
qed (use assms in \<open>simp_all add: unat_of_nat_small\<close>)

lemma same_on_upd:
  "a < lo \<or> hi \<le> a \<Longrightarrow> a < 2 ^ 32 \<Longrightarrow> same_on lo hi m (m(of_nat a := b))"
  by (auto simp: same_on_def unat_of_nat_small)

lemma load32_store32_nat:
  assumes "a + 4 \<le> b \<or> b + 4 \<le> a" "a + 4 \<le> 2 ^ 32" "b + 4 \<le> 2 ^ 32"
  shows "load32 (store32 m (of_nat a) v) (of_nat b) = load32 m (of_nat b)"
  by (rule same_on_load [OF same_on_store32, of a b "b + 4"]) (use assms in auto)

section \<open>Blocks\<close>

text \<open>A header of a block of \<open>n\<close> bytes at \<open>a\<close>, and a footer at \<open>f\<close> that points to \<open>a\<close>.\<close>

definition hdr :: "mem \<Rightarrow> nat \<Rightarrow> bool \<Rightarrow> nat \<Rightarrow> bool" where
  "hdr m a h n \<longleftrightarrow> get_magic m (of_nat a) = heap_magic \<and>
     get_is_hole m (of_nat a) = (if h then 1 else 0) \<and> get_size m (of_nat a) = of_nat n"

definition ftr :: "mem \<Rightarrow> nat \<Rightarrow> nat \<Rightarrow> bool" where
  "ftr m f a \<longleftrightarrow> get_magic m (of_nat f) = heap_magic \<and> get_header m (of_nat f) = of_nat a"

lemma hdr_cong:
  "same_on a (a + 12) m m' \<Longrightarrow> a + 12 \<le> 2 ^ 32 \<Longrightarrow> hdr m a h n \<Longrightarrow> hdr m' a h n"
  using same_on_load [of a "a + 12" m m' a] same_on_load [of a "a + 12" m m' "a + 8"]
    same_on_byte [of a "a + 12" m m' "a + 4"]
  by (simp add: hdr_def get_magic_def get_is_hole_def get_size_def add.commute)

lemma ftr_cong:
  "same_on f (f + 8) m m' \<Longrightarrow> f + 8 \<le> 2 ^ 32 \<Longrightarrow> ftr m f a \<Longrightarrow> ftr m' f a"
  using same_on_load [of f "f + 8" m m' f] same_on_load [of f "f + 8" m m' "f + 4"]
  by (simp add: ftr_def get_magic_def get_header_def add.commute)

text \<open>Writing a whole block, in the order the code does.\<close>

definition write_block :: "u32 \<Rightarrow> u8 \<Rightarrow> u32 \<Rightarrow> u32 \<Rightarrow> mem \<Rightarrow> mem" where
  "write_block p b n f m =
     set_header f p (set_magic f (set_size p n (set_is_hole p b (set_magic p m))))"

lemma write_block_ok:
  assumes "20 \<le> n" "p + n \<le> 2 ^ 32" "m' = write_block (of_nat p) (if h then 1 else 0) (of_nat n) (of_nat (p + n - 8)) m"
  shows "hdr m' p h n" "ftr m' (p + n - 8) p"
    and "hi \<le> p \<or> p + n \<le> lo \<Longrightarrow> same_on lo hi m m'"
proof -
  define f where "f = p + n - 8"
  have f: "p + 12 \<le> f" "f + 8 = p + n" "f + 8 \<le> 2 ^ 32" using assms(1,2) by (simp_all add: f_def)
  define m1 where "m1 = store32 m (of_nat p) heap_magic"
  define m2 where "m2 = m1(of_nat (p + 4) := (if h then 1 else 0))"
  define m3 where "m3 = store32 m2 (of_nat (p + 8)) (of_nat n)"
  define m4 where "m4 = store32 m3 (of_nat f) heap_magic"
  have m': "m' = store32 m4 (of_nat (f + 4)) (of_nat p)"
    using assms(3) by (simp add: write_block_def set_header_def set_magic_def set_size_def set_is_hole_def
        m4_def m3_def m2_def m1_def f_def add.commute)
  have s1: "hi \<le> p \<or> p + 4 \<le> lo \<Longrightarrow> same_on lo hi m m1" for lo hi
    unfolding m1_def by (rule same_on_store32) (use f in auto)
  have s2: "hi \<le> p + 4 \<or> p + 5 \<le> lo \<Longrightarrow> same_on lo hi m1 m2" for lo hi
    unfolding m2_def by (rule same_on_upd) (use f in auto)
  have s3: "hi \<le> p + 8 \<or> p + 12 \<le> lo \<Longrightarrow> same_on lo hi m2 m3" for lo hi
    unfolding m3_def by (rule same_on_store32) (use f in auto)
  have s4: "hi \<le> f \<or> f + 4 \<le> lo \<Longrightarrow> same_on lo hi m3 m4" for lo hi
    unfolding m4_def by (rule same_on_store32) (use f in auto)
  have s5: "hi \<le> f + 4 \<or> f + 8 \<le> lo \<Longrightarrow> same_on lo hi m4 m'" for lo hi
    unfolding m' by (rule same_on_store32) (use f in auto)
  have "load32 m' (of_nat p) = load32 m1 (of_nat p)"
    by (rule same_on_load [of p "p + 4"])
      (use f in \<open>auto intro!: same_on_trans [OF s2 same_on_trans [OF s3 same_on_trans [OF s4 s5]]]\<close>)
  moreover have "m' (of_nat (p + 4)) = m2 (of_nat (p + 4))"
    by (rule same_on_byte [of "p + 4" "p + 5"])
      (use f in \<open>auto intro!: same_on_trans [OF s3 same_on_trans [OF s4 s5]]\<close>)
  moreover have "load32 m' (of_nat (p + 8)) = load32 m3 (of_nat (p + 8))"
    by (rule same_on_load [of "p + 8" "p + 12"])
      (use f in \<open>auto intro!: same_on_trans [OF s4 s5]\<close>)
  ultimately show "hdr m' p h n"
    by (simp add: hdr_def get_magic_def get_is_hole_def get_size_def m1_def m2_def m3_def add.commute)
  have "load32 m' (of_nat f) = load32 m4 (of_nat f)"
    by (rule same_on_load [of f "f + 4"]) (use f in \<open>auto intro!: s5\<close>)
  moreover have "load32 m' (of_nat (f + 4)) = of_nat p" unfolding m' by simp
  ultimately show "ftr m' (p + n - 8) p"
    unfolding f_def [symmetric] by (simp add: ftr_def get_magic_def get_header_def m4_def add.commute)
  show "same_on lo hi m m'" if "hi \<le> p \<or> p + n \<le> lo"
    using that f
    by (auto intro!: same_on_trans [OF s1 same_on_trans [OF s2 same_on_trans [OF s3 same_on_trans [OF s4 s5]]]])
qed

section \<open>A heap tiled by blocks\<close>

fun layout :: "nat \<Rightarrow> (bool \<times> nat) list \<Rightarrow> (nat \<times> bool \<times> nat) list" where
  "layout a [] = []"
| "layout a ((h, n) # bs) = (a, h, n) # layout (a + n) bs"

definition room :: "(bool \<times> nat) list \<Rightarrow> nat" where
  "room bs = sum_list (map snd bs)"

lemma room_simps [simp]: "room [] = 0" "room (b # bs) = snd b + room bs" "room (xs @ ys) = room xs + room ys"
  by (simp_all add: room_def)

lemma layout_append: "layout a (xs @ ys) = layout a xs @ layout (a + room xs) ys"
  by (induction a xs rule: layout.induct) (simp_all add: add.assoc)

text \<open>
  A block is whole when its header says what it is and its footer points back to it; a hole that
  ends the heap may lack its footer, as the first one does.
\<close>

definition block_ok :: "mem \<Rightarrow> nat \<Rightarrow> nat \<times> bool \<times> nat \<Rightarrow> bool" where
  "block_ok m e b = (case b of (a, h, n) \<Rightarrow>
     20 \<le> n \<and> hdr m a h n \<and> (ftr m (a + n - 8) a \<or> h \<and> a + n = e))"

definition tiles :: "mem \<Rightarrow> nat \<Rightarrow> (bool \<times> nat) list \<Rightarrow> nat \<Rightarrow> bool" where
  "tiles m a bs e \<longleftrightarrow> a + room bs = e \<and> (\<forall>b \<in> set (layout a bs). block_ok m e b)"

definition holes :: "nat \<Rightarrow> (bool \<times> nat) list \<Rightarrow> nat list" where
  "holes a bs = map fst (filter (fst \<circ> snd) (layout a bs))"

lemma holes_simps [simp]: "holes a [] = []"
  "holes a ((h, n) # bs) = (if h then a # holes (a + n) bs else holes (a + n) bs)"
  "holes a (xs @ ys) = holes a xs @ holes (a + room xs) ys"
  by (simp_all add: holes_def layout_append)

lemma layout_in: "(a', h, n) \<in> set (layout a bs) \<Longrightarrow> a \<le> a' \<and> a' + n \<le> a + room bs"
  by (induction a bs rule: layout.induct) auto

lemma holes_split:
  "p \<in> set (holes a bs) \<Longrightarrow> \<exists>pre n post. bs = pre @ (True, n) # post \<and> p = a + room pre"
proof (induction bs arbitrary: a)
  case (Cons b bs)
  obtain h n where b: "b = (h, n)" by (cases b)
  show ?case
  proof (cases "h \<and> p = a")
    case True
    then have "b # bs = [] @ (True, n) # bs \<and> p = a + room []" by (simp add: b)
    then show ?thesis by blast
  next
    case False
    then have "p \<in> set (holes (a + n) bs)" using Cons.prems by (auto simp: b split: if_splits)
    from Cons.IH [OF this] obtain pre k post where
      "bs = pre @ (True, k) # post" "p = a + n + room pre" by blast
    then have "b # bs = (b # pre) @ (True, k) # post \<and> p = a + room (b # pre)" by (simp add: b)
    then show ?thesis by blast
  qed
qed simp

lemma tiles_block:
  assumes "tiles m a (pre @ (h, n) # post) e"
  shows "block_ok m e (a + room pre, h, n)" "20 \<le> n" "a + room pre + n \<le> e" "hdr m (a + room pre) h n"
  using assms by (auto simp: tiles_def layout_append block_ok_def)

text \<open>A tiling survives a change inside one stretch of blocks if the new blocks there are whole.\<close>

lemma block_ok_cong:
  assumes "block_ok m e (a, h, n)" "same_on a (a + n) m m'" "a + n \<le> 2 ^ 32"
  shows "block_ok m' e (a, h, n)"
proof -
  have n: "20 \<le> n" using assms(1) by (simp add: block_ok_def)
  have "hdr m a h n \<Longrightarrow> hdr m' a h n"
    by (rule hdr_cong) (use n assms(2,3) in \<open>auto intro: same_on_sub\<close>)
  moreover have "ftr m (a + n - 8) a \<Longrightarrow> ftr m' (a + n - 8) a"
    by (rule ftr_cong) (use n assms(2,3) in \<open>auto intro: same_on_sub\<close>)
  ultimately show ?thesis using assms(1) by (auto simp: block_ok_def)
qed

lemma tiles_replace:
  assumes "tiles m a (pre @ old @ post) e" "e \<le> 2 ^ 32"
    and "same_on a (a + room pre) m m'" "same_on (a + room pre + room old) e m m'"
    and "room new = room old" "\<And>b. b \<in> set (layout (a + room pre) new) \<Longrightarrow> block_ok m' e b"
  shows "tiles m' a (pre @ new @ post) e"
proof -
  have e: "e = a + room pre + room old + room post" using assms(1) by (simp add: tiles_def)
  have ok: "block_ok m e b" if "b \<in> set (layout a pre) \<or> b \<in> set (layout (a + room pre + room old) post)" for b
    using assms(1) that by (auto simp: tiles_def layout_append)
  have "block_ok m' e b" if b: "b \<in> set (layout a pre) \<or> b \<in> set (layout (a + room pre + room old) post)" for b
  proof -
    obtain x h n where x: "b = (x, h, n)" by (cases b) auto
    from b have "a \<le> x \<and> x + n \<le> a + room pre \<or> a + room pre + room old \<le> x \<and> x + n \<le> e"
      unfolding x e by (auto dest: layout_in)
    then have "same_on x (x + n) m m'" "x + n \<le> 2 ^ 32"
      using assms(2,3,4) e by (auto intro: same_on_sub)
    then show ?thesis using block_ok_cong ok [OF b] x by blast
  qed
  then show ?thesis
    using assms(5,6) e by (auto simp: tiles_def layout_append)
qed

section \<open>The invariant\<close>

definition heap_inv :: "kst \<Rightarrow> (bool \<times> nat) list \<Rightarrow> bool" where
  "heap_inv st bs \<longleftrightarrow> (case kheap st of None \<Rightarrow> False | Some h \<Rightarrow>
     oa_wf (index h) \<and> less_than (index h) = Some header_t_less_than \<and>
     oa_size (index h) \<le> max_size (index h) \<and> unat (max_size (index h)) \<le> 2 ^ 20 \<and>
     unat (array (index h)) + 4 * unat (max_size (index h)) \<le> unat (start_address h) \<and>
     tiles (kmem st) (unat (start_address h)) bs (unat (end_address h)) \<and>
     mset (oa_list (index h) (kmem st)) = image_mset of_nat (mset (holes (unat (start_address h)) bs)))"

lemma heap_invE:
  assumes "heap_inv st bs"
  obtains h where "kheap st = Some h" "oa_wf (index h)" "less_than (index h) = Some header_t_less_than"
    "unat (oa_size (index h)) \<le> unat (max_size (index h))" "unat (max_size (index h)) \<le> 2 ^ 20"
    "unat (array (index h)) + 4 * unat (max_size (index h)) \<le> unat (start_address h)"
    "tiles (kmem st) (unat (start_address h)) bs (unat (end_address h))"
    "mset (oa_list (index h) (kmem st)) = image_mset of_nat (mset (holes (unat (start_address h)) bs))"
  using assms by (auto simp: heap_inv_def word_le_nat_alt split: option.splits)

lemma heap_inv_klog: "heap_inv (klog_kst f as st) bs = heap_inv st bs"
  by (simp add: heap_inv_def split: option.split)

text \<open>The first element of the index that is large enough, for an allocation without alignment.\<close>

lemma find_hole_from_spec:
  "oa_wf a \<Longrightarrow> iterator \<le> oa_size a \<Longrightarrow>
    \<exists>i. find_hole_from n 0 a m iterator = Inr i \<and>
      (if \<exists>x \<in> set (drop (unat iterator) (oa_list a m)). n \<le> get_size m x
       then iterator \<le> i \<and> i < oa_size a \<and> n \<le> get_size m (oa_list a m ! unat i)
       else i = 0xDEADBEEF)"
proof (induction n "0 :: u8" a m iterator rule: find_hole_from.induct)
  case (1 n a m it)
  show ?case
  proof (cases "it < oa_size a")
    case False
    then show ?thesis
      by (simp add: find_hole_from.simps [of n 0 a m it] word_less_nat_alt)
  next
    case True
    then have lt: "unat it < unat (oa_size a)" by (simp add: word_less_nat_alt)
    have x: "load32 m (slot a it) = oa_list a m ! unat it"
      using lt by (simp add: oa_list_def slot_def)
    have d: "drop (unat it) (oa_list a m) = oa_list a m ! unat it # drop (Suc (unat it)) (oa_list a m)"
      using lt by (intro Cons_nth_drop_Suc [symmetric]) simp
    have u: "unat (it + 1) = Suc (unat it)" by (rule unat_Suc_less [OF True])
    then have le: "it + 1 \<le> oa_size a" using lt by (simp add: word_le_nat_alt)
    show ?thesis
    proof (cases "n \<le> get_size m (oa_list a m ! unat it)")
      case here: True
      then show ?thesis
        using True by (simp add: find_hole_from.simps [of n 0 a m it] lookup_ordered_array_def x hole_fits_def d)
    next
      case False
      have look: "lookup_ordered_array it a m = Inr (oa_list a m ! unat it)"
        using True by (simp add: lookup_ordered_array_def x)
      have fit: "hole_fits n 0 m (oa_list a m ! unat it) = Inr False"
        using False by (simp add: hole_fits_def)
      from 1(1) [OF True look fit] 1(2) le obtain i where i: "find_hole_from n 0 a m (it + 1) = Inr i"
        "if \<exists>x \<in> set (drop (Suc (unat it)) (oa_list a m)). n \<le> get_size m x
         then it + 1 \<le> i \<and> i < oa_size a \<and> n \<le> get_size m (oa_list a m ! unat i) else i = 0xDEADBEEF"
        unfolding u by auto
      have "it + 1 \<le> i \<Longrightarrow> it \<le> i" using u by (simp add: word_le_nat_alt)
      then show ?thesis
        using True i False by (auto simp: find_hole_from.simps [of n 0 a m it] look fit d)
    qed
  qed
qed

lemma words_at_same_on:
  assumes "same_on lo hi m m'" "lo \<le> unat base" "unat base + 4 * n \<le> hi" "hi \<le> 2 ^ 32"
  shows "words_at m' base n = words_at m base n"
proof (intro nth_equalityI; simp)
  fix i assume "i < n"
  have "base + 4 * of_nat i = of_nat (unat base + 4 * i)" by simp
  then show "load32 m' (base + 4 * of_nat i) = load32 m (base + 4 * of_nat i)"
    using same_on_load [OF assms(1), of "unat base + 4 * i"] assms \<open>i < n\<close> by simp
qed

lemma oa_list_same_on:
  assumes "same_on lo hi m m'" "lo \<le> unat (array a)" "unat (array a) + 4 * unat (oa_size a) \<le> hi" "hi \<le> 2 ^ 32"
  shows "oa_list a m' = oa_list a m"
  unfolding oa_list_def by (rule words_at_same_on [OF assms])

text \<open>Removing and inserting an index entry, with what else they leave alone.\<close>

lemma index_remove_spec:
  assumes "kheap st = Some h" "oa_wf (index h)" "i < oa_size (index h)"
    and "unat (array (index h)) + 4 * unat (oa_size (index h)) \<le> lo" "lo \<le> 2 ^ 32"
  shows "\<exists>m' a'. index_remove i st = Inr (set_heap (h\<lparr>index := a'\<rparr>) (st\<lparr>kmem := m'\<rparr>)) \<and>
    a' = (index h)\<lparr>oa_size := oa_size (index h) - 1\<rparr> \<and> oa_wf a' \<and>
    Suc (unat (oa_size a')) = unat (oa_size (index h)) \<and>
    mset (oa_list a' m') = mset (oa_list (index h) (kmem st)) - {#oa_list (index h) (kmem st) ! unat i#} \<and>
    same_on lo (2 ^ 32) (kmem st) m'"
proof -
  let ?a = "index h" and ?m = "kmem st"
  from remove_ordered_array_list [OF assms(2,3), of ?m] obtain m' where m':
    "remove_ordered_array i ?a ?m = (?a\<lparr>oa_size := oa_size ?a - 1\<rparr>, m')"
    "unchanged_outside (array ?a) (4 * unat (oa_size ?a)) ?m m'" by blast
  have u: "unat i < unat (oa_size ?a)" using assms(3) by (simp add: word_less_nat_alt)
  have "mset (oa_list (?a\<lparr>oa_size := oa_size ?a - 1\<rparr>) m') = mset (oa_list ?a ?m) - {#oa_list ?a ?m ! unat i#}"
    using oa.rem_mset [of "(?a, ?m)" "unat i"] assms(2) u m'(1) by simp
  moreover have "unat (oa_size ?a - 1) = unat (oa_size ?a) - 1"
    using u by (intro unat_pred) auto
  moreover have "same_on lo (2 ^ 32) ?m m'"
    using assms(4,5) by (intro same_on_outside [OF m'(2)]) auto
  moreover have "oa_wf (?a\<lparr>oa_size := oa_size ?a - 1\<rparr>)"
    using assms(2) \<open>unat (oa_size ?a - 1) = unat (oa_size ?a) - 1\<close> by (auto simp: oa_wf_def)
  ultimately show ?thesis
    using m'(1) assms(1) u by (intro exI [of _ m']) (simp add: index_remove_def with_heap_def)
qed

lemma index_insert_spec:
  assumes "kheap st = Some h" "oa_wf (index h)" "unat (oa_size (index h)) < 2 ^ 20"
    and "unat (array (index h)) + 4 * Suc (unat (oa_size (index h))) \<le> lo" "lo \<le> 2 ^ 32"
  shows "\<exists>m' a'. index_insert x st = Inr (set_heap (h\<lparr>index := a'\<rparr>) (st\<lparr>kmem := m'\<rparr>)) \<and>
    a' = (index h)\<lparr>oa_size := oa_size (index h) + 1\<rparr> \<and> oa_wf a' \<and>
    unat (oa_size a') = Suc (unat (oa_size (index h))) \<and>
    mset (oa_list a' m') = add_mset x (mset (oa_list (index h) (kmem st))) \<and>
    same_on lo (2 ^ 32) (kmem st) m'"
proof -
  let ?a = "index h" and ?m = "kmem st"
  from insert_ordered_array_list [OF assms(2), of x ?m] obtain m' where m':
    "insert_ordered_array x ?a ?m = Inr (?a\<lparr>oa_size := oa_size ?a + 1\<rparr>, m')"
    "unchanged_outside (array ?a) (4 * Suc (unat (oa_size ?a))) ?m m'" by blast
  have "mset (oa_list (?a\<lparr>oa_size := oa_size ?a + 1\<rparr>) m') = add_mset x (mset (oa_list ?a ?m))"
    using oa.ins_mset [of "(?a, ?m)" x "(?a\<lparr>oa_size := oa_size ?a + 1\<rparr>, m')"] assms(2,3) m'(1) by simp
  moreover have u: "unat (oa_size ?a + 1) = Suc (unat (oa_size ?a))"
    using assms(3) by (simp add: unat_word_ariths)
  moreover have "same_on lo (2 ^ 32) ?m m'"
    using assms(4,5) by (intro same_on_outside [OF m'(2)]) auto
  moreover have "oa_wf (?a\<lparr>oa_size := oa_size ?a + 1\<rparr>)"
    using assms(2,3) u by (simp add: oa_wf_def)
  ultimately show ?thesis
    using m'(1) assms(1) by (intro exI [of _ m']) (simp add: index_insert_def with_heap_def)
qed

section \<open>Allocating in a hole\<close>

text \<open>What the block list becomes: the hole is used up, or split when at least 20 bytes remain.\<close>

definition take_hole :: "nat \<Rightarrow> nat \<Rightarrow> (bool \<times> nat) list" where
  "take_hole k n = (if k - n < 20 then [(False, k)] else [(False, n), (True, k - n)])"

lemma room_take_hole: "n \<le> k \<Longrightarrow> room (take_hole k n) = k"
  by (simp add: take_hole_def)

lemma kheap_kmem_swap: "st\<lparr>kheap := x, kmem := y\<rparr> = st\<lparr>kmem := y, kheap := x\<rparr>"
  by simp

text \<open>The memory writes of \<open>alloc_in_hole\<close> without alignment.\<close>

lemma alloc_in_hole_writes:
  assumes "kheap st = Some h" "i < oa_size (index h)"
    and "load32 (kmem st) (slot (index h) i) = of_nat p" "get_size (kmem st) (of_nat p) = of_nat k"
    and "unat n + 20 \<le> k" "p + k \<le> unat (end_address h)"
    and "index_remove i st = Inr (set_heap (h\<lparr>index := a1\<rparr>) (st\<lparr>kmem := m1\<rparr>))"
    and "m2 = write_block (of_nat p) 0 (of_nat (unat n + 20)) (of_nat (p + (unat n + 20) - 8)) m1"
    and "m3 = write_block (of_nat (p + (unat n + 20))) 1 (of_nat (k - (unat n + 20))) (of_nat (p + k - 8)) m2"
  shows "alloc_in_hole i n (n + 12 + 8) 0 st =
    (if k - (unat n + 20) < 20
     then Inr (of_nat (p + 12), set_heap (h\<lparr>index := a1\<rparr>)
       (st\<lparr>kmem := write_block (of_nat p) 0 (of_nat k) (of_nat (p + k - 8)) m1\<rparr>))
     else res_bind (index_insert (of_nat (p + (unat n + 20))) (set_heap (h\<lparr>index := a1\<rparr>) (st\<lparr>kmem := m3\<rparr>)))
       (\<lambda>st. Inr (of_nat (p + 12), st)))"
proof -
  have k32: "k < 2 ^ 32" "p + k < 2 ^ 32"
    using assms(6) unat_less_pow [of "end_address h"] by simp_all
  have u: "unat (of_nat k :: u32) = k" using k32 by (simp add: unat_of_nat_small)
  have new: "n + 12 + 8 = of_nat (unat n + 20)" by simp
  have un: "unat (of_nat (unat n + 20) :: u32) = unat n + 20"
    using assms(5) k32 by (intro unat_of_nat_small) simp
  have diff: "of_nat k - of_nat (unat n + 20) = (of_nat (k - (unat n + 20)) :: u32)"
    using assms(5) by (simp add: of_nat_diff)
  have ud: "unat (of_nat (k - (unat n + 20)) :: u32) = k - (unat n + 20)"
    using k32 by (intro unat_of_nat_small) simp
  have small: "of_nat (k - (unat n + 20)) < (20 :: u32) \<longleftrightarrow> k - (unat n + 20) < 20"
    by (simp add: word_less_nat_alt ud)
  have look: "lookup_ordered_array i (index h) (kmem st) = Inr (of_nat p)"
    using assms(2,3) by (simp add: lookup_ordered_array_def)
  show ?thesis
  proof (cases "k - (unat n + 20) < 20")
    case True
    have f: "of_nat p + 12 + (n + of_nat (k - (unat n + 20))) = (of_nat (p + k - 8) :: u32)"
      using assms(5) by (simp add: of_nat_diff)
    have p12: "(of_nat p + 12 :: u32) = of_nat (p + 12)" by simp
    show ?thesis
      using True assms(1,7) look
      by (simp add: alloc_in_hole_def with_heap_def assms(4) new diff small Let_def f [unfolded p12] p12
          on_mem_def set_heap_def write_block_def kheap_kmem_swap del: of_nat_add of_nat_diff)
  next
    case False
    have f: "of_nat p + 12 + n = (of_nat (p + (unat n + 20) - 8) :: u32)"
      "of_nat (p + (unat n + 20) - 8) + 8 = (of_nat (p + (unat n + 20)) :: u32)"
      "of_nat (p + (unat n + 20)) + of_nat k - of_nat (unat n + 20) - 8 = (of_nat (p + k - 8) :: u32)"
      "of_nat (12 + (p + unat n)) + of_nat (k - (unat n + 20)) = (of_nat (p + k - 8) :: u32)"
      "of_nat (12 + (p + unat n)) + 8 = (of_nat (p + (unat n + 20)) :: u32)"
      using assms(5) by (simp_all add: of_nat_diff)
    have p12: "(of_nat p + 12 :: u32) = of_nat (p + 12)" by simp
    have pos: "(0 :: u32) < of_nat (k - (unat n + 20))"
      using False unfolding word_less_nat_alt ud by simp
    have "unat (of_nat (p + k - 8) :: u32) = p + k - 8"
      using k32 by (intro unat_of_nat_small) simp
    then have lt: "of_nat (p + k - 8) < end_address h"
      using assms(5,6) by (simp add: word_less_nat_alt)
    show ?thesis
      using False assms(1,7) look
      by (simp add: alloc_in_hole_def with_heap_def assms(4,8,9) new diff small Let_def f [unfolded p12] p12 pos lt
          on_mem_def set_heap_def write_block_def kheap_kmem_swap del: of_nat_add of_nat_diff)
  qed
qed

lemma write_block_in_tiles:
  assumes "20 \<le> n" "p + n \<le> 2 ^ 32"
    and "m' = write_block (of_nat p) (if h then 1 else 0) (of_nat n) (of_nat (p + n - 8)) m"
  shows "block_ok m' e (p, h, n)"
  using write_block_ok [OF assms] assms(1) by (simp add: block_ok_def)

text \<open>The new blocks that replace the hole are whole.\<close>

lemma take_hole_blocks:
  assumes "n + 20 \<le> k" "p + k \<le> e" "e < 2 ^ 32"
    and "m2 = write_block (of_nat p) 0 (of_nat (n + 20)) (of_nat (p + (n + 20) - 8)) m1"
    and "m' = (if k - (n + 20) < 20 then write_block (of_nat p) 0 (of_nat k) (of_nat (p + k - 8)) m1
       else write_block (of_nat (p + (n + 20))) 1 (of_nat (k - (n + 20))) (of_nat (p + k - 8)) m2)"
  shows "\<And>b. b \<in> set (layout p (take_hole k (n + 20))) \<Longrightarrow> block_ok m' e b"
    and "hi \<le> p \<or> p + k \<le> lo \<Longrightarrow> same_on lo hi m1 m'"
proof -
  let ?q = "p + (n + 20)" and ?r = "k - (n + 20)"
  have k: "p + k \<le> 2 ^ 32" "?q \<le> 2 ^ 32" "?q + ?r = p + k" using assms(1,2,3) by simp_all
  show "block_ok m' e b" if b: "b \<in> set (layout p (take_hole k (n + 20)))" for b
  proof (cases "?r < 20")
    case True
    have "block_ok m' e (p, False, k)"
      by (rule write_block_in_tiles [of k p _ False m1]) (use True assms(1,5) k in auto)
    then show ?thesis using b True by (simp add: take_hole_def)
  next
    case False
    have first: "block_ok m2 e (p, False, n + 20)"
      by (rule write_block_in_tiles [of "n + 20" p _ False m1]) (use assms(4) k in auto)
    have m': "m' = write_block (of_nat ?q) (if True then 1 else 0) (of_nat ?r) (of_nat (?q + ?r - 8)) m2"
      using False assms(5) k(3) by simp
    have "block_ok m' e (?q, True, ?r)"
      by (rule write_block_in_tiles [OF _ _ m']) (use False k in auto)
    moreover have "same_on p ?q m2 m'"
      by (rule write_block_ok(3) [OF _ _ m']) (use False k in auto)
    then have "block_ok m' e (p, False, n + 20)"
      by (intro block_ok_cong [OF first]) (use k in auto)
    ultimately show ?thesis using b False by (auto simp: take_hole_def add.assoc)
  qed
  show "same_on lo hi m1 m'" if d: "hi \<le> p \<or> p + k \<le> lo"
  proof (cases "?r < 20")
    case True
    then have m': "m' = write_block (of_nat p) (if False then 1 else 0) (of_nat k) (of_nat (p + k - 8)) m1"
      using assms(5) by simp
    show ?thesis by (rule write_block_ok(3) [OF _ _ m']) (use assms(1) k d in auto)
  next
    case False
    have m2: "m2 = write_block (of_nat p) (if False then 1 else 0) (of_nat (n + 20)) (of_nat (p + (n + 20) - 8)) m1"
      using assms(4) by simp
    have m': "m' = write_block (of_nat ?q) (if True then 1 else 0) (of_nat ?r) (of_nat (?q + ?r - 8)) m2"
      using False assms(5) k(3) by simp
    have "same_on lo hi m1 m2"
      by (rule write_block_ok(3) [OF _ _ m2]) (use k d assms(1) in auto)
    moreover have "same_on lo hi m2 m'"
      by (rule write_block_ok(3) [OF _ _ m']) (use False k d in auto)
    ultimately show ?thesis by (rule same_on_trans)
  qed
qed

text \<open>The search finds a hole of the list that is large enough, if there is one.\<close>

lemma find_hole_in_tiles:
  assumes "oa_wf (index h)" "tiles m a bs e" "e < 2 ^ 32"
    and "mset (oa_list (index h) m) = image_mset of_nat (mset (holes a bs))"
    and "n < 2 ^ 32" "(True, k) \<in> set bs" "n \<le> k"
  shows "\<exists>i pre k post. find_hole_from (of_nat n) 0 (index h) m 0 = Inr i \<and> i \<noteq> 0xDEADBEEF \<and>
    i < oa_size (index h) \<and> bs = pre @ (True, k) # post \<and> n \<le> k \<and>
    oa_list (index h) m ! unat i = of_nat (a + room pre)"
proof -
  have un: "unat (of_nat n :: u32) = n" using assms(5) by (simp add: unat_of_nat_small)
  have set_eq: "set (oa_list (index h) m) = of_nat ` set (holes a bs)"
    using assms(4) by (metis set_image_mset set_mset_mset)
  have size: "get_size m (of_nat (a + room pre)) = of_nat k" "unat (of_nat k :: u32) = k"
    if "bs = pre @ (hole, k) # post" for pre hole k post
  proof -
    from tiles_block [of m a pre hole k post e] assms(2) that
    show "get_size m (of_nat (a + room pre)) = of_nat k" by (simp add: hdr_def)
    have "k < 2 ^ 32" using tiles_block(3) [of m a pre hole k post e] assms(2,3) that by simp
    then show "unat (of_nat k :: u32) = k" by (simp add: unat_of_nat_small)
  qed
  obtain pre0 post0 where bs0: "bs = pre0 @ (True, k) # post0"
    using assms(6) by (meson split_list)
  then have "a + room pre0 \<in> set (holes a bs)" by simp
  then have "of_nat (a + room pre0) \<in> set (oa_list (index h) m)" unfolding set_eq by blast
  moreover have "of_nat n \<le> get_size m (of_nat (a + room pre0))"
    using size [OF bs0] assms(7) un by (simp only: word_le_nat_alt)
  ultimately have ex: "\<exists>x \<in> set (drop (unat (0 :: u32)) (oa_list (index h) m)). of_nat n \<le> get_size m x"
    by auto
  from find_hole_from_spec [OF assms(1), of 0 "of_nat n" m] ex obtain i where i:
    "find_hole_from (of_nat n) 0 (index h) m 0 = Inr i" "i < oa_size (index h)"
    "of_nat n \<le> get_size m (oa_list (index h) m ! unat i)"
    by auto
  have ui: "unat i < unat (oa_size (index h))" using i(2) by (simp add: word_less_nat_alt)
  then have "oa_list (index h) m ! unat i \<in> set (oa_list (index h) m)" by (intro nth_mem) simp
  then obtain p where p: "p \<in> set (holes a bs)" "oa_list (index h) m ! unat i = of_nat p"
    unfolding set_eq by blast
  from holes_split [OF p(1)] obtain pre k' post where b: "bs = pre @ (True, k') # post" "p = a + room pre"
    by blast
  have "n \<le> k'" using i(3) size [OF b(1)] un unfolding p(2) b(2) by (simp only: word_le_nat_alt)
  moreover have "i \<noteq> 0xDEADBEEF"
    using ui assms(1) by (auto simp: oa_wf_def)
  ultimately show ?thesis using i p b by blast
qed

lemma alloc_fits:
  assumes "heap_inv st bs" "unat n + 20 < 2 ^ 32" "(True, k0) \<in> set bs" "unat n + 20 \<le> k0"
    and "kheap st = Some h"
  shows "\<exists>pre k post p st'. bs = pre @ (True, k) # post \<and> unat n + 20 \<le> k \<and>
    p = unat (start_address h) + room pre \<and>
    alloc (Suc fuel) n 0 st = Inr (of_nat (p + 12), st') \<and>
    heap_inv st' (pre @ take_hole k (unat n + 20) @ post) \<and>
    same_on (unat (start_address h)) p (kmem st) (kmem st') \<and>
    same_on (p + k) (2 ^ 32) (kmem st) (kmem st') \<and>
    (\<exists>a. kheap st' = Some (h\<lparr>index := a\<rparr>) \<and> max_size a = max_size (index h)) \<and> st' = st\<lparr>kmem := kmem st', kheap := kheap st'\<rparr>"
proof -
  define a e new where "a = unat (start_address h)" and "e = unat (end_address h)" and "new = unat n + 20"
  from assms(1,5) have inv: "oa_wf (index h)" "less_than (index h) = Some header_t_less_than"
    "unat (oa_size (index h)) \<le> unat (max_size (index h))" "unat (max_size (index h)) \<le> 2 ^ 20"
    "unat (array (index h)) + 4 * unat (max_size (index h)) \<le> a"
    "tiles (kmem st) a bs e"
    "mset (oa_list (index h) (kmem st)) = image_mset of_nat (mset (holes a bs))"
    by (auto simp: a_def e_def elim!: heap_invE)
  have e32: "e < 2 ^ 32" using unat_less_pow [of "end_address h"] by (simp add: e_def)
  have nn: "n + 12 + 8 = of_nat new" by (simp add: new_def)
  from find_hole_in_tiles [OF inv(1,6) e32 inv(7), of new k0] assms(2,3,4) obtain i pre k post where i:
    "find_hole_from (of_nat new) 0 (index h) (kmem st) 0 = Inr i" "i \<noteq> 0xDEADBEEF" "i < oa_size (index h)"
    "bs = pre @ (True, k) # post" "new \<le> k" "oa_list (index h) (kmem st) ! unat i = of_nat (a + room pre)"
    unfolding new_def by blast
  define p where "p = a + room pre"
  note blk = tiles_block [OF inv(6) [unfolded i(4)], folded p_def]
  have ui: "unat i < unat (oa_size (index h))" using i(3) by (simp add: word_less_nat_alt)
  have sl: "load32 (kmem st) (slot (index h) i) = of_nat p"
    using i(6) ui by (simp add: p_def oa_list_def slot_def)
  have "a \<le> e" using inv(6) by (simp add: tiles_def)
  then have a32: "a \<le> 2 ^ 32" using e32 by simp
  from index_remove_spec [OF assms(5) inv(1) i(3), of a] inv(3,5) a32 obtain m1 a1 where rem:
    "index_remove i st = Inr (set_heap (h\<lparr>index := a1\<rparr>) (st\<lparr>kmem := m1\<rparr>))"
    "a1 = (index h)\<lparr>oa_size := oa_size (index h) - 1\<rparr>" "oa_wf a1"
    "Suc (unat (oa_size a1)) = unat (oa_size (index h))"
    "mset (oa_list a1 m1) = mset (oa_list (index h) (kmem st)) - {#of_nat p#}"
    "same_on a (2 ^ 32) (kmem st) m1"
    unfolding i(6) p_def [symmetric] by auto
  define m2 where "m2 = write_block (of_nat p) 0 (of_nat new) (of_nat (p + new - 8)) m1"
  define m3 where "m3 = (if k - new < 20 then write_block (of_nat p) 0 (of_nat k) (of_nat (p + k - 8)) m1
    else write_block (of_nat (p + new)) 1 (of_nat (k - new)) (of_nat (p + k - 8)) m2)"
  note th = take_hole_blocks [of "unat n" k p e m2 m1 m3, folded new_def, OF i(5) blk(3) e32 m2_def m3_def]
  have idx: "oa_list a1 m3 = oa_list a1 m1"
  proof (rule oa_list_same_on [of 0 a])
    show "same_on 0 a m1 m3" by (rule th(2)) (simp add: p_def)
    show "unat (array a1) + 4 * unat (oa_size a1) \<le> a" using rem(2,4) inv(3,5) by simp
  qed (use a32 in simp_all)
  have call: "alloc (Suc fuel) n 0 st =
      (if k - new < 20 then Inr (of_nat (p + 12), set_heap (h\<lparr>index := a1\<rparr>) (st\<lparr>kmem := m3\<rparr>))
       else res_bind (index_insert (of_nat (p + new)) (set_heap (h\<lparr>index := a1\<rparr>) (st\<lparr>kmem := m3\<rparr>)))
         (\<lambda>st. Inr (of_nat (p + 12), st)))"
  proof -
    have "get_size (kmem st) (of_nat p) = of_nat k" using blk(4) by (simp add: hdr_def)
    from alloc_in_hole_writes [OF assms(5) i(3) sl this _ _ rem(1) m2_def [unfolded new_def] refl] i(5) blk(3)
    have "alloc_in_hole i n (n + 12 + 8) 0 st =
        (if k - new < 20 then Inr (of_nat (p + 12), set_heap (h\<lparr>index := a1\<rparr>) (st\<lparr>kmem := m3\<rparr>))
         else res_bind (index_insert (of_nat (p + new)) (set_heap (h\<lparr>index := a1\<rparr>) (st\<lparr>kmem := m3\<rparr>)))
           (\<lambda>st. Inr (of_nat (p + 12), st)))"
      by (auto simp: new_def e_def m3_def)
    moreover have "find_smallest_hole (n + 12 + 8) 0 st = Inr i"
      using i(1) assms(5) unfolding nn by (simp add: find_smallest_hole_def with_heap_def)
    ultimately show ?thesis using i(2) by (simp only: alloc.simps Let_def res_bind_Inr if_False)
  qed
  have above: "same_on a p (kmem st) m3" "same_on (p + k) (2 ^ 32) (kmem st) m3"
    by (rule same_on_trans [OF same_on_sub [OF rem(6)] th(2)]; use e32 blk(3) in \<open>simp add: p_def\<close>)+
  let ?bs = "pre @ take_hole k new @ post"
  have tiles': "tiles m' a ?bs e" if s34: "same_on a (2 ^ 32) m3 m'" for m'
  proof (rule tiles_replace [of "kmem st" a pre "[(True, k)]" post e])
    show "same_on a (a + room pre) (kmem st) m'"
      unfolding p_def [symmetric] using e32 blk(3)
      by (intro same_on_trans [OF above(1)] same_on_sub [OF s34]) auto
    show "same_on (a + room pre + room [(True, k)]) e (kmem st) m'"
      using e32 blk(3)
      by (intro same_on_trans [OF same_on_sub [OF above(2)]] same_on_sub [OF s34]) (auto simp: p_def)
    show "room (take_hole k new) = room [(True, k)]" using i(5) by (simp add: room_take_hole)
    show "block_ok m' e b" if b: "b \<in> set (layout (a + room pre) (take_hole k new))" for b
    proof -
      obtain x g l where x: "b = (x, g, l)" by (cases b) auto
      have "a \<le> x" "x + l \<le> p + k"
        using layout_in [of x g l "a + room pre" "take_hole k new"] b room_take_hole [OF i(5)]
        by (simp_all add: x p_def)
      moreover from this have "same_on x (x + l) m3 m'"
        using e32 blk(3) by (intro same_on_sub [OF s34]) auto
      moreover have "block_ok m3 e (x, g, l)" using th(1) [of b] b by (simp add: x p_def)
      ultimately show ?thesis
        using block_ok_cong [of m3 e x g l m'] e32 blk(3) by (simp add: x)
    qed
  qed (use inv(6) i(4) e32 in simp_all)
  have ms: "mset (oa_list a1 m3) = image_mset of_nat (mset (holes a pre) + mset (holes (p + k) post))"
    using rem(5) inv(7) by (simp add: idx i(4) p_def)
  show ?thesis
  proof (cases "k - new < 20")
    case True
    define st' where "st' = set_heap (h\<lparr>index := a1\<rparr>) (st\<lparr>kmem := m3\<rparr>)"
    have mx: "max_size a1 = max_size (index h)" by (simp add: rem(2))
    have "heap_inv st' ?bs"
      using True inv rem(2-4) ms tiles' [of m3] i(5)
      by (simp add: heap_inv_def st'_def set_heap_def word_le_nat_alt a_def [symmetric] e_def [symmetric]
          take_hole_def p_def add.assoc)
    then show ?thesis
      using i(4,5) call True above mx
      by (intro exI [of _ pre] exI [of _ k] exI [of _ post] exI [of _ p] exI [of _ st'])
        (auto simp: st'_def set_heap_def new_def p_def a_def)
  next
    case False
    let ?st = "set_heap (h\<lparr>index := a1\<rparr>) (st\<lparr>kmem := m3\<rparr>)"
    have "\<exists>m' a'. index_insert (of_nat (p + new)) ?st = Inr (set_heap (h\<lparr>index := a1\<rparr>\<lparr>index := a'\<rparr>) (?st\<lparr>kmem := m'\<rparr>)) \<and>
        a' = a1\<lparr>oa_size := oa_size a1 + 1\<rparr> \<and> oa_wf a' \<and> unat (oa_size a') = Suc (unat (oa_size a1)) \<and>
        mset (oa_list a' m') = add_mset (of_nat (p + new)) (mset (oa_list a1 m3)) \<and>
        same_on a (2 ^ 32) m3 m'"
      using index_insert_spec [of ?st "h\<lparr>index := a1\<rparr>" a "of_nat (p + new)"] rem(2-4) inv(3-5) a32
      by (simp add: set_heap_def)
    then obtain m4 a2 where ins:
      "index_insert (of_nat (p + new)) ?st = Inr (set_heap (h\<lparr>index := a1\<rparr>\<lparr>index := a2\<rparr>) (?st\<lparr>kmem := m4\<rparr>))"
      "a2 = a1\<lparr>oa_size := oa_size a1 + 1\<rparr>" "oa_wf a2" "unat (oa_size a2) = Suc (unat (oa_size a1))"
      "mset (oa_list a2 m4) = add_mset (of_nat (p + new)) (mset (oa_list a1 m3))" "same_on a (2 ^ 32) m3 m4"
      by blast
    define st' where "st' = set_heap (h\<lparr>index := a2\<rparr>) (st\<lparr>kmem := m4\<rparr>)"
    have st': "set_heap (h\<lparr>index := a1\<rparr>\<lparr>index := a2\<rparr>) (?st\<lparr>kmem := m4\<rparr>) = st'"
      by (simp add: st'_def set_heap_def)
    have mx: "max_size a2 = max_size (index h)" by (simp add: ins(2) rem(2))
    have "heap_inv st' ?bs"
      using False inv rem(2-4) ins(2-5) ms tiles' [OF ins(6)] i(5)
      by (simp add: heap_inv_def st'_def set_heap_def word_le_nat_alt a_def [symmetric] e_def [symmetric]
          take_hole_def p_def add.assoc)
    moreover have "same_on a p (kmem st) m4" "same_on (p + k) (2 ^ 32) (kmem st) m4"
      by (rule same_on_trans [OF _ same_on_sub [OF ins(6)]]; use above e32 blk(3) in \<open>simp add: p_def\<close>)+
    ultimately show ?thesis
      using i(4,5) call False ins(1) st' mx
      by (intro exI [of _ pre] exI [of _ k] exI [of _ post] exI [of _ p] exI [of _ st'])
        (auto simp: st'_def set_heap_def new_def p_def a_def)
  qed
qed

section \<open>A new heap\<close>

lemma page_aligned_up:
  assumes "unat x mod 4096 = 0" "0x1000 \<le> unat x"
  shows "(if x AND 0xFFFFF000 \<noteq> 0 then (x AND 0xFFFFF000) + page_size else x) = x + page_size"
proof -
  have "unat (x AND 0xFFFFF000) = unat x"
    unfolding unat_page_mask using assms(1) mult_div_mod_eq [of 4096 "unat x"] by simp
  then have "x AND 0xFFFFF000 = x" by (simp only: word_unat_eq_iff)
  moreover have "x \<noteq> 0" using assms(2) by auto
  ultimately show ?thesis by simp
qed

lemma set_hole_header:
  assumes "a + 12 \<le> 2 ^ 32" "m' = set_is_hole (of_nat a) 1 (set_magic (of_nat a) (set_size (of_nat a) (of_nat n) m))"
  shows "hdr m' a True n"
proof -
  define m1 where "m1 = store32 m (of_nat (a + 8)) (of_nat n)"
  define m2 where "m2 = store32 m1 (of_nat a) heap_magic"
  have m': "m' = m2(of_nat (a + 4) := 1)"
    by (simp add: assms(2) set_is_hole_def set_magic_def set_size_def m1_def m2_def add.commute)
  have "load32 m' (of_nat a) = heap_magic"
  proof -
    have "load32 m' (of_nat a) = load32 m2 (of_nat a)" unfolding m'
      by (rule same_on_load [OF same_on_upd, of "a + 4" a "a + 4"]) (use assms(1) in auto)
    then show ?thesis by (simp add: m2_def)
  qed
  moreover have "load32 m' (of_nat (a + 8)) = of_nat n"
  proof -
    have "load32 m' (of_nat (a + 8)) = load32 m2 (of_nat (a + 8))" unfolding m'
      by (rule same_on_load [OF same_on_upd, of "a + 4" "a + 8" "a + 12"]) (use assms(1) in auto)
    also have "\<dots> = load32 m1 (of_nat (a + 8))" unfolding m2_def
      by (rule load32_store32_nat) (use assms(1) in auto)
    finally show ?thesis by (simp add: m1_def)
  qed
  ultimately show ?thesis
    by (simp add: hdr_def get_magic_def get_is_hole_def get_size_def m' add.commute)
qed

lemma set_hole_same:
  assumes "a + 12 \<le> 2 ^ 32" "hi \<le> a \<or> a + 12 \<le> lo"
  shows "same_on lo hi m (set_is_hole (of_nat a) 1 (set_magic (of_nat a) (set_size (of_nat a) n m)))"
proof -
  have "same_on lo hi m (store32 m (of_nat (a + 8)) n)"
    by (rule same_on_store32) (use assms in auto)
  also have "same_on lo hi \<dots> (store32 \<dots> (of_nat a) heap_magic)"
    by (rule same_on_store32) (use assms in auto)
  also have "same_on lo hi \<dots> (\<dots>(of_nat (a + 4) := 1))"
    by (rule same_on_upd) (use assms in auto)
  finally show ?thesis
    by (simp add: set_is_hole_def set_magic_def set_size_def add.commute)
qed

lemma create_heap_inv:
  assumes "kheap st = None" "unat start_addr mod 4096 = 0" "unat end_addr mod 4096 = 0"
    and "unat start_addr + 0x81000 + 20 \<le> unat end_addr"
  shows "\<exists>h st'. create_heap (kmalloc_a (Suc fuel)) start_addr end_addr mx superv ro st = Inr (h, st') \<and>
    heap_inv (set_heap h st') [(True, unat end_addr - unat start_addr - 0x81000)] \<and>
    start_address h = start_addr + 0x81000 \<and> end_address h = end_addr \<and> max_address h = mx \<and>
    max_size (index h) = 0x20000 \<and> same_on 0 (unat start_addr) (kmem st) (kmem st') \<and>
    array (index h) = start_addr \<and>
    st' = st\<lparr>kmem := kmem st', placement_address := placement_address st', kenv := kenv st'\<rparr>"
proof -
  define a where "a = unat start_addr + 0x81000"
  define e where "e = unat end_addr"
  have e32: "e < 2 ^ 32" using unat_less_pow [of end_addr] by (simp add: e_def)
  have ae: "a + 20 \<le> e" using assms(4) by (simp add: a_def e_def)
  have ua: "start_addr + 0x81000 = of_nat a" "unat (start_addr + 0x81000) = a"
    using ae e32 by (simp_all add: a_def unat_word_ariths)
  have up: "(if start_addr + 4 * 0x20000 AND 0xFFFFF000 \<noteq> 0
      then (start_addr + 4 * 0x20000 AND 0xFFFFF000) + page_size else start_addr + 4 * 0x20000) = of_nat a"
  proof (subst page_aligned_up)
    have u: "unat (start_addr + 4 * 0x20000) = unat start_addr + 0x80000"
      using ae e32 by (simp add: a_def unat_word_ariths)
    show "unat (start_addr + 4 * 0x20000) mod 4096 = 0" "4096 \<le> unat (start_addr + 4 * 0x20000)"
      unfolding u using assms(2) by (simp_all add: mod_add_eq [symmetric])
    show "start_addr + 4 * 0x20000 + page_size = of_nat a" by (simp add: a_def)
  qed
  define ar where "ar = \<lparr>array = start_addr, oa_size = 0, max_size = 0x20000, less_than = Some header_t_less_than\<rparr>"
  define m0 where "m0 = memset (kmem st) start_addr 0 (0x20000 * 4)"
  define m1 where "m1 = set_is_hole (of_nat a) 1 (set_magic (of_nat a) (set_size (of_nat a) (end_addr - of_nat a) m0))"
  have size: "end_addr - of_nat a = of_nat (e - a)"
    using ae by (simp add: e_def of_nat_diff)
  have hd: "hdr m1 a True (e - a)"
    by (rule set_hole_header [of a _ _ m0]) (use ae e32 in \<open>simp_all add: m1_def size\<close>)
  from insert_ordered_array_list [of ar "of_nat a" m1] obtain m2 where m2:
    "insert_ordered_array (of_nat a) ar m1 = Inr (ar\<lparr>oa_size := 1\<rparr>, m2)"
    "oa_list (ar\<lparr>oa_size := 1\<rparr>) m2 = [of_nat a]" "unchanged_outside start_addr 4 m1 m2"
    by (auto simp: ar_def oa_wf_def oa_list_def words_at_def)
  have "same_on a (a + 12) m1 m2"
    by (rule same_on_outside [OF m2(3)]) (use ae e32 in \<open>auto simp: a_def\<close>)
  then have hd2: "hdr m2 a True (e - a)" by (rule hdr_cong) (use hd ae e32 in auto)
  define h where "h = \<lparr>index = ar\<lparr>oa_size := 1\<rparr>, start_address = of_nat a, end_address = end_addr,
    max_address = mx, supervisor = superv, readonly = ro\<rparr>"
  obtain ptr ph s1 where al: "placement_alloc 32 1 st = (ptr, ph, s1)" by (metis prod_cases3)
  then have s1: "kmem s1 = kmem st" "s1 = st\<lparr>placement_address := placement_address s1\<rparr>"
    by (auto simp: placement_alloc_def Let_def split: if_splits)
  have mods: "start_addr mod page_size = 0" "end_addr mod page_size = 0"
    using assms(2,3) by (simp_all add: word_unat_eq_iff unat_mod)
  have place: "place_ordered_array start_addr 0x20000 (Some header_t_less_than) (kmem st) = (ar, m0)"
    by (simp add: place_ordered_array_def ar_def m0_def)
  have "\<exists>st'. create_heap (kmalloc_a (Suc fuel)) start_addr end_addr mx superv ro st = Inr (h, st') \<and> kmem st' = m2 \<and>
      st' = s1\<lparr>kmem := kmem st', kenv := kenv st'\<rparr>"
    using m2(1) unfolding create_heap_def Let_def up
    by (simp add: kmalloc_a_def assms(1) al assert_that_def mods s1(1) place on_mem_def klog_kst_def
        m1_def [symmetric] h_def)
  then obtain st' where st': "create_heap (kmalloc_a (Suc fuel)) start_addr end_addr mx superv ro st = Inr (h, st')"
    "kmem st' = m2" "st' = s1\<lparr>kmem := kmem st', kenv := kenv st'\<rparr>" by blast
  have fields: "st' = st\<lparr>kmem := kmem st', placement_address := placement_address st', kenv := kenv st'\<rparr>"
    by (subst (1) st'(3), subst s1(2), subst st'(3)) simp
  have "same_on 0 (unat start_addr) (kmem st) m0"
  proof (rule same_on_outside)
    show "unchanged_outside start_addr 0x80000 (kmem st) m0"
      by (simp add: unchanged_outside_def m0_def memset_def memset_loop_eq)
  qed (use ae e32 in \<open>simp_all add: a_def\<close>)
  also have "same_on 0 (unat start_addr) m0 m1"
    unfolding m1_def using ae e32 by (intro set_hole_same) (simp_all add: a_def)
  also have "same_on 0 (unat start_addr) m1 m2"
    by (rule same_on_outside [OF m2(3)]) (use ae e32 in \<open>simp_all add: a_def\<close>)
  finally have below: "same_on 0 (unat start_addr) (kmem st) (kmem st')"
    by (simp only: st'(2))
  have "unat (of_nat a :: u32) = a" using ua by simp
  then have "heap_inv (set_heap h st') [(True, e - a)]"
    using m2(2) hd2 ae st'(2)
    by (simp add: heap_inv_def set_heap_def h_def ar_def oa_wf_def tiles_def block_ok_def a_def [symmetric] e_def [symmetric])
      (simp add: a_def)
  moreover have "e - a = unat end_addr - unat start_addr - 0x81000" by (simp add: a_def e_def)
  ultimately show ?thesis
    using st'(1) fields ua(1) below by (intro exI [of _ h] exI [of _ st']) (auto simp: h_def ar_def)
qed

text \<open>
  C20. \<open>create_heap\<close> on page-aligned bounds leaves one hole that spans the heap, listed in the index:
  the heap starts a page after the index, one more than needed since an address that is already
  aligned is rounded up too.
\<close>
theorem create_heap_one_hole:
  assumes "kheap st = None" "unat start_addr mod 4096 = 0" "unat end_addr mod 4096 = 0"
    and "unat start_addr + 0x81000 + 20 \<le> unat end_addr"
  shows "\<exists>h st'. create_heap (kmalloc_a (Suc fuel)) start_addr end_addr mx superv ro st = Inr (h, st') \<and>
    heap_inv (set_heap h st') [(True, unat end_addr - unat start_addr - 0x81000)] \<and>
    start_address h = start_addr + 0x81000 \<and> end_address h = end_addr \<and> max_address h = mx"
  using create_heap_inv [OF assms, of fuel mx superv ro] by blast

lemma create_heap_one_hole_witness:
  "\<exists>h st'. create_heap (kmalloc_a 1) 0x01000000 0x01100000 0x01FFF000 0 0 (blank_kst 0) = Inr (h, st') \<and>
    heap_inv (set_heap h st') [(True, 0x7F000)] \<and> start_address h = 0x01081000"
  using create_heap_one_hole [of "blank_kst 0" "0x01000000" "0x01100000" 0 "0x01FFF000" 0 0]
  by (auto simp: blank_kst_facts)

text \<open>The heap the kernel creates at boot.\<close>

definition boot_heap :: kst where
  "boot_heap = (case create_heap (kmalloc_a 1) 0x01000000 0x01100000 0x01FFF000 0 0 (blank_kst 0) of
     Inl e \<Rightarrow> blank_kst 0 | Inr (h, st) \<Rightarrow> set_heap h st)"

lemma boot_heap_facts:
  "heap_inv boot_heap [(True, 0x7F000)]"
  "\<exists>h. kheap boot_heap = Some h \<and> start_address h = 0x01081000 \<and> max_size (index h) = 0x20000"
proof -
  from create_heap_inv [of "blank_kst 0" "0x01000000" "0x01100000" 0 "0x01FFF000" 0 0] 
  show "heap_inv boot_heap [(True, 0x7F000)]"
    "\<exists>h. kheap boot_heap = Some h \<and> start_address h = 0x01081000 \<and> max_size (index h) = 0x20000"
    by (auto simp: boot_heap_def blank_kst_facts set_heap_def)
qed

text \<open>
  C8. An allocation without alignment, on a heap with a hole of at least the requested size plus
  20 bytes, takes such a hole: it returns the address 12 bytes into it, splits off what is left of
  the hole if that is at least 20 bytes, lists exactly the remaining holes in the index, and
  changes no byte of the heap outside the hole.
\<close>
theorem alloc_takes_hole:
  assumes "heap_inv st bs" "kheap st = Some h" "unat n + 20 < 2 ^ 32"
    and "(True, k0) \<in> set bs" "unat n + 20 \<le> k0"
  shows "\<exists>pre k post p st'. bs = pre @ (True, k) # post \<and> unat n + 20 \<le> k \<and>
    p = unat (start_address h) + room pre \<and>
    alloc (Suc fuel) n 0 st = Inr (of_nat (p + 12), st') \<and>
    heap_inv st' (pre @ (if k - (unat n + 20) < 20 then [(False, k)]
      else [(False, unat n + 20), (True, k - (unat n + 20))]) @ post) \<and>
    same_on (unat (start_address h)) p (kmem st) (kmem st') \<and>
    same_on (p + k) (2 ^ 32) (kmem st) (kmem st')"
  using alloc_fits [OF assms(1,3,4,5,2), of fuel] unfolding take_hole_def by blast

lemma alloc_takes_hole_witness:
  "\<exists>st'. alloc 1 100 0 boot_heap = Inr (0x0108100C, st') \<and> heap_inv st' [(False, 120), (True, 0x7EF88)]"
proof -
  obtain h where h: "kheap boot_heap = Some h" "start_address h = 0x01081000"
    using boot_heap_facts(2) by blast
  have "bs = [] \<and> k = l \<and> post = []" if "[(True, l)] = bs @ (True, k) # post" for bs post and k l :: nat
    using that by (cases bs) auto
  with alloc_takes_hole [OF boot_heap_facts(1) h(1), of 100 "0x7F000" 0] h(2) show ?thesis
    by fastforce
qed

section \<open>Freeing a block\<close>

text \<open>The parts of a header, and changing one of them.\<close>

lemma hdr_set_is_hole:
  assumes "hdr m a h n" "a + 12 \<le> 2 ^ 32" "m' = set_is_hole (of_nat a) 1 m"
  shows "hdr m' a True n" "hi \<le> a + 4 \<or> a + 5 \<le> lo \<Longrightarrow> same_on lo hi m m'"
proof -
  have m': "m' = m(of_nat (a + 4) := 1)" by (simp add: assms(3) set_is_hole_def add.commute)
  have "load32 m' (of_nat a) = load32 m (of_nat a)" unfolding m'
    by (rule same_on_load [OF same_on_upd, of "a + 4" a "a + 4"]) (use assms(2) in auto)
  moreover have "load32 m' (of_nat (a + 8)) = load32 m (of_nat (a + 8))" unfolding m'
    by (rule same_on_load [OF same_on_upd, of "a + 4" "a + 8" "a + 12"]) (use assms(2) in auto)
  ultimately show "hdr m' a True n"
    using assms(1) by (simp add: hdr_def get_magic_def get_is_hole_def get_size_def m' add.commute)
  show "same_on lo hi m m'" if "hi \<le> a + 4 \<or> a + 5 \<le> lo"
    unfolding m' by (rule same_on_upd) (use assms(2) that in auto)
qed

lemma hdr_set_size:
  assumes "hdr m a h n" "a + 12 \<le> 2 ^ 32" "m' = set_size (of_nat a) (of_nat k) m"
  shows "hdr m' a h k" "hi \<le> a + 8 \<or> a + 12 \<le> lo \<Longrightarrow> same_on lo hi m m'"
proof -
  have m': "m' = store32 m (of_nat (a + 8)) (of_nat k)" by (simp add: assms(3) set_size_def add.commute)
  show s: "same_on lo hi m m'" if "hi \<le> a + 8 \<or> a + 12 \<le> lo" for lo hi
    unfolding m' by (rule same_on_store32) (use assms(2) that in auto)
  have "load32 m' (of_nat a) = load32 m (of_nat a)"
    by (rule same_on_load [OF s, of "a + 4" a]) (use assms(2) in auto)
  moreover have "m' (of_nat (a + 4)) = m (of_nat (a + 4))"
    by (rule same_on_byte [OF s, of "a + 8" "a + 4"]) (use assms(2) in auto)
  ultimately show "hdr m' a h k"
    using assms(1) by (simp add: hdr_def get_magic_def get_is_hole_def get_size_def m' add.commute)
qed

lemma ftr_set_header:
  assumes "ftr m f a" "f + 8 \<le> 2 ^ 32" "m' = set_header (of_nat f) (of_nat b) m"
  shows "ftr m' f b" "hi \<le> f + 4 \<or> f + 8 \<le> lo \<Longrightarrow> same_on lo hi m m'"
proof -
  have m': "m' = store32 m (of_nat (f + 4)) (of_nat b)" by (simp add: assms(3) set_header_def add.commute)
  show s: "same_on lo hi m m'" if "hi \<le> f + 4 \<or> f + 8 \<le> lo" for lo hi
    unfolding m' by (rule same_on_store32) (use assms(2) that in auto)
  have "load32 m' (of_nat f) = load32 m (of_nat f)"
    by (rule same_on_load [OF s, of "f + 4" f]) (use assms(2) in auto)
  then show "ftr m' f b"
    using assms(1) by (simp add: ftr_def get_magic_def get_header_def m' add.commute)
qed

text \<open>
  The effect on memory of freeing the block at \<open>p\<close> before the right neighbour is looked at:
  \<open>left\<close> is the size of the hole on its left, or 0.
\<close>

lemma unify_left_spec:
  assumes "hdr m p False n" "ftr m (p + n - 8) p" "20 \<le> n" "p + n < 2 ^ 32"
    and "ftr m (p - 8) (p - ln)" "hdr m (p - ln) lh ln" "20 \<le> ln" "ln \<le> p" "kmem st = m"
    and "x = (if lh then p - ln else p)" "k = (if lh then ln + n else n)"
  shows "\<exists>m'. unify_left (of_nat p) (of_nat (p + n - 8)) (on_mem (set_is_hole (of_nat p) 1) st) =
      (of_nat x, \<not> lh, st\<lparr>kmem := m'\<rparr>) \<and>
    hdr m' x True k \<and> ftr m' (p + n - 8) x \<and>
    (\<forall>lo hi. hi \<le> x \<or> p + n \<le> lo \<longrightarrow> same_on lo hi m m')"
proof -
  define m1 where "m1 = set_is_hole (of_nat p) 1 m"
  note s1 = hdr_set_is_hole [OF assms(1) _ m1_def]
  have h1: "hdr m1 p True n" using s1(1) assms(3,4) by simp
  have f1: "ftr m1 (p - 8) (p - ln)"
    by (rule ftr_cong [OF s1(2) _ assms(5)]) (use assms(3,4,7,8) in auto)
  have f2: "ftr m1 (p + n - 8) p"
    by (rule ftr_cong [OF s1(2) _ assms(2)]) (use assms(3,4) in auto)
  have h2: "hdr m1 (p - ln) lh ln"
    by (rule hdr_cong [OF s1(2) _ assms(6)]) (use assms(3,4,7,8) in auto)
  have p8: "of_nat p - 8 = (of_nat (p - 8) :: u32)" using assms(7,8) by (simp add: of_nat_diff)
  have st1: "on_mem (set_is_hole (of_nat p) 1) st = st\<lparr>kmem := m1\<rparr>"
    by (simp add: on_mem_def m1_def assms(9))
  show ?thesis
  proof (cases lh)
    case False
    have "unify_left (of_nat p) (of_nat (p + n - 8)) (st\<lparr>kmem := m1\<rparr>) = (of_nat p, True, st\<lparr>kmem := m1\<rparr>)"
      using False f1 h2 by (simp add: unify_left_def p8 ftr_def hdr_def Let_def)
    moreover have "same_on lo hi m m1" if "hi \<le> p \<or> p + n \<le> lo" for lo hi
      using that assms(3,4) by (intro s1(2)) auto
    ultimately show ?thesis
      using False h1 f2 assms(10,11) st1 by (intro exI [of _ m1]) auto
  next
    case True
    define m2 where "m2 = set_header (of_nat (p + n - 8)) (of_nat (p - ln)) m1"
    note s2 = ftr_set_header [OF f2 _ m2_def]
    have h2': "hdr m1 (p - ln) True ln" using h2 True by simp
    have h3: "hdr m2 (p - ln) True ln"
      by (rule hdr_cong [OF s2(2) _ h2']) (use assms(3,4,7,8) in auto)
    define m3 where "m3 = set_size (of_nat (p - ln)) (of_nat (ln + n)) m2"
    note s3 = hdr_set_size [OF h3 _ m3_def]
    have f3: "ftr m3 (p + n - 8) (p - ln)"
      by (rule ftr_cong [OF s3(2) _ s2(1)]) (use assms(3,4,7,8) in auto)
    have "get_size m1 (of_nat p) = of_nat n" using h1 by (simp add: hdr_def)
    moreover have "get_header m1 (of_nat (p - 8)) = of_nat (p - ln)" "get_magic m1 (of_nat (p - 8)) = heap_magic"
      using f1 by (simp_all add: ftr_def)
    moreover have "get_is_hole m1 (of_nat (p - ln)) = 1" using h2 True by (simp add: hdr_def)
    moreover have "get_size m2 (of_nat (p - ln)) = of_nat ln" using h3 by (simp add: hdr_def)
    ultimately have "unify_left (of_nat p) (of_nat (p + n - 8)) (st\<lparr>kmem := m1\<rparr>) =
        (of_nat (p - ln), False, st\<lparr>kmem := m3\<rparr>)"
      by (simp add: unify_left_def p8 Let_def on_mem_def m2_def [symmetric] m3_def del: of_nat_diff)
    moreover have "same_on lo hi m m3" if "hi \<le> p - ln \<or> p + n \<le> lo" for lo hi
      by (rule same_on_trans [OF s1(2) same_on_trans [OF s2(2) s3(2)]]) (use that assms(3,4,7,8) in auto)
    moreover have "hdr m3 (p - ln) True (ln + n)" by (rule s3(1)) (use assms(3,4,7,8) in simp)
    ultimately show ?thesis
      using True f3 assms(10,11) st1 by (intro exI [of _ m3]) auto
  qed
qed

lemma tiles_footer:
  assumes "tiles m a (pre @ (h, n) # b # post) e"
  shows "ftr m (a + room pre + n - 8) (a + room pre)"
proof -
  obtain h2 n2 where b: "b = (h2, n2)" by (cases b)
  have "block_ok m e (a + room pre, h, n)" "block_ok m e (a + room pre + n, h2, n2)"
    using assms by (simp_all add: tiles_def layout_append b)
  moreover have "a + room pre + n + n2 \<le> e" using assms by (simp add: tiles_def b)
  ultimately show ?thesis by (auto simp: block_ok_def)
qed

text \<open>The checks at the start of \<open>free\<close> and the merge with the left, for a block inside the heap.\<close>

lemma free_start:
  assumes "tiles m a (pre @ (lh, ln) # (False, n) # b # post) e" "e < 2 ^ 32" "kmem st = m"
    and "p = a + room pre + ln" "x = (if lh then p - ln else p)" "k = (if lh then ln + n else n)"
  shows "\<exists>m'. free kap (of_nat (p + 12)) st =
      res_bind (unify_right (of_nat x) (of_nat (p + n - 8)) (st\<lparr>kmem := m'\<rparr>)) (\<lambda>(footer, st).
        res_bind (contract_end kap (of_nat x) footer (of_nat (p + n)) st) (\<lambda>st.
          if \<not> lh then index_insert (of_nat x) st else Inr st)) \<and>
    hdr m' x True k \<and> ftr m' (p + n - 8) x \<and>
    (\<forall>lo hi. hi \<le> x \<or> p + n \<le> lo \<longrightarrow> same_on lo hi m m')"
proof -
  have t2: "tiles m a ((pre @ [(lh, ln)]) @ (False, n) # b # post) e" using assms(1) by simp
  have p: "a + room (pre @ [(lh, ln)]) = p" using assms(4) by simp
  note B = tiles_block [OF t2, unfolded p] and L = tiles_block [OF assms(1)]
  have FB: "ftr m (p + n - 8) p" using tiles_footer [OF t2] by (simp only: p)
  have pl: "a + room pre = p - ln" "a + room pre + ln - 8 = p - 8" using assms(4) by simp_all
  have FL: "ftr m (p - 8) (p - ln)" using tiles_footer [OF assms(1)] by (simp add: assms(4))
  have HL: "hdr m (p - ln) lh ln" using L(4) unfolding pl(1) .
  have "ln \<le> p" using assms(4) by simp
  note u = unify_left_spec [OF B(4) FB B(2) _ FL HL L(2) this assms(3,5,6)]
  from B(3) assms(2) have pn: "p + n < 2 ^ 32" by simp
  from u [OF pn] obtain m' where m': "unify_left (of_nat p) (of_nat (p + n - 8)) (on_mem (set_is_hole (of_nat p) 1) st) =
      (of_nat x, \<not> lh, st\<lparr>kmem := m'\<rparr>)" "hdr m' x True k" "ftr m' (p + n - 8) x"
    "\<forall>lo hi. hi \<le> x \<or> p + n \<le> lo \<longrightarrow> same_on lo hi m m'" by blast
  have w: "of_nat (p + 12) - 12 = (of_nat p :: u32)" "of_nat p + of_nat n - 8 = (of_nat (p + n - 8) :: u32)"
    "of_nat (p + n - 8) + 8 = (of_nat (p + n) :: u32)"
    using B(2) by (simp_all add: of_nat_diff)
  have "unat (of_nat (p + 12) :: u32) = p + 12" using pn B(2) by (intro unat_of_nat_small) simp
  then have nz: "(of_nat (p + 12) :: u32) \<noteq> 0" by (metis add_eq_0_iff_both_eq_0 unat_0 zero_neq_numeral)
  have "get_size m (of_nat p) = of_nat n" "get_magic m (of_nat p) = heap_magic"
    "get_magic m (of_nat (p + n - 8)) = heap_magic"
    using B(4) FB by (simp_all add: hdr_def ftr_def)
  then have "free kap (of_nat (p + 12)) st =
      res_bind (unify_right (of_nat x) (of_nat (p + n - 8)) (st\<lparr>kmem := m'\<rparr>)) (\<lambda>(footer, st).
        res_bind (contract_end kap (of_nat x) footer (of_nat (p + n)) st) (\<lambda>st.
          if \<not> lh then index_insert (of_nat x) st else Inr st))"
    unfolding free_def if_not_P [OF nz] Let_def w assms(3)
    by (simp add: assert_that_def w m'(1) del: of_nat_add of_nat_diff)
  with m' show ?thesis by blast
qed

lemma free_inner:
  assumes "heap_inv st (pre @ (lh, ln) # (False, n) # (False, n2) # post)" "kheap st = Some h"
    and "oa_size (index h) < max_size (index h)" "p = unat (start_address h) + room pre + ln"
    and "x = (if lh then p - ln else p)"
  shows "\<exists>st'. free kap (of_nat (p + 12)) st = Inr st' \<and>
    heap_inv st' (pre @ (if lh then [(True, ln + n)] else [(False, ln), (True, n)]) @ (False, n2) # post) \<and>
    (\<forall>lo hi. unat (start_address h) \<le> lo \<and> (hi \<le> x \<or> p + n \<le> lo) \<longrightarrow> same_on lo hi (kmem st) (kmem st')) \<and>
    (\<exists>a'. kheap st' = Some (h\<lparr>index := a'\<rparr>))"
proof -
  define a e where "a = unat (start_address h)" and "e = unat (end_address h)"
  from assms(1,2) have inv: "oa_wf (index h)" "less_than (index h) = Some header_t_less_than"
    "unat (oa_size (index h)) \<le> unat (max_size (index h))" "unat (max_size (index h)) \<le> 2 ^ 20"
    "unat (array (index h)) + 4 * unat (max_size (index h)) \<le> a"
    "tiles (kmem st) a (pre @ (lh, ln) # (False, n) # (False, n2) # post) e"
    "mset (oa_list (index h) (kmem st)) =
      image_mset of_nat (mset (holes a (pre @ (lh, ln) # (False, n) # (False, n2) # post)))"
    by (auto simp: a_def e_def elim!: heap_invE)
  have e32: "e < 2 ^ 32" using unat_less_pow [of "end_address h"] by (simp add: e_def)
  define k where "k = (if lh then ln + n else n)"
  have p: "p = a + room pre + ln" using assms(4) by (simp add: a_def)
  from free_start [OF inv(6) e32 refl p assms(5) k_def, of kap] obtain m' where m':
    "free kap (of_nat (p + 12)) st =
      res_bind (unify_right (of_nat x) (of_nat (p + n - 8)) (st\<lparr>kmem := m'\<rparr>)) (\<lambda>(footer, st).
        res_bind (contract_end kap (of_nat x) footer (of_nat (p + n)) st) (\<lambda>st.
          if \<not> lh then index_insert (of_nat x) st else Inr st))"
    "hdr m' x True k" "ftr m' (p + n - 8) x"
    "\<And>lo hi. hi \<le> x \<or> p + n \<le> lo \<Longrightarrow> same_on lo hi (kmem st) m'"
    by blast
  have t3: "tiles (kmem st) a ((pre @ [(lh, ln), (False, n)]) @ (False, n2) # post) e" using inv(6) by simp
  have p3: "a + room (pre @ [(lh, ln), (False, n)]) = p + n" using p by simp
  note R = tiles_block [OF t3, unfolded p3]
  have n20: "20 \<le> n" "20 \<le> ln"
    using tiles_block(2) [OF inv(6)] tiles_block(2) [of "kmem st" a "pre @ [(lh, ln)]" False n "(False, n2) # post" e] inv(6)
    by simp_all
  have xp: "a \<le> x" "x + k = p + n" using p by (auto simp: assms(5) k_def)
  have a32: "a \<le> 2 ^ 32" using R(3) e32 p by simp
  have "hdr m' (p + n) False n2"
    by (rule hdr_cong [OF m'(4) _ R(4)]) (use R(2,3) e32 in auto)
  then have right: "get_is_hole m' (of_nat (p + n)) = 0" by (simp add: hdr_def)
  have w: "of_nat (p + n - 8) + 8 = (of_nat (p + n) :: u32)" using n20 by (simp add: of_nat_diff)
  have "unat (of_nat (p + n) :: u32) = p + n" using R(2,3) e32 by (intro unat_of_nat_small) simp
  then have ne: "of_nat (p + n) \<noteq> end_address h" using R(2,3) by (auto simp: e_def)
  have free: "free kap (of_nat (p + 12)) st = (if \<not> lh then index_insert (of_nat x) (st\<lparr>kmem := m'\<rparr>) else Inr (st\<lparr>kmem := m'\<rparr>))"
    unfolding m'(1) unify_right_def Let_def w
    by (simp add: right contract_end_def w ne with_heap_def assms(2) del: of_nat_add of_nat_diff)
  have idx: "oa_list (index h) m' = oa_list (index h) (kmem st)"
    by (rule oa_list_same_on [of 0 a]) (use m'(4) [of a 0] xp inv(3,5) a32 in simp_all)
  let ?bs = "pre @ (if lh then [(True, ln + n)] else [(False, ln), (True, n)]) @ (False, n2) # post"
  have tiles': "tiles m'' a ?bs e" if s: "same_on a (2 ^ 32) m' m''" for m''
  proof -
    have ok: "block_ok m'' e (x, True, k)"
      by (rule block_ok_cong [of m']) (use m'(2,3) xp n20 R(2,3) e32 same_on_sub [OF s] in \<open>auto simp: block_ok_def k_def\<close>)
    have below: "same_on a x (kmem st) m''" "same_on (p + n) e (kmem st) m''"
      by (rule same_on_trans [OF m'(4) same_on_sub [OF s]]; use xp R(2,3) e32 in simp)+
    show ?thesis
    proof (cases lh)
      case True
      have "tiles m'' a (pre @ [(True, ln + n)] @ ((False, n2) # post)) e"
        by (rule tiles_replace [of "kmem st" a pre "[(lh, ln), (False, n)]" "(False, n2) # post" e])
          (use inv(6) e32 below ok True p in \<open>auto simp: assms(5) k_def add.assoc\<close>)
      then show ?thesis using True by simp
    next
      case False
      have "tiles m'' a ((pre @ [(False, ln)]) @ [(True, n)] @ ((False, n2) # post)) e"
        by (rule tiles_replace [of "kmem st" a "pre @ [(False, ln)]" "[(False, n)]" "(False, n2) # post" e])
          (use inv(6) e32 below ok False p in \<open>auto simp: assms(5) k_def add.assoc\<close>)
      then show ?thesis using False by simp
    qed
  qed
  show ?thesis
  proof (cases lh)
    case True
    have "heap_inv (st\<lparr>kmem := m'\<rparr>) ?bs"
      using True inv tiles' [of m'] assms(2)
      by (simp add: heap_inv_def word_le_nat_alt a_def [symmetric] e_def [symmetric] idx add.assoc)
    moreover have "\<exists>a'. h = h\<lparr>index := a'\<rparr>" by (rule exI [of _ "index h"]) simp
    ultimately show ?thesis using free True m'(4) assms(2) by (intro exI [of _ "st\<lparr>kmem := m'\<rparr>"]) auto
  next
    case False
    let ?st = "st\<lparr>kmem := m'\<rparr>"
    have "\<exists>m'' a'. index_insert (of_nat p) ?st = Inr (set_heap (h\<lparr>index := a'\<rparr>) (?st\<lparr>kmem := m''\<rparr>)) \<and>
        a' = (index h)\<lparr>oa_size := oa_size (index h) + 1\<rparr> \<and> oa_wf a' \<and>
        unat (oa_size a') = Suc (unat (oa_size (index h))) \<and>
        mset (oa_list a' m'') = add_mset (of_nat p) (mset (oa_list (index h) m')) \<and>
        same_on a (2 ^ 32) m' m''"
      using index_insert_spec [of ?st h a "of_nat p"] assms(2,3) inv(1,4,5) a32
      by (simp add: word_less_nat_alt)
    then obtain m'' a' where ins:
      "index_insert (of_nat p) ?st = Inr (set_heap (h\<lparr>index := a'\<rparr>) (?st\<lparr>kmem := m''\<rparr>))"
      "a' = (index h)\<lparr>oa_size := oa_size (index h) + 1\<rparr>" "oa_wf a'"
      "unat (oa_size a') = Suc (unat (oa_size (index h)))"
      "mset (oa_list a' m'') = add_mset (of_nat p) (mset (oa_list (index h) m'))" "same_on a (2 ^ 32) m' m''"
      by blast
    have "heap_inv (set_heap (h\<lparr>index := a'\<rparr>) (?st\<lparr>kmem := m''\<rparr>)) ?bs"
      using False inv tiles' [OF ins(6)] ins(2-5) assms(3) p
      by (simp add: heap_inv_def set_heap_def word_le_nat_alt word_less_nat_alt a_def [symmetric] e_def [symmetric] idx add.assoc)
    moreover have "same_on lo hi (kmem st) m''" if "a \<le> lo" "hi \<le> x \<or> p + n \<le> lo" for lo hi
      using same_on_trans [OF m'(4) same_on_top [OF ins(6)]] that by blast
    ultimately show ?thesis using free False ins(1)
      by (intro exI [of _ "set_heap (h\<lparr>index := a'\<rparr>) (?st\<lparr>kmem := m''\<rparr>)"]) (auto simp: assms(5) set_heap_def a_def)
  qed
qed

lemma free_no_right_hole:
  assumes "heap_inv st (pre @ (lh, ln) # (False, n) # (False, n2) # post)" "kheap st = Some h"
    and "oa_size (index h) < max_size (index h)" "p = unat (start_address h) + room pre + ln"
  shows "\<exists>st'. free kap (of_nat (p + 12)) st = Inr st' \<and>
    heap_inv st' (pre @ (if lh then [(True, ln + n)] else [(False, ln), (True, n)]) @ (False, n2) # post)"
  using free_inner [OF assms refl, of kap] by blast

section \<open>Freeing a block before a hole\<close>

lemma find_header_from_spec:
  "iterator \<le> oa_size a \<Longrightarrow> x \<in> set (drop (unat iterator) (oa_list a m)) \<Longrightarrow>
    \<exists>i. find_header_from a m x iterator = Inr i \<and> i < oa_size a \<and> oa_list a m ! unat i = x"
proof (induction a m x iterator rule: find_header_from.induct)
  case (1 a m x it)
  have "unat it < unat (oa_size a)"
    using 1(3) by (cases "unat it < unat (oa_size a)") (simp_all only: drop_all length_oa_list not_less list.set empty_iff)
  then have True: "it < oa_size a" by (simp add: word_less_nat_alt)
  have lt: "unat it < unat (oa_size a)" using True by (simp add: word_less_nat_alt)
  have look: "lookup_ordered_array it a m = Inr (oa_list a m ! unat it)"
    using True lt by (simp add: lookup_ordered_array_def oa_list_def slot_def)
  have d: "drop (unat it) (oa_list a m) = oa_list a m ! unat it # drop (Suc (unat it)) (oa_list a m)"
    using lt by (intro Cons_nth_drop_Suc [symmetric]) simp
  have u: "unat (it + 1) = Suc (unat it)" by (rule unat_Suc_less [OF True])
  show ?case
  proof (cases "oa_list a m ! unat it = x")
    case here: True
    then show ?thesis using True by (simp add: find_header_from.simps [of a m x it] look)
  next
    case False
    have "it + 1 \<le> oa_size a" using u lt by (simp add: word_le_nat_alt)
    moreover have "x \<in> set (drop (unat (it + 1)) (oa_list a m))" using 1(3) False unfolding d u by simp
    ultimately show ?thesis
      using 1(1) [OF True look False] True False by (simp add: find_header_from.simps [of a m x it] look)
  qed
qed

text \<open>The block at \<open>p\<close> with a block on its left, a hole of \<open>n2\<close> bytes and then a block on its right.\<close>

lemma free_before_hole:
  assumes "heap_inv st (pre @ (False, ln) # (False, n) # (True, n2) # (False, n3) # post)" "kheap st = Some h"
    and "p = unat (start_address h) + room pre + ln"
  shows "\<exists>st' h'. free kap (of_nat (p + 12)) st = Inr st' \<and> kheap st' = Some h' \<and>
    hdr (kmem st') p True (n + n2) \<and>
    get_header (kmem st') (of_nat (p + n + n2 - 8)) = of_nat (p + n) \<and>
    hdr (kmem st') (p + n) True n2 \<and>
    mset (oa_list (index h') (kmem st')) =
      add_mset (of_nat p) (mset (oa_list (index h) (kmem st)) - {#of_nat (p + n)#})"
proof -
  define a e where "a = unat (start_address h)" and "e = unat (end_address h)"
  let ?bs = "pre @ (False, ln) # (False, n) # (True, n2) # (False, n3) # post"
  from assms(1,2) have inv: "oa_wf (index h)" "less_than (index h) = Some header_t_less_than"
    "unat (oa_size (index h)) \<le> unat (max_size (index h))" "unat (max_size (index h)) \<le> 2 ^ 20"
    "unat (array (index h)) + 4 * unat (max_size (index h)) \<le> a"
    "tiles (kmem st) a ?bs e"
    "mset (oa_list (index h) (kmem st)) = image_mset of_nat (mset (holes a ?bs))"
    by (auto simp: a_def e_def elim!: heap_invE)
  have e32: "e < 2 ^ 32" using unat_less_pow [of "end_address h"] by (simp add: e_def)
  have p: "p = a + room pre + ln" using assms(3) by (simp add: a_def)
  have lhF: "p = (if False then p - ln else p)" "n = (if False then ln + n else n)" by simp_all
  from free_start [OF inv(6) e32 refl p lhF, of kap] obtain m1 where m1:
    "free kap (of_nat (p + 12)) st =
      res_bind (unify_right (of_nat p) (of_nat (p + n - 8)) (st\<lparr>kmem := m1\<rparr>)) (\<lambda>(footer, st).
        res_bind (contract_end kap (of_nat p) footer (of_nat (p + n)) st) (\<lambda>st. index_insert (of_nat p) st))"
    "hdr m1 p True n" "ftr m1 (p + n - 8) p"
    "\<And>lo hi. hi \<le> p \<or> p + n \<le> lo \<Longrightarrow> same_on lo hi (kmem st) m1"
    by auto
  define q where "q = p + n"
  have t3: "tiles (kmem st) a ((pre @ [(False, ln), (False, n)]) @ (True, n2) # (False, n3) # post) e"
    and t4: "tiles (kmem st) a ((pre @ [(False, ln), (False, n), (True, n2)]) @ (False, n3) # post) e"
    using inv(6) by simp_all
  have p3: "a + room (pre @ [(False, ln), (False, n)]) = q"
    "a + room (pre @ [(False, ln), (False, n), (True, n2)]) = q + n2" using p by (simp_all add: q_def)
  note H = tiles_block [OF t3, unfolded p3] and R = tiles_block [OF t4, unfolded p3]
  note FH = tiles_footer [OF t3, unfolded p3]
  have n20: "20 \<le> n"
    using tiles_block(2) [of "kmem st" a "pre @ [(False, ln)]" False n "(True, n2) # (False, n3) # post" e] inv(6) by simp
  have q32: "q + n2 + 20 \<le> 2 ^ 32" "q + n2 < e" using R(2,3) e32 by simp_all
  have hq: "hdr m1 q True n2" by (rule hdr_cong [OF m1(4) _ H(4)]) (use q32 in \<open>auto simp: q_def\<close>)
  have fq: "ftr m1 (q + n2 - 8) q" by (rule ftr_cong [OF m1(4) _ FH]) (use q32 H(2) in \<open>auto simp: q_def\<close>)
  define m2 where "m2 = set_size (of_nat p) (of_nat (n + n2)) m1"
  note s2 = hdr_set_size [OF m1(2) _ m2_def]
  have hq2: "hdr m2 q True n2" by (rule hdr_cong [OF s2(2) _ hq]) (use q32 n20 in \<open>auto simp: q_def\<close>)
  have fq2: "ftr m2 (q + n2 - 8) q" by (rule ftr_cong [OF s2(2) _ fq]) (use q32 n20 H(2) in \<open>auto simp: q_def\<close>)
  have hp2: "hdr m2 p True (n + n2)" by (rule s2(1)) (use q32 n20 in \<open>simp add: q_def\<close>)
  have same2: "same_on 0 p (kmem st) m2"
    by (rule same_on_trans [OF m1(4) s2(2)]) (use q32 n20 in \<open>auto simp: q_def\<close>)
  have ap: "a \<le> p" "a \<le> 2 ^ 32" using p q32 by (simp_all add: q_def)
  have idx: "oa_list (index h) m2 = oa_list (index h) (kmem st)"
    by (rule oa_list_same_on [OF same2]) (use ap inv(3,5) q32 in \<open>auto simp: q_def\<close>)
  have "of_nat q \<in># mset (oa_list (index h) (kmem st))"
    unfolding inv(7) using p3(1) by (simp add: p q_def add.assoc)
  then have "of_nat q \<in> set (drop (unat (0 :: u32)) (oa_list (index h) m2))" by (simp add: idx)
  from find_header_from_spec [OF _ this] obtain i where i: "find_header_from (index h) m2 (of_nat q) 0 = Inr i"
    "i < oa_size (index h)" "oa_list (index h) m2 ! unat i = of_nat q" by auto
  have kh: "kheap (st\<lparr>kmem := m2\<rparr>) = Some h" using assms(2) by simp
  from index_remove_spec [OF kh inv(1) i(2), of a] inv(3,5) ap obtain m3 a1 where rem:
    "index_remove i (st\<lparr>kmem := m2\<rparr>) = Inr (set_heap (h\<lparr>index := a1\<rparr>) (st\<lparr>kmem := m3\<rparr>))"
    "a1 = (index h)\<lparr>oa_size := oa_size (index h) - 1\<rparr>" "oa_wf a1"
    "Suc (unat (oa_size a1)) = unat (oa_size (index h))"
    "mset (oa_list a1 m3) = mset (oa_list (index h) (kmem st)) - {#of_nat q#}"
    "same_on a (2 ^ 32) m2 m3"
    using i(3) by (auto simp: idx)
  have w: "of_nat (p + n - 8) + 8 = (of_nat q :: u32)" "of_nat q + of_nat n2 - 8 = (of_nat (q + n2 - 8) :: u32)"
    "of_nat (q + n2 - 8) + 8 = (of_nat (q + n2) :: u32)"
    using n20 H(2) by (simp_all add: of_nat_diff q_def)
  have "unat (of_nat (q + n2) :: u32) = q + n2" using q32 by (intro unat_of_nat_small) simp
  then have ne: "of_nat (q + n2) \<noteq> end_address h" using q32 by (auto simp: e_def)
  have sizes: "get_size m1 (of_nat p) + get_size m1 (of_nat q) = of_nat (n + n2)"
    "get_size m2 (of_nat q) = of_nat n2" "get_magic m1 (of_nat q) = heap_magic" "get_is_hole m1 (of_nat q) = 1"
    using m1(2) hq hq2 by (simp_all add: hdr_def)
  let ?st = "set_heap (h\<lparr>index := a1\<rparr>) (st\<lparr>kmem := m3\<rparr>)"
  have free: "free kap (of_nat (p + 12)) st = index_insert (of_nat p) ?st"
    unfolding m1(1) unify_right_def Let_def w
    using rem(1) i(1,2) ne
    by (simp add: on_mem_def sizes m2_def [symmetric] with_heap_def assms(2) assert_that_def w
        contract_end_def set_heap_def del: of_nat_add of_nat_diff)
  have "\<exists>m4 a2. index_insert (of_nat p) ?st = Inr (set_heap (h\<lparr>index := a1\<rparr>\<lparr>index := a2\<rparr>) (?st\<lparr>kmem := m4\<rparr>)) \<and>
      a2 = a1\<lparr>oa_size := oa_size a1 + 1\<rparr> \<and> oa_wf a2 \<and> unat (oa_size a2) = Suc (unat (oa_size a1)) \<and>
      mset (oa_list a2 m4) = add_mset (of_nat p) (mset (oa_list a1 m3)) \<and> same_on a (2 ^ 32) m3 m4"
    using index_insert_spec [of ?st "h\<lparr>index := a1\<rparr>" a "of_nat p"] rem(2-4) inv(3-5) ap
    by (simp add: set_heap_def)
  then obtain m4 a2 where ins:
    "index_insert (of_nat p) ?st = Inr (set_heap (h\<lparr>index := a1\<rparr>\<lparr>index := a2\<rparr>) (?st\<lparr>kmem := m4\<rparr>))"
    "mset (oa_list a2 m4) = add_mset (of_nat p) (mset (oa_list a1 m3))" "same_on a (2 ^ 32) m3 m4"
    by blast
  have s24: "same_on lo hi m2 m4" if "a \<le> lo" "hi \<le> 2 ^ 32" for lo hi
    by (rule same_on_sub [OF same_on_trans [OF rem(6) ins(3)] that])
  have "hdr m4 p True (n + n2)" by (rule hdr_cong [OF s24 _ hp2]) (use ap q32 n20 in \<open>auto simp: q_def\<close>)
  moreover have "hdr m4 q True n2" by (rule hdr_cong [OF s24 _ hq2]) (use ap q32 in \<open>auto simp: q_def\<close>)
  moreover have "ftr m4 (q + n2 - 8) q" by (rule ftr_cong [OF s24 _ fq2]) (use ap q32 H(2) in \<open>auto simp: q_def\<close>)
  ultimately show ?thesis
    using free ins(1,2) rem(5) unfolding q_def [symmetric]
    by (intro exI [of _ "set_heap (h\<lparr>index := a1\<rparr>\<lparr>index := a2\<rparr>) (?st\<lparr>kmem := m4\<rparr>)"] exI [of _ "h\<lparr>index := a2\<rparr>"])
      (simp add: set_heap_def ftr_def q_def)
qed

section \<open>Properties of free\<close>

text \<open>Allocating twice or three times from the heap at boot.\<close>

lemma alloc_step:
  assumes "heap_inv st (replicate c (False, 120) @ [(True, k)])" "kheap st = Some h" "140 \<le> k"
    and "start_address h = 0x01081000" "max_size (index h) = 0x20000"
  shows "\<exists>st' h'. heap_inv st' (replicate (Suc c) (False, 120) @ [(True, k - 120)]) \<and> kheap st' = Some h' \<and>
    start_address h' = 0x01081000 \<and> max_size (index h') = 0x20000"
proof -
  have eq: "pre = replicate c (False, 120) \<and> k' = k \<and> post = []"
    if "replicate c (False, 120) @ [(True, k)] = pre @ (True, k') # post" for pre post :: "(bool \<times> nat) list" and k'
  proof -
    have "filter fst (pre @ (True, k') # post) = [(True, k)]" unfolding that [symmetric] by simp
    then have "filter fst pre = [] \<and> k' = k \<and> filter fst post = []"
      by (auto simp: append_eq_Cons_conv)
    then have "\<forall>b \<in> set pre. \<not> fst b" "\<forall>b \<in> set post. \<not> fst b" "k' = k" by (simp_all add: filter_empty_conv)
    moreover have "post = []"
    proof (rule ccontr)
      assume "post \<noteq> []"
      then have "last (pre @ (True, k') # post) = last post" by simp
      then have "last post = (True, k)" unfolding that [symmetric] by simp
      then show False using \<open>post \<noteq> []\<close> \<open>\<forall>b \<in> set post. \<not> fst b\<close> last_in_set [of post] by fastforce
    qed
    ultimately show ?thesis using that by simp
  qed
  have "(True, k) \<in> set (replicate c (False, 120) @ [(True, k)])" by simp
  from alloc_fits [OF assms(1) _ this _ assms(2), of 100 0] assms(3) obtain pre k' post p st' a where st':
    "replicate c (False, 120) @ [(True, k)] = pre @ (True, k') # post"
    "heap_inv st' (pre @ take_hole k' 120 @ post)" "kheap st' = Some (h\<lparr>index := a\<rparr>)"
    "max_size a = max_size (index h)"
    by auto
  have "pre @ take_hole k' 120 @ post = replicate (Suc c) (False, 120) @ [(True, k - 120)]"
    using eq [OF st'(1)] assms(3) by (simp add: take_hole_def replicate_append_same)
  then show ?thesis using st'(2-4) assms(4,5) by auto
qed

lemma blocks_example:
  "\<exists>st h. heap_inv st [(False, 120), (False, 120), (False, 120), (False, 120), (True, 0x7F000 - 480)] \<and>
    kheap st = Some h \<and> start_address h = 0x01081000 \<and> oa_size (index h) < max_size (index h)"
proof -
  obtain h0 where "kheap boot_heap = Some h0" "start_address h0 = 0x01081000" "max_size (index h0) = 0x20000"
    using boot_heap_facts(2) by blast
  from alloc_step [of boot_heap 0 "0x7F000", OF _ this(1) _ this(2,3)] boot_heap_facts(1) obtain st1 h1 where
    s1: "heap_inv st1 (replicate (Suc 0) (False, 120) @ [(True, 0x7F000 - 120)])" "kheap st1 = Some h1"
    "start_address h1 = 0x01081000" "max_size (index h1) = 0x20000" by auto
  from alloc_step [OF s1(1,2) _ s1(3,4)] obtain st2 h2 where
    s2: "heap_inv st2 (replicate (Suc (Suc 0)) (False, 120) @ [(True, 0x7F000 - 240)])" "kheap st2 = Some h2"
    "start_address h2 = 0x01081000" "max_size (index h2) = 0x20000" by auto
  from alloc_step [OF s2(1,2) _ s2(3,4)] obtain st3 h3 where
    s3: "heap_inv st3 (replicate (Suc (Suc (Suc 0))) (False, 120) @ [(True, 0x7F000 - 360)])" "kheap st3 = Some h3"
    "start_address h3 = 0x01081000" "max_size (index h3) = 0x20000" by auto
  from alloc_step [OF s3(1,2) _ s3(3,4)] obtain st4 h4 where
    s4: "heap_inv st4 (replicate (Suc (Suc (Suc (Suc 0)))) (False, 120) @ [(True, 0x7F000 - 480)])"
    "kheap st4 = Some h4" "start_address h4 = 0x01081000" "max_size (index h4) = 0x20000" by auto
  have "size (mset (oa_list (index h4) (kmem st4))) = 1"
    using s4(1,2) by (auto simp: heap_inv_def)
  then have "oa_size (index h4) < max_size (index h4)"
    using s4(4) by (simp add: word_less_nat_alt)
  then show ?thesis using s4(1-3) by (intro exI [of _ st4] exI [of _ h4]) simp
qed

text \<open>
  C9. With room left in the index, freeing a block between two others, the right one in use, keeps the heap whole: the block
  becomes a hole of the index, and is merged with its left neighbour when that is a hole.
\<close>
theorem free_keeps_heap:
  assumes "heap_inv st (pre @ (lh, ln) # (False, n) # (False, n2) # post)" "kheap st = Some h"
    and "oa_size (index h) < max_size (index h)" "p = unat (start_address h) + room pre + ln"
  shows "\<exists>st'. free kap (of_nat (p + 12)) st = Inr st' \<and>
    heap_inv st' (pre @ (if lh then [(True, ln + n)] else [(False, ln), (True, n)]) @ (False, n2) # post)"
  using assms by (rule free_no_right_hole)

lemma free_keeps_heap_witness:
  "\<exists>st st'. free early_table_alloc 0x01081084 st = Inr st' \<and>
    heap_inv st' [(False, 120), (True, 120), (False, 120), (False, 120), (True, 0x7F000 - 480)]"
proof -
  obtain st h where
    "heap_inv st ([] @ (False, 120) # (False, 120) # (False, 120) # [(False, 120), (True, 0x7F000 - 480)])"
    "kheap st = Some h" "start_address h = 0x01081000" "oa_size (index h) < max_size (index h)"
    using blocks_example by auto
  from free_keeps_heap [OF this(1,2,4) refl, of early_table_alloc] this(3) show ?thesis
    by (auto intro!: exI [of _ st])
qed

text \<open>
  Freeing a block with a hole on its right grows its header over the hole and takes the hole
  out of the index, but leaves the footer of the hole as it was: it names the header at \<open>p + n\<close>
  which is no longer a block's but still says hole, so the heap is no longer whole and the
  block after it, when freed, is merged into a hole that the index does not list.
\<close>
theorem free_before_hole_stale_footer:
  assumes "heap_inv st (pre @ (False, ln) # (False, n) # (True, n2) # (False, n3) # post)" "kheap st = Some h"
    and "p = unat (start_address h) + room pre + ln"
  shows "\<exists>st' h'. free kap (of_nat (p + 12)) st = Inr st' \<and> kheap st' = Some h' \<and>
    hdr (kmem st') p True (n + n2) \<and>
    get_header (kmem st') (of_nat (p + n + n2 - 8)) = of_nat (p + n) \<and>
    hdr (kmem st') (p + n) True n2 \<and>
    mset (oa_list (index h') (kmem st')) =
      add_mset (of_nat p) (mset (oa_list (index h) (kmem st)) - {#of_nat (p + n)#})"
  using assms by (rule free_before_hole)

lemma free_before_hole_stale_footer_witness:
  "\<exists>st p st'. free early_table_alloc (of_nat (p + 12)) st = Inr st' \<and>
    hdr (kmem st') p True 240 \<and> get_header (kmem st') (of_nat (p + 232)) = of_nat (p + 120) \<and>
    hdr (kmem st') (p + 120) True 120"
proof -
  obtain st h where
    "heap_inv st ([(False, 120)] @ (False, 120) # (False, 120) # (False, 120) # [(True, 0x7F000 - 480)])"
    "kheap st = Some h" "oa_size (index h) < max_size (index h)"
    using blocks_example by auto
  from free_no_right_hole [OF this refl, of early_table_alloc] obtain st1 where
    st1: "heap_inv st1 ([] @ (False, 120) # (False, 120) # (True, 120) # (False, 120) # [(True, 0x7F000 - 480)])"
    by auto
  obtain h1 where "kheap st1 = Some h1" using st1 by (elim heap_invE)
  from free_before_hole_stale_footer [OF st1 this refl, of early_table_alloc] obtain st' where
    "free early_table_alloc (of_nat (unat (start_address h1) + room [] + 120 + 12)) st1 = Inr st'"
    "hdr (kmem st') (unat (start_address h1) + room [] + 120) True (120 + 120)"
    "get_header (kmem st') (of_nat (unat (start_address h1) + room [] + 120 + 120 + 120 - 8)) =
      of_nat (unat (start_address h1) + room [] + 120 + 120)"
    "hdr (kmem st') (unat (start_address h1) + room [] + 120 + 120) True 120"
    by blast
  then show ?thesis
    by (intro exI [of _ st1] exI [of _ "unat (start_address h1) + room [] + 120"] exI [of _ st'])
      (simp add: add.commute)
qed

end
