(* ===== verification/Paging_Init.thy ===== *)
theory Paging_Init
  imports Paging
begin

text \<open>
  What \<^verbatim>\<open>paging_init\<close> leaves behind, for every memory size the bitmap can describe without
  running into the page directory and every content of memory before: the processor then
  translates every address below the placement address to itself and nothing else.
  \<open>page_source\<close> is the contract \<^verbatim>\<open>get_page\<close> relies on when it needs a page table,
  interpreted on the allocator of \<open>Memory_State\<close>.
\<close>

section \<open>Words under memset\<close>

lemma load32_memset_inside:
  assumes "unat (a - p) + 3 < unat n"
  shows "load32 (memset m p 0 n) a = 0"
proof -
  have "in_range p (unat n) (a + of_nat k)" if "k < 4" for k
  proof -
    have "unat (a - p) + k < unat n" using assms that by simp
    moreover from this have "unat (a - p) + k < 2 ^ 32"
      using unat_less_pow [of n] by simp
    ultimately have "unat (a - p + of_nat k) < unat n"
      by (simp add: unat_word_ariths unat_of_nat)
    moreover have "a + of_nat k - p = a - p + of_nat k" by simp
    ultimately show ?thesis by (simp only: in_range_def)
  qed
  from this [of 0] this [of 1] this [of 2] this [of 3] show ?thesis
    by (simp add: load32_def memset_def memset_loop_eq)
qed

lemma load32_memset_outside:
  assumes "unat n \<le> unat (a - p)" "unat (a - p) + 3 < 2 ^ 32"
  shows "load32 (memset m p v n) a = load32 m a"
proof (rule load32_cong)
  fix k :: u32 assume "unat k < 4"
  then have "unat (a - p + k) = unat (a - p) + unat k"
    using assms(2) by (simp add: unat_word_ariths)
  moreover have "a + k - p = a - p + k" by simp
  ultimately have "\<not> in_range p (unat n) (a + k)"
    using assms(1) by (simp only: in_range_def)
  then show "memset m p v n (a + k) = m (a + k)"
    by (simp add: memset_def memset_loop_eq)
qed

section \<open>The tables while memory is being mapped\<close>

text \<open>
  The layout the first allocations give: the bitmap at \<open>0x200000\<close>, the directory at \<open>0x201000\<close>,
  the only page table at \<open>0x204000\<close>. \<open>mapped N p st\<close>: the first \<open>p\<close> pages have been mapped, to
  the first \<open>p\<close> frames, and the other ones of the first \<open>N\<close> frames are free. The code clears only
  a quarter of the bitmap, hence the bound on \<open>N\<close>.
\<close>

definition dir_ok :: "nat \<Rightarrow> kst \<Rightarrow> bool" where
  "dir_ok N st \<longleftrightarrow> kernel_directory st = 0x201000 \<and> frames st = 0x200000 \<and>
     544 \<le> N \<and> N mod 32 = 0 \<and> 4 * N \<le> unat (nframes st) \<and> unat (nframes st) \<le> 32768 \<and> kheap st = None \<and>
     load32 (kmem st) 0x203000 = 0x201000 \<and>
     (\<forall>i. 0 < i \<and> i < 1024 \<longrightarrow> load32 (kmem st) (0x201000 + 4 * of_nat i) = 0)"

definition mapped :: "nat \<Rightarrow> nat \<Rightarrow> kst \<Rightarrow> bool" where
  "mapped N p st \<longleftrightarrow> dir_ok N st \<and> placement_address st = 0x205000 \<and>
     load32 (kmem st) 0x201000 = 0x204007 \<and> load32 (kmem st) 0x202000 = 0x204000 \<and>
     (\<forall>g < N. frame_bit st g = (g < p)) \<and>
     (\<forall>q < 1024. load32 (kmem st) (0x204000 + 4 * of_nat q) =
        (if q < p then page_entry (of_nat q) False False 0 else 0))"

lemma unat_base_word:
  "b + 4 * n < 2 ^ 32 \<Longrightarrow> unat (of_nat b + 4 * of_nat n :: u32) = b + 4 * n"
  using unat_of_nat_small [of "b + 4 * n", where 'a = 32] by simp

lemma base_words:
  "n < 1024 \<Longrightarrow> unat (0x200000 + 4 * of_nat n :: u32) = 0x200000 + 4 * n"
  "n < 1024 \<Longrightarrow> unat (0x201000 + 4 * of_nat n :: u32) = 0x201000 + 4 * n"
  "n < 1024 \<Longrightarrow> unat (0x202000 + 4 * of_nat n :: u32) = 0x202000 + 4 * n"
  "n < 1024 \<Longrightarrow> unat (0x204000 + 4 * of_nat n :: u32) = 0x204000 + 4 * n"
  using unat_base_word [of "0x200000" n] unat_base_word [of "0x201000" n]
    unat_base_word [of "0x202000" n] unat_base_word [of "0x204000" n]
  by simp_all

lemma aligned4_base:
  "aligned4 (0x200000 + 4 * i)" "aligned4 (0x201000 + 4 * i)" "aligned4 (0x202000 + 4 * i)"
  "aligned4 (0x204000 + 4 * i)" "aligned4 0x200000" "aligned4 0x201000" "aligned4 0x202000"
  "aligned4 0x203000" "aligned4 0x204000"
  by (rule aligned4_add [OF _ aligned4_mult(1)], simp add: aligned4_def)+
    (simp_all add: aligned4_def)

lemma outside_bitmap_layout:
  assumes "dir_ok N st" "aligned4 a" "0x201000 \<le> unat a"
  shows "outside_bitmap st a"
proof -
  have "a \<noteq> 0x200000 + 4 * of_nat j" if "j < unat (nframes st) div 32" for j
  proof -
    have "j < 1024" using that assms(1) by (auto simp: dir_ok_def)
    then show ?thesis using assms(3) base_words(1) [of j] by auto
  qed
  then show ?thesis using assms(1,2) by (simp add: outside_bitmap_def dir_ok_def aligned4_base)
qed

lemma managed_layout: "dir_ok N st \<Longrightarrow> N \<le> managed_frames st"
  by (auto simp: dir_ok_def managed_frames_def)

lemma page_number:
  assumes "p < 1024"
  shows "drop_bit 12 (of_nat (4096 * p) :: u32) = of_nat p" "drop_bit 10 (of_nat p :: u32) = 0"
    "(of_nat p :: u32) mod 1024 = of_nat p"
proof -
  show "drop_bit 12 (of_nat (4096 * p) :: u32) = of_nat p"
    using assms by (simp only: drop_bit_eq_div word_unat_eq_iff unat_div)
      (simp add: unat_of_nat_small unat_of_nat del: of_nat_mult)
  show "drop_bit 10 (of_nat p :: u32) = 0"
    using assms by (simp only: drop_bit_eq_div word_unat_eq_iff unat_div) (simp add: unat_of_nat_small)
  show "(of_nat p :: u32) mod 1024 = of_nat p"
    using assms by (simp only: word_unat_eq_iff unat_mod) (simp add: unat_of_nat_small)
qed

lemma get_page_mapped:
  assumes "mapped N p st" "q < 1024"
  shows "get_page kap (of_nat (4096 * q)) (kernel_directory st) st = Inr (0x204000 + 4 * of_nat q, st)"
  using assms
  by (simp add: get_page_def page_number table_present_def mapped_def dir_ok_def Let_def del: of_nat_mult)

lemma mapped_step_state:
  assumes "mapped N p st" "p < N" "p < 1024"
  shows "\<exists>st'. alloc_frame (0x204000 + 4 * of_nat p) False False st = (of_nat p, st') \<and>
    mapped N (Suc p) st' \<and> st' = st\<lparr>kmem := kmem st'\<rparr>"
proof -
  let ?page = "0x204000 + 4 * of_nat p :: u32"
  have d: "dir_ok N st" using assms(1) by (simp add: mapped_def)
  note p = assms(3)
  have out: "outside_bitmap st (0x204000 + 4 * of_nat q)" if "q < 1024" for q
    by (rule outside_bitmap_layout [OF d]) (use base_words(4) [OF that] in \<open>simp_all add: aligned4_base\<close>)
  have old: "load32 (kmem st) ?page = 0" using assms p by (simp add: mapped_def)
  have bits: "frame_bit st g = (g < p)" if "g < N" for g
    using assms(1) that by (simp add: mapped_def)
  have "\<exists>st'. alloc_frame ?page False False st = (of_nat p, st') \<and>
      load32 (kmem st') ?page = page_entry (of_nat p) False False (load32 (kmem st) ?page) \<and>
      (\<forall>g < managed_frames st. frame_bit st' g = (g = p \<or> frame_bit st g)) \<and>
      (\<forall>b. outside_bitmap st b \<and> b \<noteq> ?page \<longrightarrow> load32 (kmem st') b = load32 (kmem st) b) \<and>
      st' = st\<lparr>kmem := kmem st'\<rparr>"
  proof (rule alloc_frame_least [OF _ out [OF p]])
    show "unat (nframes st) \<le> 2 ^ 20" using d by (simp add: dir_ok_def)
    show "page_frame_addr (load32 (kmem st) ?page) = 0" by (simp add: old page_frame_addr_def)
    show "p < managed_frames st" using managed_layout [OF d] assms(2) by simp
    show "\<not> frame_bit st p" using bits [of p] assms(2) by simp
    show "frame_bit st g" if "g < p" for g using bits [of g] assms(2) that by simp
  qed
  then obtain st' where st': "alloc_frame ?page False False st = (of_nat p, st')"
    "load32 (kmem st') ?page = page_entry (of_nat p) False False 0"
    "\<And>g. g < managed_frames st \<Longrightarrow> frame_bit st' g = (g = p \<or> frame_bit st g)"
    "\<And>b. outside_bitmap st b \<Longrightarrow> b \<noteq> ?page \<Longrightarrow> load32 (kmem st') b = load32 (kmem st) b"
    "st' = st\<lparr>kmem := kmem st'\<rparr>"
    unfolding old by blast
  have fields: "kernel_directory st' = kernel_directory st" "frames st' = frames st"
    "nframes st' = nframes st" "kheap st' = kheap st" "placement_address st' = placement_address st"
    by (subst st'(5), simp)+
  have below: "load32 (kmem st') b = load32 (kmem st) b"
    if "aligned4 b" "0x201000 \<le> unat b" "unat b < 0x204000" for b
  proof (rule st'(4) [OF outside_bitmap_layout [OF d that(1,2)]])
    show "b \<noteq> ?page" using that(3) base_words(4) [OF p] by auto
  qed
  have "load32 (kmem st') (0x201000 + 4 * of_nat i) = load32 (kmem st) (0x201000 + 4 * of_nat i)"
    if "i < 1024" for i
    using below base_words(2) [OF that] that by (simp add: aligned4_base)
  moreover have "load32 (kmem st') 0x201000 = load32 (kmem st) 0x201000"
    "load32 (kmem st') 0x202000 = load32 (kmem st) 0x202000"
    "load32 (kmem st') 0x203000 = load32 (kmem st) 0x203000"
    using below by (simp_all add: aligned4_base)
  moreover have "load32 (kmem st') (0x204000 + 4 * of_nat q) =
      (if q = p then page_entry (of_nat p) False False 0 else load32 (kmem st) (0x204000 + 4 * of_nat q))"
    if "q < 1024" for q
    using st'(2) st'(4) [OF out [OF that]] word_offset_inj [of 1024 q p] that p by auto
  moreover have "frame_bit st' g = (g < Suc p)" if "g < N" for g
    using st'(3) [of g] bits [OF that] managed_layout [OF d] that by auto
  ultimately have "mapped N (Suc p) st'"
    using assms(1) by (auto simp: mapped_def dir_ok_def fields less_Suc_eq)
  then show ?thesis using st'(1,5) by blast
qed

lemma mapped_step:
  assumes "mapped N p st" "p < N" "p < 1024"
  shows "\<exists>st'. alloc_frame (0x204000 + 4 * of_nat p) False False st = (of_nat p, st') \<and> mapped N (Suc p) st'"
  using mapped_step_state [OF assms] by blast

lemma map_used_mapped:
  "mapped N p st \<Longrightarrow> p \<le> 517 \<Longrightarrow> 517 - p < fuel \<Longrightarrow>
    \<exists>st'. map_used fuel (of_nat (4096 * p)) (of_nat p) st = Inr (517, st') \<and> mapped N 517 st'"
proof (induction fuel arbitrary: p st)
  case 0
  then show ?case by simp
next
  case (Suc fuel)
  have i: "unat (of_nat (4096 * p) :: u32) = 4096 * p"
    using Suc.prems(2) by (intro unat_of_nat_small) simp
  have pl: "placement_address st = 0x205000" using Suc.prems(1) by (simp add: mapped_def)
  show ?case
  proof (cases "p = 517")
    case True
    then have "\<not> of_nat (4096 * p) < (0x205000 :: u32)"
      unfolding word_less_nat_alt i by simp
    then show ?thesis using Suc.prems(1) True by (simp add: pl)
  next
    case False
    then have p: "p < 517" using Suc.prems(2) by simp
    then have lt: "of_nat (4096 * p) < (0x205000 :: u32)"
      unfolding word_less_nat_alt i by simp
    have "p < N" "p < 1024" using Suc.prems(1) p by (simp_all add: mapped_def dir_ok_def)
    from mapped_step [OF Suc.prems(1) this] obtain st1 where st1:
      "alloc_frame (0x204000 + 4 * of_nat p) False False st = (of_nat p, st1)" "mapped N (Suc p) st1"
      by blast
    have "of_nat (4096 * p) + page_size = (of_nat (4096 * Suc p) :: u32)"
      "of_nat p + 1 = (of_nat (Suc p) :: u32)" by simp_all
    moreover have "\<exists>st'. map_used fuel (of_nat (4096 * Suc p)) (of_nat (Suc p)) st1 = Inr (517, st') \<and>
        mapped N 517 st'"
      by (rule Suc.IH [OF st1(2)]) (use p Suc.prems(3) in simp_all)
    ultimately show ?thesis
      using get_page_mapped [OF Suc.prems(1), of p early_table_alloc] p lt st1(1)
      by (simp add: pl add.commute del: of_nat_mult of_nat_Suc)
  qed
qed

section \<open>From the first allocation to the last page\<close>

text \<open>What the allocations before the loop leave.\<close>

definition set_up :: "nat \<Rightarrow> kst \<Rightarrow> bool" where
  "set_up N st \<longleftrightarrow> dir_ok N st \<and> placement_address st = 0x203004 \<and>
     load32 (kmem st) 0x201000 = 0 \<and> (\<forall>g < N. \<not> frame_bit st g)"

lemma paging_setup_set_up:
  assumes "544 \<le> N" "N mod 32 = 0" "16 * N \<le> unat available_mem" "unat available_mem \<le> 131072"
    and "placement_address st = 0x200000" "kheap st = None"
  shows "set_up N (paging_setup available_mem st)"
proof -
  define nf where "nf = (available_mem * 1024) div page_size"
  have "unat (available_mem * 1024) = unat available_mem * 1024"
    using assms(4) by (simp add: unat_word_ariths)
  then have "unat nf = unat available_mem div 4"
    by (simp add: nf_def unat_div)
  then have nf: "4 * N \<le> unat nf" "unat nf \<le> 32768" using assms(3,4) by simp_all
  have N: "N = 32 * (N div 32)" using assms(2) mult_div_mod_eq [of 32 N] by simp
  have w: "unat (nf div 32) = unat nf div 32" "4 * (N div 32) \<le> unat nf div 32" "unat nf div 32 \<le> 1024"
  proof -
    have "32 * (4 * (N div 32)) \<le> unat nf" using nf(1) N by linarith
    then show "4 * (N div 32) \<le> unat nf div 32" by (simp add: less_eq_div_iff_mult_less_eq mult.commute)
  qed (use nf in \<open>simp_all add: unat_div\<close>)
  have words: "N div 32 \<le> 256" using nf by linarith
  define m1 where "m1 = memset (kmem st) 0x200000 0 (nf div 32)"
  define m2 where "m2 = memset m1 0x201000 0 8196"
  define m3 where "m3 = store32 m2 0x203000 0x201000"
  have p1: "unat (0x200000 + nf div 32) = 0x200000 + unat nf div 32"
    using w by (simp add: unat_word_ariths)
  have mask: "(0x200000 + nf div 32) AND 0xFFFFF000 = (0x200000 :: u32)"
    using w p1 by (simp add: word_unat_eq_iff unat_page_mask)
  define st3 where "st3 = paging_setup available_mem st"
  have st3: "kmem st3 = m3" "placement_address st3 = 0x203004" "frames st3 = 0x200000"
    "kernel_directory st3 = 0x201000" "nframes st3 = nf" "kheap st3 = None"
    using assms(5,6)
    by (simp_all add: st3_def paging_setup_def placement_alloc_def mask m3_def m2_def m1_def Let_def
        flip: nf_def)
  have dir: "load32 m3 (0x201000 + 4 * of_nat i) = 0" if "i < 1024" for i
  proof -
    have "load32 m3 (0x201000 + 4 * of_nat i) = load32 m2 (0x201000 + 4 * of_nat i)"
      using base_words(2) [OF that] that
      by (auto simp: m3_def load32_store32_aligned aligned4_base)
    also have "\<dots> = 0"
      unfolding m2_def using unat_word_offset [of 1024 i] that
      by (intro load32_memset_inside) simp
    finally show ?thesis .
  qed
  have "load32 m3 (0x200000 + 4 * of_nat j) = 0" if "j < N div 32" for j
  proof -
    have j: "j < 256" using that words by simp
    have "(0x203000 :: u32) \<noteq> 0x200000 + 4 * of_nat j"
      using base_words(1) [of j] j by auto
    then have "load32 m3 (0x200000 + 4 * of_nat j) = load32 m2 (0x200000 + 4 * of_nat j)"
      by (simp add: m3_def load32_store32_aligned aligned4_base)
    also have "\<dots> = load32 m1 (0x200000 + 4 * of_nat j)"
    proof -
      define d :: u32 where "d = 0x1000 - 4 * of_nat j"
      have ud: "unat d = 0x1000 - 4 * j"
        unfolding d_def using unat_word_offset [of 1024 j] j
        by (subst unat_sub_le) (auto simp: word_le_nat_alt)
      then have "d \<noteq> 0" using j by auto
      then have "unat (- d) = 2 ^ 32 - (0x1000 - 4 * j)" by (simp add: unat_neg ud)
      moreover have "(0x200000 + 4 * of_nat j) - (0x201000 :: u32) = - d" by (simp add: d_def)
      ultimately have "unat ((0x200000 + 4 * of_nat j) - (0x201000 :: u32)) = 2 ^ 32 - (0x1000 - 4 * j)"
        by (simp only:)
      then show ?thesis
        unfolding m2_def using j by (intro load32_memset_outside) simp_all
    qed
    also have "\<dots> = 0"
      unfolding m1_def using unat_word_offset [of 1024 j] that j w
      by (intro load32_memset_inside) simp
    finally show ?thesis .
  qed
  moreover have "g div 32 < N div 32" if "g < N" for g
    using that N by (simp add: div_less_iff_less_mult mult.commute)
  ultimately have "\<not> frame_bit st3 g" if "g < N" for g
    using that by (simp add: frame_bit_def frame_word_def st3)
  moreover have "load32 m3 0x203000 = 0x201000" by (simp add: m3_def)
  ultimately show ?thesis
    unfolding set_up_def dir_ok_def st3_def [symmetric] using dir dir [of 0] nf assms(1,2) by (simp add: st3)
qed

lemma frame_bit_cong:
  "frames st' = frames st \<Longrightarrow>
    load32 (kmem st') (frames st + 4 * of_nat (g div 32)) = load32 (kmem st) (frames st + 4 * of_nat (g div 32)) \<Longrightarrow>
    frame_bit st' g = frame_bit st g"
  by (simp add: frame_bit_def frame_word_def)

lemma get_first_page:
  assumes "set_up N st"
  shows "\<exists>st'. get_page early_table_alloc 0 (kernel_directory st) st = Inr (0x204000, st') \<and> mapped N 0 st'"
proof -
  have d: "dir_ok N st" and z: "load32 (kmem st) 0x201000 = 0" and pl: "placement_address st = 0x203004"
    and dir: "kernel_directory st = 0x201000" and fr: "frames st = 0x200000"
    using assms by (simp_all add: set_up_def dir_ok_def)
  have mask: "(0x203004 AND 0xFFFFF000 :: u32) = 0x203000"
    by (simp add: word_unat_eq_iff unat_page_mask)
  define m1 where "m1 = store32 (kmem st) 0x202000 0x204000"
  define m2 where "m2 = memset m1 0x204000 0 page_size"
  define m3 where "m3 = store32 m2 0x201000 (0x204000 OR 7)"
  define st' where "st' = st\<lparr>placement_address := 0x205000, kmem := m3\<rparr>"
  have below: "load32 m2 a = load32 m1 a" if "unat a < 0x204000" "aligned4 a" for a
  proof -
    have "unat (a - 0x204000) = 2 ^ 32 - (0x204000 - unat a)"
      using that unat_sub_if' [of a "0x204000"] by simp
    moreover have "4 dvd unat a" using that(2) by (simp add: aligned4_def)
    then have "unat a + 4 \<le> 0x204000" using that(1) by presburger
    ultimately show ?thesis
      unfolding m2_def by (intro load32_memset_outside) simp_all
  qed
  have m3: "load32 m3 a = (if a = 0x201000 then 0x204007 else if a = 0x202000 then 0x204000 else load32 (kmem st) a)"
    if "unat a < 0x204000" "aligned4 a" for a
    using that below [of a] by (simp add: m3_def m1_def load32_store32_aligned aligned4_base)
  have table: "load32 m3 (0x204000 + 4 * of_nat q) = 0" if "q < 1024" for q
  proof -
    have "load32 m2 (0x204000 + 4 * of_nat q) = 0"
      unfolding m2_def using unat_word_offset [of 1024 q] that by (intro load32_memset_inside) simp
    moreover have "unat (0x204000 + 4 * of_nat q :: u32) \<noteq> unat (0x201000 :: u32)"
      unfolding base_words(4) [OF that] by simp
    then have "0x201000 \<noteq> (0x204000 + 4 * of_nat q :: u32)" by metis
    ultimately show ?thesis by (simp add: m3_def load32_store32_aligned aligned4_base)
  qed
  have dirw: "load32 m3 (0x201000 + 4 * of_nat i) = load32 (kmem st) (0x201000 + 4 * of_nat i)"
    if "0 < i" "i < 1024" for i
    using base_words(2) [OF that(2)] that word_offset_inj [of 1024 i 0]
    by (subst m3) (auto simp: aligned4_base)
  have bits: "\<not> frame_bit st' g" if "g < N" for g
  proof -
    have "N \<le> 8192" using d unfolding dir_ok_def by linarith
    then have "g div 32 < 1024" using that by (simp add: div_less_iff_less_mult)
    from base_words(1) [OF this] \<open>g div 32 < 1024\<close>
    have "load32 m3 (0x200000 + 4 * of_nat (g div 32)) = load32 (kmem st) (0x200000 + 4 * of_nat (g div 32))"
      by (subst m3) (auto simp: aligned4_base)
    then have "frame_bit st' g = frame_bit st g"
      by (intro frame_bit_cong) (simp_all add: st'_def fr)
    then show ?thesis using assms that by (simp add: set_up_def)
  qed
  have "mapped N 0 st'"
    using d bits table dirw m3 [of "0x201000"] m3 [of "0x202000"] m3 [of "0x203000"]
    by (simp add: mapped_def dir_ok_def st'_def aligned4_base)
  moreover have "get_page early_table_alloc 0 (kernel_directory st) st = Inr (0x204000, st')"
    using m3 [of "0x202000"]
    by (simp add: get_page_def table_present_def early_table_alloc_def placement_alloc_def z dir pl mask
        st'_def m3_def m2_def m1_def aligned4_base Let_def)
  ultimately show ?thesis by blast
qed

lemma map_used_set_up:
  assumes "set_up N st" "518 \<le> fuel"
  shows "\<exists>st'. map_used fuel 0 0 st = Inr (517, st') \<and> mapped N 517 st'"
proof -
  from assms(2) obtain f where f: "fuel = Suc f" "517 \<le> f" by (cases fuel) auto
  from get_first_page [OF assms(1)] obtain st1 where st1:
    "get_page early_table_alloc 0 (kernel_directory st) st = Inr (0x204000, st1)" "mapped N 0 st1"
    by blast
  from mapped_step [OF st1(2)] obtain st2 where st2:
    "alloc_frame 0x204000 False False st1 = (0, st2)" "mapped N 1 st2"
    using st1(2) by (auto simp: mapped_def dir_ok_def)
  have "placement_address st = 0x203004" using assms(1) by (simp add: set_up_def)
  then show ?thesis
    using map_used_mapped [OF st2(2), of f] f(2) by (simp add: f(1) st1(1) st2(1))
qed

section \<open>The translation\<close>

lemma drop_bit_unat: "drop_bit k (a :: u32) = of_nat (unat a div 2 ^ k)"
proof -
  have "unat (drop_bit k a) = drop_bit k (unat a)" by (rule unat_drop_bit_eq)
  then have "unat (drop_bit k a) = unat a div 2 ^ k" by (simp only: drop_bit_eq_div [of k "unat a"])
  then have "of_nat (unat (drop_bit k a)) = (of_nat (unat a div 2 ^ k) :: u32)" by simp
  then show ?thesis by simp
qed

lemma page_split: "(a AND 0xFFFFF000) + (a AND 0xFFF) = (a :: u32)"
proof (rule word_unat_eq_iff [THEN iffD2])
  have "unat (a AND 0xFFFFF000) + unat (a AND 0xFFF) = unat a"
    by (simp add: unat_page_mask unat_and_low_bits)
  then show "unat ((a AND 0xFFFFF000) + (a AND 0xFFF)) = unat a"
    using unat_less_pow [of a] by (subst unat_add_nowrap) simp_all
qed

lemma translate_mapped:
  assumes "mapped N 517 st" "cr3 st = 0x201000"
  shows "translate st a = (if a < 0x205000 then Some a else None)"
proof -
  have c3: "(0x201000 AND 0xFFFFF000 :: u32) = 0x201000" "(0x204007 AND 0xFFFFF000 :: u32) = 0x204000"
    by (simp_all add: word_unat_eq_iff unat_page_mask)
  define t where "t = unat a div 2 ^ 22"
  have "t < 1024" using unat_less_pow [of a] by (simp add: t_def div_less_iff_less_mult)
  have ti: "drop_bit 22 a = of_nat t"
    unfolding t_def by (rule drop_bit_unat)
  show ?thesis
  proof (cases "t = 0")
    case False
    then have "load32 (kmem st) (0x201000 + 4 * of_nat t) = 0"
      using assms(1) \<open>t < 1024\<close> by (simp add: mapped_def dir_ok_def)
    moreover have "\<not> a < 0x205000"
      using False by (auto simp: t_def word_less_nat_alt div_eq_0_iff)
    ultimately show ?thesis by (simp add: translate_def assms(2) c3 ti)
  next
    case True
    define q where "q = unat a div 4096"
    have ua: "unat a < 2 ^ 22" using True by (simp add: t_def div_eq_0_iff)
    then have q: "q < 1024" by (simp add: q_def div_less_iff_less_mult)
    have da: "drop_bit 12 a = of_nat q"
      using drop_bit_unat [of 12 a] by (simp add: q_def)
    have pte: "load32 (kmem st) (0x204000 + 4 * of_nat q) =
        (if q < 517 then page_entry (of_nat q) False False 0 else 0)"
      using assms(1) q by (simp add: mapped_def)
    have lt: "a < 0x205000 \<longleftrightarrow> q < 517"
      by (simp add: word_less_nat_alt q_def div_less_iff_less_mult)
    have "take_bit 20 (of_nat q :: u32) = of_nat q"
      using q by (simp add: word_unat_eq_iff unsigned_take_bit_eq unat_of_nat_small take_bit_nat_eq_self)
    then have fr: "page_entry (of_nat q) False False 0 AND 0xFFFFF000 = a AND 0xFFFFF000"
      using page_frame_addr_entry [of "of_nat q" False False 0]
      by (simp add: page_mask page_frame_addr_def da)
    have "load32 (kmem st) 0x201000 = 0x204007" using assms(1) by (simp add: mapped_def)
    then show ?thesis
      using pte True
      by (simp add: translate_def assms(2) c3 ti da page_number(3) [OF q] lt bit_page_entry fr page_split)
  qed
qed

lemma paging_init_mapped:
  assumes "544 \<le> N" "N mod 32 = 0" "16 * N \<le> unat available_mem" "unat available_mem \<le> 131072"
    and "placement_address st = 0x200000" "kheap st = None" "518 \<le> fuel"
  shows "\<exists>st'. paging_init fuel h available_mem hs st = Inr (hs(14 \<mapsto> h), st') \<and> mapped N 517 st' \<and>
    paging_on st' \<and> cr3 st' = 0x201000"
proof -
  from map_used_set_up [OF paging_setup_set_up [OF assms(1-6)] assms(7)] obtain st1 where st1:
    "map_used fuel 0 0 (paging_setup available_mem st) = Inr (517, st1)" "mapped N 517 st1"
    by blast
  define st2 where "st2 = snd (projr (paging_init fuel h available_mem hs st))"
  have phys: "load32 (kmem st1) (kernel_directory st1 + 0x2000) = 0x201000"
    using st1(2) by (simp add: mapped_def dir_ok_def)
  have run: "paging_init fuel h available_mem hs st = Inr (hs(14 \<mapsto> h), st2)"
    and cr3: "cr3 st2 = 0x201000" "paging_on st2" "kmem st2 = kmem st1"
      "placement_address st2 = placement_address st1" "frames st2 = frames st1" "nframes st2 = nframes st1"
      "kernel_directory st2 = kernel_directory st1" "kheap st2 = kheap st1"
    by (simp_all add: st2_def paging_init_def st1(1) Let_def phys register_interrupt_handler_def)
  have "frame_bit st2 g = frame_bit st1 g" for g
    by (rule frame_bit_cong) (simp_all add: cr3)
  then have "mapped N 517 st2"
    using st1(2) by (simp add: mapped_def dir_ok_def cr3)
  then show ?thesis using run cr3 by simp
qed

text \<open>
  C5. Whatever memory held before and whatever its size between 8704 KB and 128 MB,
  \<^verbatim>\<open>paging_init\<close> returns (518 turns of its loop are enough), turns paging on, registers the
  fault handler for vector 14, and leaves tables under which the processor translates every
  address below the placement address to itself and every other address to nothing.
\<close>
theorem paging_init_identity:
  assumes "8704 \<le> unat available_mem" "unat available_mem \<le> 131072"
    and "placement_address st = 0x200000" "kheap st = None" "518 \<le> fuel"
  shows "\<exists>st'. paging_init fuel h available_mem hs st = Inr (hs(14 \<mapsto> h), st') \<and>
    paging_on st' \<and> placement_address st' = 0x205000 \<and>
    (\<forall>a. translate st' a = (if a < placement_address st' then Some a else None))"
proof -
  have N: "(544 :: nat) \<le> 544" "(544 :: nat) mod 32 = 0" "16 * 544 \<le> unat available_mem"
    using assms(1) by simp_all
  from paging_init_mapped [OF N assms(2-5), of h hs] obtain st' where
    "paging_init fuel h available_mem hs st = Inr (hs(14 \<mapsto> h), st')" "mapped 544 517 st'"
    "paging_on st'" "cr3 st' = 0x201000"
    by blast
  moreover from this(2) have "placement_address st' = 0x205000" by (simp add: mapped_def)
  ultimately show ?thesis using translate_mapped [of 544 st'] by simp
qed

lemma paging_init_identity_witness:
  "\<exists>st'. paging_init 518 () 65536 no_handlers (blank_kst 0) = Inr (no_handlers(14 \<mapsto> ()), st') \<and>
    translate st' 0x123456 = Some 0x123456 \<and> translate st' 0xB8000000 = None"
  using paging_init_identity [of 65536 "blank_kst 0" 518 "()" no_handlers]
  by (auto simp: blank_kst_facts)

section \<open>The contract of a source of page tables\<close>

text \<open>
  \<open>limit st\<close> bounds the memory in use: a new table is a whole page at or above it, and getting it
  changes no memory.
\<close>

locale page_source =
  fixes kap :: table_alloc
    and ready :: "kst \<Rightarrow> bool"
    and limit :: "kst \<Rightarrow> nat"
  assumes kap_page: "ready st \<Longrightarrow>
      \<exists>t st'. kap 4096 st = Inr (t, t, st') \<and> kmem st' = kmem st \<and> unat t mod 4096 = 0 \<and>
        limit st \<le> unat t \<and> 0 < unat t \<and> unat t + 4096 \<le> limit st' \<and> limit st' < 2 ^ 32"
begin

lemma get_page_present:
  "table_present dir (drop_bit 22 a) (kmem s) \<Longrightarrow>
    get_page kap a dir s =
      Inr (load32 (kmem s) (dir + 0x1000 + 4 * drop_bit 22 a) + 4 * (drop_bit 12 a mod 1024), s)"
  by (simp add: get_page_def Let_def drop_bit_drop_bit)

lemma get_page_fresh_state:
  assumes "ready st" "aligned4 dir" "unat dir + 8196 \<le> limit st"
    and "i = drop_bit 22 a" "\<not> table_present dir i (kmem st)"
  shows "\<exists>t st1 st'. kap 4096 st = Inr (t, t, st1) \<and> st' = st1\<lparr>kmem := kmem st'\<rparr> \<and>
    get_page kap a dir st = Inr (t + 4 * (drop_bit 12 a mod 1024), st') \<and>
    load32 (kmem st') (dir + 4 * i) = t OR 7 \<and>
    load32 (kmem st') (dir + 0x1000 + 4 * i) = t \<and> table_present dir i (kmem st') \<and>
    (\<forall>q < 1024. load32 (kmem st') (t + 4 * of_nat q) = 0) \<and>
    (\<forall>x. aligned4 x \<and> unat x < limit st \<and> x \<noteq> dir + 4 * i \<and> x \<noteq> dir + 0x1000 + 4 * i \<longrightarrow>
      load32 (kmem st') x = load32 (kmem st) x)"
proof -
  from kap_page [OF assms(1)] obtain t st1 where st1: "kap 4096 st = Inr (t, t, st1)"
    "kmem st1 = kmem st" "unat t mod 4096 = 0" "limit st \<le> unat t" "0 < unat t"
    "unat t + 4096 \<le> limit st1" "limit st1 < 2 ^ 32"
    by (elim exE conjE) (rule that)
  then have st1_6: "unat t + 4096 < 2 ^ 32" by linarith
  have "i = of_nat (unat a div 2 ^ 22)" using assms(4) drop_bit_unat [of 22 a] by simp
  moreover have "unat a div 2 ^ 22 < 1024" using unat_less_pow [of a] by (simp add: div_less_iff_less_mult)
  ultimately have ui: "unat i < 1024" by (simp add: unat_of_nat_small)
  have dirt: "unat (dir + 4 * i) = unat dir + 4 * unat i"
    "unat (dir + 0x1000 + 4 * i) = unat dir + 4096 + 4 * unat i"
  proof -
    have "unat dir + 4096 + 4 * unat i < 2 ^ 32" using ui assms(3) st1(4) unat_less_pow [of t] by simp
    then show "unat (dir + 4 * i) = unat dir + 4 * unat i"
      "unat (dir + 0x1000 + 4 * i) = unat dir + 4096 + 4 * unat i"
      by (simp_all add: unat_word_ariths)
  qed
  have al: "aligned4 (dir + 4 * i)" "aligned4 (dir + 0x1000 + 4 * i)" "aligned4 t"
  proof -
    have "aligned4 (0x1000 :: u32)" by (simp add: aligned4_def)
    then show "aligned4 (dir + 4 * i)" "aligned4 (dir + 0x1000 + 4 * i)"
      by (intro aligned4_add assms(2) aligned4_mult)+
    have "4096 dvd unat t" using st1(3) by auto
    then show "aligned4 t" unfolding aligned4_def by (rule dvd_trans [rotated]) simp
  qed
  have below: "unat (dir + 4 * i) < unat t" "unat (dir + 0x1000 + 4 * i) < unat t"
    "dir + 4 * i \<noteq> dir + 0x1000 + 4 * i"
    using dirt ui assms(3) st1(4) by simp_all
  define m1 where "m1 = store32 (kmem st) (dir + 0x1000 + 4 * i) t"
  define m2 where "m2 = memset m1 t 0 page_size"
  define m3 where "m3 = store32 m2 (dir + 4 * i) (t OR 7)"
  define st' where "st' = st1\<lparr>kmem := m3\<rparr>"
  have m2: "load32 m2 x = load32 m1 x" if "unat x < unat t" "aligned4 x" for x
  proof -
    have "unat (x - t) = 2 ^ 32 - (unat t - unat x)"
      using that unat_sub_if' [of x t] by simp
    moreover have "unat x + 4 \<le> unat t"
      using that al(3) unfolding aligned4_def by presburger
    ultimately show ?thesis
      unfolding m2_def using st1_6 by (intro load32_memset_outside) simp_all
  qed
  have m3: "load32 m3 x = (if x = dir + 4 * i then t OR 7
      else if x = dir + 0x1000 + 4 * i then t else load32 (kmem st) x)"
    if "unat x < unat t" "aligned4 x" for x
    unfolding m3_def load32_store32_aligned [OF al(1) that(2)] m2 [OF that]
    unfolding m1_def load32_store32_aligned [OF al(2) that(2)] by (simp add: eq_commute)
  have zero: "load32 m3 (t + 4 * of_nat q) = 0" if "q < 1024" for q
  proof -
    have "load32 m2 (t + 4 * of_nat q) = 0"
      unfolding m2_def using unat_word_offset [of 1024 q] that by (intro load32_memset_inside) simp
    moreover have "unat (t + 4 * of_nat q) = unat t + 4 * q"
      using unat_word_offset [of 1024 q] that st1_6 by (subst unat_add_nowrap) simp_all
    then have "t + 4 * of_nat q \<noteq> dir + 4 * i" using below(1) by auto
    ultimately show ?thesis
      using al by (simp add: m3_def load32_store32_aligned aligned4_add aligned4_mult)
  qed
  have "bit (t OR 7) 0" "t \<noteq> 0" using st1(5) by (auto simp: bit_or_iff)
  moreover have "x AND 1 \<noteq> 0 \<longleftrightarrow> bit x 0" for x :: u32
    using and_exp_eq_0_iff_not_bit [of x 0] by simp
  moreover have val: "load32 m3 (dir + 4 * i) = t OR 7" "load32 m3 (dir + 0x1000 + 4 * i) = t"
    using m3 [OF below(1) al(1)] m3 [OF below(2) al(2)] below(3) by metis+
  ultimately have "table_present dir i m3"
    by (simp only: table_present_def) simp
  moreover have "get_page kap a dir st =
      Inr (load32 m3 (dir + 0x1000 + 4 * i) + 4 * (drop_bit 12 a mod 1024), st')"
    unfolding get_page_def Let_def drop_bit_drop_bit
    using assms(5) by (simp add: assms(4) [symmetric] st1(1,2) st'_def m3_def m2_def m1_def)
  then have "get_page kap a dir st = Inr (t + 4 * (drop_bit 12 a mod 1024), st')"
    by (simp only: val)
  moreover have "kmem st' = m3" by (simp add: st'_def)
  moreover have "load32 m3 x = load32 (kmem st) x"
    if "aligned4 x" "unat x < limit st" "x \<noteq> dir + 4 * i" "x \<noteq> dir + 0x1000 + 4 * i" for x
    using m3 [of x] that st1(4) by simp
  ultimately show ?thesis
    using zero val st1(1) by (intro exI [of _ t] exI [of _ st1] exI [of _ st']) (simp add: st'_def)
qed

lemma get_page_fresh:
  assumes "ready st" "aligned4 dir" "unat dir + 8196 \<le> limit st"
    and "i = drop_bit 22 a" "\<not> table_present dir i (kmem st)"
  shows "\<exists>t st'. get_page kap a dir st = Inr (t + 4 * (drop_bit 12 a mod 1024), st') \<and>
    load32 (kmem st') (dir + 0x1000 + 4 * i) = t \<and> table_present dir i (kmem st') \<and>
    (\<forall>q < 1024. load32 (kmem st') (t + 4 * of_nat q) = 0) \<and>
    (\<forall>x. aligned4 x \<and> unat x < limit st \<and> x \<noteq> dir + 4 * i \<and> x \<noteq> dir + 0x1000 + 4 * i \<longrightarrow>
      load32 (kmem st') x = load32 (kmem st) x)"
  using get_page_fresh_state [OF assms] by blast

end

interpretation early: page_source early_table_alloc
  "\<lambda>st. kheap st = None \<and> 0x1000 \<le> unat (placement_address st) \<and> unat (placement_address st) + 0x2000 < 2 ^ 32"
  "\<lambda>st. unat (placement_address st)"
proof (unfold_locales, goal_cases)
  case (1 st)
  obtain t p st' where a: "placement_alloc 4096 1 st = (t, p, st')" by (metis prod_cases3)
  from placement_alloc_aligned [OF a] 1 have "p = t" "unat t = page_up (unat (placement_address st))"
    "st' = st\<lparr>placement_address := t + 4096\<rparr>" "unat (t + 4096) = unat t + 4096" by auto
  moreover have "unat (placement_address st) \<le> page_up (unat (placement_address st))"
    "page_up (unat (placement_address st)) mod 4096 = 0"
    "page_up (unat (placement_address st)) \<le> unat (placement_address st) + 4096"
    using 1 by (auto simp: page_up_def) 
  ultimately show ?case
    using 1 a by (auto simp: early_table_alloc_def)
qed

lemma set_page_get_page: "set_page kap a dir st = get_page kap a dir st"
  by (simp add: set_page_def get_page_def)

text \<open>
  C19. Before the heap exists, when tables come from the memory behind the kernel, and for an aligned
  directory below that memory, the first
  \<open>get_page\<close> for an address of a 4 MB region makes one page table, all of whose entries are empty,
  and every later one for an address of that region finds its entry in this table and changes
  nothing; of the words below the placement address only the two of the directory that name the
  table change.
\<close>
theorem get_page_makes_one_table:
  assumes "kheap st = None" "0x1000 \<le> unat (placement_address st)"
    and "unat (placement_address st) + 0x2000 < 2 ^ 32"
    and "aligned4 dir" "unat dir + 8196 \<le> unat (placement_address st)"
    and "\<not> table_present dir (drop_bit 22 a) (kmem st)"
  shows "\<exists>t st'. get_page early_table_alloc a dir st = Inr (t + 4 * (drop_bit 12 a mod 1024), st') \<and>
    (\<forall>q < 1024. load32 (kmem st') (t + 4 * of_nat q) = 0) \<and>
    (\<forall>b. drop_bit 22 b = drop_bit 22 a \<longrightarrow>
      get_page early_table_alloc b dir st' = Inr (t + 4 * (drop_bit 12 b mod 1024), st')) \<and>
    (\<forall>x. aligned4 x \<and> unat x < unat (placement_address st) \<and> x \<noteq> dir + 4 * drop_bit 22 a \<and>
        x \<noteq> dir + 0x1000 + 4 * drop_bit 22 a \<longrightarrow>
      load32 (kmem st') x = load32 (kmem st) x)"
proof -
  from early.get_page_fresh [OF _ assms(4,5) refl assms(6)] assms(1-3) obtain t st' where g:
    "get_page early_table_alloc a dir st = Inr (t + 4 * (drop_bit 12 a mod 1024), st')"
    "load32 (kmem st') (dir + 0x1000 + 4 * drop_bit 22 a) = t"
    "table_present dir (drop_bit 22 a) (kmem st')"
    "\<forall>q < 1024. load32 (kmem st') (t + 4 * of_nat q) = 0"
    "\<forall>x. aligned4 x \<and> unat x < unat (placement_address st) \<and> x \<noteq> dir + 4 * drop_bit 22 a \<and>
      x \<noteq> dir + 0x1000 + 4 * drop_bit 22 a \<longrightarrow> load32 (kmem st') x = load32 (kmem st) x"
    by blast
  have "get_page early_table_alloc b dir st' = Inr (t + 4 * (drop_bit 12 b mod 1024), st')"
    if "drop_bit 22 b = drop_bit 22 a" for b
    using early.get_page_present [of dir b st'] g(2,3) that by simp
  then show ?thesis using g by blast
qed

lemma get_page_makes_one_table_witness:
  "\<exists>t st'. get_page early_table_alloc 0x1005000 0x100000 (blank_kst 64) = Inr (t + 20, st') \<and>
    get_page early_table_alloc 0x1006000 0x100000 st' = Inr (t + 24, st')"
proof -
  have "drop_bit 22 (0x1005000 :: u32) = 4" "drop_bit 12 (0x1005000 :: u32) mod 1024 = 5"
    "drop_bit 22 (0x1006000 :: u32) = 4" "drop_bit 12 (0x1006000 :: u32) mod 1024 = 6"
    by (simp_all add: drop_bit_eq_div)
  moreover have "\<not> table_present 0x100000 4 (kmem (blank_kst 64))"
    by (simp add: table_present_def blank_kst_facts)
  ultimately show ?thesis
    using get_page_makes_one_table [of "blank_kst 64" "0x100000" "0x1005000"]
    by (auto simp: blank_kst_facts aligned4_def)
qed

end
