(* ===== verification/Boot.thy ===== *)
theory Boot
  imports Heap_Spec Paging_Init
begin

text \<open>
  What \<^verbatim>\<open>heap_install\<close> of \<^verbatim>\<open>kheap.c\<close> makes of the tables \<^verbatim>\<open>paging_init\<close> leaves: the 16 pages after the
  placement address and the 4095 pages of the heap area get frames, in order, and the heap is
  one hole. The translation that results is injective, which is why the theories of the heap may
  take its bytes for a memory of their own.
\<close>

section \<open>The pages after the placement address\<close>

lemma mapped_klog: "mapped N p (klog_kst f as st) = mapped N p st"
  by (simp add: mapped_def dir_ok_def frame_bit_def frame_word_def)

lemma install_low_mapped:
  "mapped N p st \<Longrightarrow> p \<le> 533 \<Longrightarrow> 533 - p < fuel \<Longrightarrow>
    \<exists>st'. install_low fuel kap (of_nat (4096 * p)) st = Inr st' \<and> mapped N 533 st' \<and>
      cr3 st' = cr3 st \<and> paging_on st' = paging_on st"
proof (induction fuel arbitrary: p st)
  case 0
  then show ?case by simp
next
  case (Suc fuel)
  have i: "unat (of_nat (4096 * p) :: u32) = 4096 * p"
    using Suc.prems(2) by (intro unat_of_nat_small) simp
  have pl: "placement_address st = 0x205000" using Suc.prems(1) by (simp add: mapped_def)
  show ?case
  proof (cases "p = 533")
    case True
    then have "\<not> of_nat (4096 * p) < (0x215000 :: u32)" unfolding word_less_nat_alt i by simp
    then show ?thesis using Suc.prems(1) True by (simp add: pl)
  next
    case False
    then have p: "p < 533" using Suc.prems(2) by simp
    then have lt: "of_nat (4096 * p) < (0x215000 :: u32)" unfolding word_less_nat_alt i by simp
    have "p < N" "p < 1024" using Suc.prems(1) p by (simp_all add: mapped_def dir_ok_def)
    from mapped_step_state [OF Suc.prems(1) this] obtain st1 where st1:
      "alloc_frame (0x204000 + 4 * of_nat p) False False st = (of_nat p, st1)" "mapped N (Suc p) st1"
      and st1_eq: "st1 = st\<lparr>kmem := kmem st1\<rparr>"
      by blast
    have keep: "cr3 st1 = cr3 st" "paging_on st1 = paging_on st" by (subst st1_eq, simp)+
    define st2 where "st2 = klog_kst ''alloc_frame: %x\<newline>'' [ArgInt (of_nat p * page_size)] st1"
    have "of_nat (4096 * p) + page_size = (of_nat (4096 * Suc p) :: u32)" by simp
    moreover have "\<exists>st'. install_low fuel kap (of_nat (4096 * Suc p)) st2 = Inr st' \<and> mapped N 533 st' \<and>
        cr3 st' = cr3 st2 \<and> paging_on st' = paging_on st2"
      by (rule Suc.IH) (use p Suc.prems(3) st1(2) in \<open>simp_all add: st2_def mapped_klog\<close>)
    ultimately show ?thesis
      using get_page_mapped [OF Suc.prems(1), of p kap] p lt st1(1) keep
      by (simp add: pl set_page_get_page st2_def [symmetric] add.commute del: of_nat_mult of_nat_Suc)
        (simp add: st2_def)
  qed
qed

section \<open>The tables of the heap area\<close>

text \<open>
  The four tables of the heap area start every \<open>0x2000\<close> bytes: an aligned request to the placement
  allocator skips a page even when the address is aligned already. \<open>heap_mapped N t q st\<close>:
  \<open>t\<close> tables exist and the first \<open>q\<close> pages of the area have the frames from 533 on.
\<close>

definition heap_table :: "nat \<Rightarrow> nat" where
  "heap_table j = 0x206000 + 0x2000 * j"

definition heap_mapped :: "nat \<Rightarrow> nat \<Rightarrow> nat \<Rightarrow> kst \<Rightarrow> bool" where
  "heap_mapped N t q st \<longleftrightarrow> kernel_directory st = 0x201000 \<and> frames st = 0x200000 \<and>
     4 * N \<le> unat (nframes st) \<and> unat (nframes st) \<le> 32768 \<and> kheap st = None \<and>
     cr3 st = 0x201000 \<and> paging_on st \<and> t \<le> 4 \<and>
     placement_address st = of_nat (0x205000 + 0x2000 * t) \<and> load32 (kmem st) 0x201000 = 0x204007 \<and>
     (\<forall>i. 0 < i \<and> i < 1024 \<longrightarrow> load32 (kmem st) (0x201000 + 4 * of_nat i) =
        (if 4 \<le> i \<and> i < 4 + t then of_nat (heap_table (i - 4)) OR 7 else 0)) \<and>
     (\<forall>j < t. load32 (kmem st) (0x202000 + 4 * of_nat (4 + j)) = of_nat (heap_table j)) \<and>
     (\<forall>g < N. frame_bit st g = (g < 533 + q)) \<and>
     (\<forall>r < 1024. load32 (kmem st) (0x204000 + 4 * of_nat r) =
        (if r < 533 then page_entry (of_nat r) False False 0 else 0)) \<and>
     (\<forall>j < t. \<forall>r < 1024. load32 (kmem st) (of_nat (heap_table j) + 4 * of_nat r) =
        (if 1024 * j + r < q then page_entry (of_nat (533 + 1024 * j + r)) False False 0 else 0))"

lemma heap_mapped_start:
  "mapped N 533 st \<Longrightarrow> cr3 st = 0x201000 \<Longrightarrow> paging_on st \<Longrightarrow> heap_mapped N 0 0 st"
  by (auto simp: heap_mapped_def mapped_def dir_ok_def)

lemma heap_table_word:
  "j < 4 \<Longrightarrow> r < 1024 \<Longrightarrow> unat (of_nat (heap_table j) + 4 * of_nat r :: u32) = heap_table j + 4 * r"
  "aligned4 (of_nat (heap_table j) + 4 * v)"
proof -
  show "j < 4 \<Longrightarrow> r < 1024 \<Longrightarrow> unat (of_nat (heap_table j) + 4 * of_nat r :: u32) = heap_table j + 4 * r"
    by (rule unat_base_word) (simp add: heap_table_def)
  have "of_nat (heap_table j) = (4 * of_nat (0x81800 + 0x800 * j) :: u32)" by (simp add: heap_table_def)
  then show "aligned4 (of_nat (heap_table j) + 4 * v)" by (simp only: aligned4_add aligned4_mult)
qed

lemma heap_table_inj:
  assumes "heap_table j + 4 * r = heap_table j' + 4 * r'" "r < 1024" "r' < 1024"
  shows "j = j' \<and> r = r'"
proof -
  have "(0x2000 * j + 4 * r) div 0x2000 = j" "(0x2000 * j' + 4 * r') div 0x2000 = j'"
    using assms(2,3) by simp_all
  moreover have "0x2000 * j + 4 * r = 0x2000 * j' + 4 * r'" using assms(1) by (simp add: heap_table_def)
  ultimately show ?thesis by simp
qed

lemma inj1024:
  assumes "1024 * i + n = 1024 * j + r" "n < 1024" "r < (1024 :: nat)"
  shows "i = j \<and> n = r"
proof -
  have "(1024 * i + n) div 1024 = i" "(1024 * j + r) div 1024 = j" using assms(2,3) by simp_all
  then show ?thesis using assms(1) by simp
qed

text \<open>The addresses of the area, and which entry is theirs.\<close>

abbreviation heap_page :: "nat \<Rightarrow> nat" where
  "heap_page q \<equiv> 0x01000000 + 4096 * q"

lemma heap_page_index:
  assumes "q < 4096"
  shows "drop_bit 22 (of_nat (heap_page q) :: u32) = of_nat (4 + q div 1024)"
    "drop_bit 12 (of_nat (heap_page q) :: u32) mod 1024 = of_nat (q mod 1024)"
proof -
  have u: "unat (of_nat (heap_page q) :: u32) = heap_page q"
    using assms by (intro unat_of_nat_small) simp
  have "heap_page q div 2 ^ 22 = 4 + q div 1024"
    using div_mult_mult1 [of 4096 "4096 + q" 1024] by simp
  then show "drop_bit 22 (of_nat (heap_page q) :: u32) = of_nat (4 + q div 1024)"
    unfolding drop_bit_unat u by simp
  have "heap_page q div 2 ^ 12 = 4096 + q" by simp
  moreover have "unat (of_nat (4096 + q) :: u32) = 4096 + q" "unat (of_nat (q mod 1024) :: u32) = q mod 1024"
    using assms by (intro unat_of_nat_small, simp)+
  moreover have "(4096 + q) mod 1024 = q mod 1024" by (simp add: mod_add_eq [symmetric])
  moreover have "unat (1024 :: u32) = 1024" by simp
  ultimately show "drop_bit 12 (of_nat (heap_page q) :: u32) mod 1024 = of_nat (q mod 1024)"
    unfolding drop_bit_unat u by (simp only: word_unat_eq_iff unat_mod)
qed

section \<open>A new table\<close>

interpretation late: page_source "kmalloc_ap (Suc f)"
  "\<lambda>st. kheap st = None \<and> 0x1000 \<le> unat (placement_address st) \<and> unat (placement_address st) + 0x2000 < 2 ^ 32"
  "\<lambda>st. unat (placement_address st)"
  for f
proof (unfold_locales, goal_cases)
  case (1 st)
  then have "kmalloc_ap (Suc f) 4096 st = early_table_alloc 4096 st"
    by (simp add: kmalloc_ap_def early_table_alloc_def)
  then show ?case using early.kap_page [OF 1] by simp
qed

lemma heap_placement:
  assumes "t \<le> 4"
  shows "unat (of_nat (0x205000 + 0x2000 * t) :: u32) = 0x205000 + 0x2000 * t"
    "page_up (0x205000 + 0x2000 * t) = heap_table t"
proof -
  show "unat (of_nat (0x205000 + 0x2000 * t) :: u32) = 0x205000 + 0x2000 * t"
    using assms by (intro unat_of_nat_small) simp
  have "(0x205000 + 0x2000 * t) div 4096 = 0x205 + 2 * t" by simp
  then show "page_up (0x205000 + 0x2000 * t) = heap_table t"
    by (simp add: page_up_def heap_table_def)
qed

lemma new_table_address:
  assumes "kheap st = None" "placement_address st = of_nat (0x205000 + 0x2000 * t)" "t < 4"
    and "kmalloc_ap (Suc f) 4096 st = Inr (a, a, st1)"
  shows "a = of_nat (heap_table t)" "st1 = st\<lparr>placement_address := of_nat (0x205000 + 0x2000 * Suc t)\<rparr>"
proof -
  have "placement_alloc 4096 1 st = (a, a, st1)"
    using assms(1,4) by (simp add: kmalloc_ap_def)
  from placement_alloc_aligned [OF this] heap_placement [of t] assms(2,3)
  have a: "unat a = heap_table t" "st1 = st\<lparr>placement_address := a + 4096\<rparr>" by simp_all
  have "a = of_nat (unat a)" by simp
  then show "a = of_nat (heap_table t)" by (simp only: a)
  then show "st1 = st\<lparr>placement_address := of_nat (0x205000 + 0x2000 * Suc t)\<rparr>"
    using a(2) by (simp add: heap_table_def)
qed

lemma heap_new_table:
  assumes "heap_mapped N t (1024 * t) st" "t < 4" "N \<le> 8192"
  shows "\<exists>st'. get_page (kmalloc_ap (Suc f)) (of_nat (heap_page (1024 * t))) (kernel_directory st) st =
      Inr (of_nat (heap_table t), st') \<and> heap_mapped N (Suc t) (1024 * t) st'"
proof -
  let ?i = "of_nat (4 + t) :: u32"
  have h: "kernel_directory st = 0x201000" "kheap st = None" "frames st = 0x200000"
    "placement_address st = of_nat (0x205000 + 0x2000 * t)"
    "\<And>i. 0 < i \<Longrightarrow> i < 1024 \<Longrightarrow> load32 (kmem st) (0x201000 + 4 * of_nat i) =
        (if 4 \<le> i \<and> i < 4 + t then of_nat (heap_table (i - 4)) OR 7 else 0)"
    using assms(1) by (simp_all add: heap_mapped_def)
  have pl: "unat (placement_address st) = 0x205000 + 0x2000 * t"
    unfolding h(4) using assms(2) by (intro heap_placement) simp
  have ix: "drop_bit 22 (of_nat (heap_page (1024 * t)) :: u32) = ?i"
    "drop_bit 12 (of_nat (heap_page (1024 * t)) :: u32) mod 1024 = 0"
    using heap_page_index [of "1024 * t"] assms(2) by simp_all
  have "load32 (kmem st) (0x201000 + 4 * ?i) = 0" using h(5) [of "4 + t"] assms(2) by simp
  then have "\<not> table_present 0x201000 ?i (kmem st)" by (simp add: table_present_def)
  note fresh = late.get_page_fresh_state [of st "0x201000" ?i "of_nat (heap_page (1024 * t))" f, OF _ _ _ ix(1) [symmetric] this]
  have "kheap st = None \<and> 0x1000 \<le> unat (placement_address st) \<and> unat (placement_address st) + 0x2000 < 2 ^ 32"
    "aligned4 0x201000" "unat (0x201000 :: u32) + 8196 \<le> unat (placement_address st)"
    unfolding pl using h(2) assms(2) by (simp_all add: aligned4_base)
  from fresh [OF this, unfolded ix(2) pl] obtain a st1 st' where
    g0: "kmalloc_ap (Suc f) 4096 st = Inr (a, a, st1)" "st' = st1\<lparr>kmem := kmem st'\<rparr>"
    "get_page (kmalloc_ap (Suc f)) (of_nat (heap_page (1024 * t))) 0x201000 st = Inr (a + 4 * 0, st')"
    "load32 (kmem st') (0x201000 + 4 * ?i) = a OR 7" "load32 (kmem st') (0x201000 + 0x1000 + 4 * ?i) = a"
    "\<forall>q < 1024. load32 (kmem st') (a + 4 * of_nat q) = 0"
    "\<forall>x. aligned4 x \<and> unat x < 0x205000 + 0x2000 * t \<and> x \<noteq> 0x201000 + 4 * ?i \<and>
      x \<noteq> 0x201000 + 0x1000 + 4 * ?i \<longrightarrow> load32 (kmem st') x = load32 (kmem st) x"
    by (elim exE conjE) (rule that)
  note g = g0(1,2,3) [simplified] g0(4,5) g0(6,7) [rule_format]
  note a = new_table_address [OF h(2,4) assms(2) g(1)]
  have st': "kernel_directory st' = 0x201000" "frames st' = frames st" "nframes st' = nframes st"
    "kheap st' = None" "cr3 st' = cr3 st" "paging_on st' = paging_on st"
    "placement_address st' = of_nat (0x205000 + 0x2000 * Suc t)"
    by (subst g(2), simp add: a(2) h)+
  have keep: "load32 (kmem st') (of_nat b + 4 * of_nat n) = load32 (kmem st) (of_nat b + 4 * of_nat n)"
    if "aligned4 (of_nat b)" "b + 4 * n < 0x205000 + 0x2000 * t"
      "b + 4 * n \<noteq> 0x201010 + 4 * t" "b + 4 * n \<noteq> 0x202010 + 4 * t" for b n
  proof (rule g(7), intro conjI)
    have u: "unat (of_nat b + 4 * of_nat n :: u32) = b + 4 * n"
      by (rule unat_base_word) (use that(2) assms(2) in simp)
    show "unat (of_nat b + 4 * of_nat n :: u32) < 0x205000 + 0x2000 * t" using u that(2) by simp
    have "unat (0x201000 + 4 * ?i) = 0x201010 + 4 * t" "unat (0x201000 + 0x1000 + 4 * ?i) = 0x202010 + 4 * t"
      using unat_base_word [of "0x201000" "4 + t"] unat_base_word [of "0x202000" "4 + t"] assms(2) by simp_all
    then show "of_nat b + 4 * of_nat n \<noteq> (0x201000 + 4 * ?i)"
      "of_nat b + 4 * of_nat n \<noteq> (0x201000 + 0x1000 + 4 * ?i)"
      using u that(3,4) by metis+
    show "aligned4 (of_nat b + 4 * of_nat n)" using that(1) by (intro aligned4_add aligned4_mult)
  qed
  have "frame_bit st' n = frame_bit st n" if "n < N" for n
    using that assms(2,3) keep [of "0x200000" "n div 32"]
    by (intro frame_bit_cong) (simp_all add: st' h aligned4_base div_less_iff_less_mult)
  moreover have "load32 (kmem st') (0x201000 + 4 * of_nat i) =
      (if 4 \<le> i \<and> i < 4 + Suc t then of_nat (heap_table (i - 4)) OR 7 else 0)"
    if "0 < i" "i < 1024" for i
  proof (cases "i = 4 + t")
    case True
    then show ?thesis using g(4) a(1) by simp
  next
    case False
    then show ?thesis
      using that assms(2) keep [of "0x201000" i] h(5) [of i] by (auto simp: aligned4_base)
  qed
  moreover have "load32 (kmem st') 0x201000 = load32 (kmem st) 0x201000"
    using keep [of "0x201000" 0] assms(2) by (simp add: aligned4_base)
  moreover have "load32 (kmem st') (0x202000 + 4 * of_nat (4 + j)) =
      (if j = t then of_nat (heap_table t) else load32 (kmem st) (0x202000 + 4 * of_nat (4 + j)))"
    if "j < Suc t" for j
    using that assms(2) keep [of "0x202000" "4 + j"] g(5) a(1) by (auto simp: aligned4_base)
  moreover have "load32 (kmem st') (0x204000 + 4 * of_nat r) = load32 (kmem st) (0x204000 + 4 * of_nat r)"
    if "r < 1024" for r
    using that assms(2) keep [of "0x204000" r] by (simp add: aligned4_base)
  moreover have "load32 (kmem st') (of_nat (heap_table j) + 4 * of_nat r) =
      (if j = t then 0 else load32 (kmem st) (of_nat (heap_table j) + 4 * of_nat r))"
    if "j < Suc t" "r < 1024" for j r
    using that assms(2) keep [of "heap_table j" r] g(6) [of r] a(1) heap_table_word(2) [of j 0]
    by (auto simp: heap_table_def)
  ultimately have "heap_mapped N (Suc t) (1024 * t) st'"
    using assms(1,2) unfolding heap_mapped_def st' by (simp add: less_Suc_eq)
  then show ?thesis using g(3) by (auto simp: h(1) a(1))
qed

section \<open>A page of the heap area\<close>

lemma heap_mapped_outside:
  assumes "heap_mapped N t q st" "aligned4 a" "0x201000 \<le> unat a"
  shows "outside_bitmap st a"
proof -
  have "a \<noteq> 0x200000 + 4 * of_nat j" if "j < unat (nframes st) div 32" for j
  proof -
    have "j < 1024" using that assms(1) by (auto simp: heap_mapped_def)
    then show ?thesis using assms(3) base_words(1) [of j] by auto
  qed
  then show ?thesis using assms(1,2) by (simp add: outside_bitmap_def heap_mapped_def aligned4_base)
qed

text \<open>\<^verbatim>\<open>get_page\<close> on the area, from the two words of the directory it reads.\<close>

lemma get_page_area:
  assumes "kernel_directory st = 0x201000" "p < 4096"
    and "load32 (kmem st) (0x201000 + 4 * of_nat (4 + p div 1024)) = of_nat (heap_table (p div 1024)) OR 7"
    and "load32 (kmem st) (0x202000 + 4 * of_nat (4 + p div 1024)) = of_nat (heap_table (p div 1024))"
  shows "get_page kap (of_nat (heap_page p)) (kernel_directory st) st =
    Inr (of_nat (heap_table (p div 1024)) + 4 * of_nat (p mod 1024), st)"
proof -
  have j: "p div 1024 < 4" using assms(2) by (simp add: div_less_iff_less_mult)
  have "bit (load32 (kmem st) (0x201000 + 4 * of_nat (4 + p div 1024))) 0"
    using assms(3) by (simp add: bit_or_iff)
  then have "load32 (kmem st) (0x201000 + 4 * of_nat (4 + p div 1024)) AND 1 \<noteq> 0"
    using and_one_bit [of _ 0] by simp
  moreover have tab: "load32 (kmem st) (kernel_directory st + 0x1000 + 4 * of_nat (4 + p div 1024)) =
      of_nat (heap_table (p div 1024))"
    using assms(1,4) by simp
  moreover have "unat (of_nat (heap_table (p div 1024)) :: u32) \<noteq> 0"
    using heap_table_word(1) [OF j, of 0] by (simp add: heap_table_def)
  ultimately have "table_present (kernel_directory st) (of_nat (4 + p div 1024)) (kmem st)"
    unfolding table_present_def assms(1) by (metis unat_0)
  then show ?thesis
    unfolding get_page_def Let_def drop_bit_drop_bit
    using heap_page_index [OF assms(2)] tab by (simp del: of_nat_add of_nat_mult)
qed

lemma heap_get_page:
  assumes "heap_mapped N t q st" "p < 1024 * t"
  shows "get_page kap (of_nat (heap_page p)) (kernel_directory st) st =
    Inr (of_nat (heap_table (p div 1024)) + 4 * of_nat (p mod 1024), st)"
proof (rule get_page_area)
  have t: "t \<le> 4" using assms(1) by (simp add: heap_mapped_def)
  then show p: "p < 4096" using assms(2) by simp
  have j: "p div 1024 < t" using assms(2) by (simp add: div_less_iff_less_mult mult.commute)
  show "load32 (kmem st) (0x201000 + 4 * of_nat (4 + p div 1024)) = of_nat (heap_table (p div 1024)) OR 7"
    using assms(1) j t unfolding heap_mapped_def by (elim conjE, drule_tac x = "4 + p div 1024" in spec) simp
  show "load32 (kmem st) (0x202000 + 4 * of_nat (4 + p div 1024)) = of_nat (heap_table (p div 1024))"
    using assms(1) j unfolding heap_mapped_def by simp
qed (use assms(1) in \<open>simp add: heap_mapped_def\<close>)

lemma heap_page_step:
  assumes "heap_mapped N t q st" "q < 1024 * t" "533 + q < N"
  shows "\<exists>st'. alloc_frame (of_nat (heap_table (q div 1024)) + 4 * of_nat (q mod 1024)) False False st =
    (of_nat (533 + q), st') \<and> heap_mapped N t (Suc q) st'"
proof -
  define j r where "j = q div 1024" and "r = q mod 1024"
  let ?page = "of_nat (heap_table j) + 4 * of_nat r :: u32"
  have h: "frames st = 0x200000" "4 * N \<le> unat (nframes st)" "unat (nframes st) \<le> 32768" "t \<le> 4"
    "\<And>g. g < N \<Longrightarrow> frame_bit st g = (g < 533 + q)"
    using assms(1) by (simp_all add: heap_mapped_def)
  have q: "q = 1024 * j + r" "r < 1024" "j < t" "j < 4"
    using assms(2) h(4) by (simp_all add: j_def r_def div_less_iff_less_mult mult.commute)
  note ptr = heap_table_word(1) [OF q(4,2)]
  have out: "outside_bitmap st ?page"
    by (rule heap_mapped_outside [OF assms(1)]) (simp_all add: ptr heap_table_word(2), simp add: heap_table_def)
  have m: "N \<le> managed_frames st" using h(2) assms(3) mult_div_mod_eq [of 32 "unat (nframes st)"]
      mod_less_divisor [of 32 "unat (nframes st)"] unfolding managed_frames_def by linarith
  have old: "load32 (kmem st) ?page = 0"
    using assms(1) q(2,3) unfolding heap_mapped_def by (simp add: q(1))
  have "\<exists>st'. alloc_frame ?page False False st = (of_nat (533 + q), st') \<and>
      load32 (kmem st') ?page = page_entry (of_nat (533 + q)) False False (load32 (kmem st) ?page) \<and>
      (\<forall>g < managed_frames st. frame_bit st' g = (g = 533 + q \<or> frame_bit st g)) \<and>
      (\<forall>b. outside_bitmap st b \<and> b \<noteq> ?page \<longrightarrow> load32 (kmem st') b = load32 (kmem st) b) \<and>
      st' = st\<lparr>kmem := kmem st'\<rparr>"
  proof (rule alloc_frame_least [OF _ out])
    show "unat (nframes st) \<le> 2 ^ 20" using h(3) by simp
    show "page_frame_addr (load32 (kmem st) ?page) = 0" by (simp add: old page_frame_addr_def)
    show "533 + q < managed_frames st" using m assms(3) by simp
    show "\<not> frame_bit st (533 + q)" using h(5) [of "533 + q"] assms(3) by simp
    show "frame_bit st g" if "g < 533 + q" for g using h(5) [of g] assms(3) that by simp
  qed
  then obtain st' where st': "alloc_frame ?page False False st = (of_nat (533 + q), st')"
    "load32 (kmem st') ?page = page_entry (of_nat (533 + q)) False False 0"
    "\<And>g. g < managed_frames st \<Longrightarrow> frame_bit st' g = (g = 533 + q \<or> frame_bit st g)"
    "\<And>b. outside_bitmap st b \<Longrightarrow> b \<noteq> ?page \<Longrightarrow> load32 (kmem st') b = load32 (kmem st) b"
    "st' = st\<lparr>kmem := kmem st'\<rparr>"
    unfolding old by blast
  have fields: "kernel_directory st' = kernel_directory st" "frames st' = frames st"
    "nframes st' = nframes st" "kheap st' = kheap st" "placement_address st' = placement_address st"
    "cr3 st' = cr3 st" "paging_on st' = paging_on st"
    by (subst st'(5), simp)+
  have keep: "load32 (kmem st') b = load32 (kmem st) b"
    if "aligned4 b" "0x201000 \<le> unat b" "unat b \<noteq> heap_table j + 4 * r" for b
    using that ptr by (intro st'(4) heap_mapped_outside [OF assms(1)]) auto
  have low: "load32 (kmem st') b = load32 (kmem st) b"
    if "aligned4 b" "0x201000 \<le> unat b" "unat b < 0x205000" for b
    using that by (intro keep) (auto simp: heap_table_def)
  have words: "load32 (kmem st') (0x201000 + 4 * of_nat i) = load32 (kmem st) (0x201000 + 4 * of_nat i)"
    "load32 (kmem st') (0x202000 + 4 * of_nat i) = load32 (kmem st) (0x202000 + 4 * of_nat i)"
    "load32 (kmem st') (0x204000 + 4 * of_nat i) = load32 (kmem st) (0x204000 + 4 * of_nat i)"
    if "i < 1024" for i
    using low base_words(2-4) [OF that] that by (simp_all add: aligned4_base)
  have "load32 (kmem st') (0x202000 + 4 * of_nat (4 + i)) =
      load32 (kmem st) (0x202000 + 4 * of_nat (4 + i))" if "i < t" for i
    by (rule words(2)) (use that h(4) in simp)
  moreover have "load32 (kmem st') 0x201000 = load32 (kmem st) 0x201000"
    using low by (simp add: aligned4_base)
  moreover have "load32 (kmem st') (of_nat (heap_table i) + 4 * of_nat n) =
      (if i = j \<and> n = r then page_entry (of_nat (533 + q)) False False 0
       else load32 (kmem st) (of_nat (heap_table i) + 4 * of_nat n))" if "i < t" "n < 1024" for i n
  proof (cases "i = j \<and> n = r")
    case False
    then have "heap_table i + 4 * n \<noteq> heap_table j + 4 * r"
      using heap_table_inj [of i n j r] that(2) q(2) by auto
    then show ?thesis
      using False that h(4) heap_table_word(1) [of i n] heap_table_word(2) [of i "of_nat n"] by (subst keep) (auto simp: heap_table_def)
  qed (use st'(2) in simp)
  moreover have "frame_bit st' g = (g < Suc (533 + q))" if "g < N" for g
    using st'(3) [of g] h(5) [OF that] m that by auto
  moreover have "1024 * i + n < Suc q \<longleftrightarrow> (i = j \<and> n = r) \<or> 1024 * i + n < q" if "n < 1024" for i n
    using inj1024 [of i n j r] that q(1,2) by auto
  ultimately have "heap_mapped N t (Suc q) st'"
    using assms(1) words(1,3) q(1) unfolding heap_mapped_def fields by (simp add: add.assoc)
  then show ?thesis using st'(1) by (auto simp: j_def r_def)
qed

section \<open>The loop over the heap area\<close>

lemma round_up_1024: "1 \<le> b \<Longrightarrow> b \<le> 1024 \<Longrightarrow> (1024 * a + b + 1023) div 1024 = Suc (a :: nat)"
  by (rule div_nat_eqI) simp_all

lemma tables_round_up:
  assumes "q mod 1024 \<noteq> 0"
  shows "(q + 1023) div 1024 = (Suc q + 1023) div (1024 :: nat)"
proof -
  obtain a b where q: "q = 1024 * a + b" "b < 1024"
    using mult_div_mod_eq [of 1024 q] mod_less_divisor [of 1024 q] by (metis zero_less_numeral)
  then show ?thesis
    using assms round_up_1024 [of b a] round_up_1024 [of "Suc b" a] by simp
qed

lemma install_range_mapped:
  "heap_mapped N ((q + 1023) div 1024) q st \<Longrightarrow> q \<le> 4095 \<Longrightarrow> 4628 \<le> N \<Longrightarrow> N \<le> 8192 \<Longrightarrow> 4095 - q < fuel \<Longrightarrow>
    \<exists>st'. install_range fuel (kmalloc_ap (Suc f)) 0x01FFF000 (of_nat (heap_page q)) st = Inr st' \<and>
      heap_mapped N 4 4095 st'"
proof (induction fuel arbitrary: q st)
  case 0
  then show ?case by simp
next
  case (Suc fuel)
  have i: "unat (of_nat (heap_page q) :: u32) = heap_page q"
    using Suc.prems(2) by (intro unat_of_nat_small) simp
  show ?case
  proof (cases "q = 4095")
    case True
    then have "\<not> of_nat (heap_page q) < (0x01FFF000 :: u32)" unfolding word_less_nat_alt i by simp
    then show ?thesis using Suc.prems(1) True by simp
  next
    case False
    then have q: "q < 4095" using Suc.prems(2) by simp
    then have lt: "of_nat (heap_page q) < (0x01FFF000 :: u32)" unfolding word_less_nat_alt i by simp
    define t where "t = (Suc q + 1023) div 1024"
    have qt: "q < 1024 * t" unfolding t_def by linarith
    have "\<exists>st1. get_page (kmalloc_ap (Suc f)) (of_nat (heap_page q)) (kernel_directory st) st =
        Inr (of_nat (heap_table (q div 1024)) + 4 * of_nat (q mod 1024), st1) \<and> heap_mapped N t q st1"
    proof (cases "q mod 1024 = 0")
      case True
      then obtain j where j: "q = 1024 * j" by (auto elim: dvdE)
      have "(q + 1023) div 1024 = j" by (rule div_nat_eqI) (simp_all add: j)
      moreover have "t = Suc j" unfolding t_def by (rule div_nat_eqI) (simp_all add: j)
      moreover have "q div 1024 = j" "j < 4" using q by (simp_all add: j)
      ultimately have "(q + 1023) div 1024 = j" "t = Suc j" "q div 1024 = j" "j < 4" by simp_all
      then show ?thesis
        using heap_new_table [of N j st f] Suc.prems(1,4) True by (simp add: j)
    next
      case False
      then have "(q + 1023) div 1024 = t" unfolding t_def by (rule tables_round_up)
      then show ?thesis
        using heap_get_page [of N t q st q] Suc.prems(1) qt by simp
    qed
    then obtain st1 where st1: "get_page (kmalloc_ap (Suc f)) (of_nat (heap_page q)) (kernel_directory st) st =
        Inr (of_nat (heap_table (q div 1024)) + 4 * of_nat (q mod 1024), st1)" "heap_mapped N t q st1"
      by blast
    from heap_page_step [OF st1(2) qt] q Suc.prems(3) obtain st2 where st2:
      "alloc_frame (of_nat (heap_table (q div 1024)) + 4 * of_nat (q mod 1024)) False False st1 =
        (of_nat (533 + q), st2)" "heap_mapped N t (Suc q) st2"
      by auto
    have "of_nat (heap_page q) + page_size = (of_nat (heap_page (Suc q)) :: u32)" by simp
    moreover have "\<exists>st'. install_range fuel (kmalloc_ap (Suc f)) 0x01FFF000 (of_nat (heap_page (Suc q))) st2 =
        Inr st' \<and> heap_mapped N 4 4095 st'"
      by (rule Suc.IH) (use q Suc.prems st2(2) in \<open>simp_all add: t_def\<close>)
    ultimately show ?thesis
      using lt st1(1) st2(1)
      by (simp add: set_page_get_page del: of_nat_mult of_nat_Suc of_nat_add)
  qed
qed

section \<open>The area once the heap uses it\<close>

text \<open>
  \<open>heap_area N c st\<close>: the tables as \<^verbatim>\<open>heap_install\<close> leaves them, except that the pages from \<open>c\<close> up to
  256, where the heap first ends, have been through \<^verbatim>\<open>free_frame\<close>: they are still present, with frame 0, whose
  bit is clear. Nothing is said about the heap itself.
\<close>

definition area_frame :: "nat \<Rightarrow> nat \<Rightarrow> nat" where
  "area_frame c p = (if c \<le> p \<and> p < 256 then 0 else 533 + p)"

definition heap_area :: "nat \<Rightarrow> nat \<Rightarrow> kst \<Rightarrow> bool" where
  "heap_area N c st \<longleftrightarrow> kernel_directory st = 0x201000 \<and> frames st = 0x200000 \<and>
     N \<le> managed_frames st \<and> unat (nframes st) \<le> 32768 \<and> cr3 st = 0x201000 \<and> paging_on st \<and>
     load32 (kmem st) 0x201000 = 0x204007 \<and>
     (\<forall>i. 0 < i \<and> i < 1024 \<longrightarrow> load32 (kmem st) (0x201000 + 4 * of_nat i) =
        (if 4 \<le> i \<and> i < 8 then of_nat (heap_table (i - 4)) OR 7 else 0)) \<and>
     (\<forall>j < 4. load32 (kmem st) (0x202000 + 4 * of_nat (4 + j)) = of_nat (heap_table j)) \<and>
     (\<forall>g < N. frame_bit st g = (g < 4628 \<and> (g = 0 \<longrightarrow> 256 \<le> c))) \<and>
     (\<forall>r < 1024. load32 (kmem st) (0x204000 + 4 * of_nat r) =
        (if r < 533 then page_entry (of_nat r) False False 0 else 0)) \<and>
     (\<forall>j < 4. \<forall>r < 1024. load32 (kmem st) (of_nat (heap_table j) + 4 * of_nat r) =
        (if 1024 * j + r < 4095 then page_entry (of_nat (area_frame c (1024 * j + r))) False False 0 else 0))"

lemma heap_mapped_area:
  assumes "heap_mapped N 4 4095 st" "4628 \<le> N"
  shows "heap_area N 256 st"
proof -
  have "N \<le> managed_frames st"
    using assms mult_div_mod_eq [of 32 "unat (nframes st)"] mod_less_divisor [of 32 "unat (nframes st)"]
    unfolding managed_frames_def heap_mapped_def by linarith
  moreover have "area_frame 256 p = 533 + p" for p by (simp add: area_frame_def)
  ultimately show ?thesis
    using assms(1) by (simp add: heap_mapped_def heap_area_def add.assoc)
qed

text \<open>Whatever the heap does above its start leaves the area as it is.\<close>

lemma heap_area_keep:
  assumes "heap_area N c st" "N \<le> 8192" "same_on 0 0x01000000 (kmem st) (kmem st')"
    and "kernel_directory st' = kernel_directory st" "frames st' = frames st" "nframes st' = nframes st"
    "cr3 st' = cr3 st" "paging_on st' = paging_on st"
  shows "heap_area N c st'"
proof -
  have keep: "load32 (kmem st') x = load32 (kmem st) x" if "unat x < 0x0FFFFFC" for x
    using same_on_load [OF assms(3), of "unat x"] that by simp
  have keeps: "load32 (kmem st') 0x201000 = load32 (kmem st) 0x201000"
    "i < 1024 \<Longrightarrow> load32 (kmem st') (0x200000 + 4 * of_nat i) = load32 (kmem st) (0x200000 + 4 * of_nat i)"
    "i < 1024 \<Longrightarrow> load32 (kmem st') (0x201000 + 4 * of_nat i) = load32 (kmem st) (0x201000 + 4 * of_nat i)"
    "i < 1024 \<Longrightarrow> load32 (kmem st') (0x202000 + 4 * of_nat i) = load32 (kmem st) (0x202000 + 4 * of_nat i)"
    "i < 1024 \<Longrightarrow> load32 (kmem st') (0x204000 + 4 * of_nat i) = load32 (kmem st) (0x204000 + 4 * of_nat i)"
    "j < 4 \<Longrightarrow> i < 1024 \<Longrightarrow> load32 (kmem st') (of_nat (heap_table j) + 4 * of_nat i) =
      load32 (kmem st) (of_nat (heap_table j) + 4 * of_nat i)" for i j
    by (rule keep; simp add: base_words heap_table_word(1); simp add: heap_table_def)+
  have "load32 (kmem st') (0x202000 + 4 * of_nat (4 + j)) = load32 (kmem st) (0x202000 + 4 * of_nat (4 + j))"
    if "j < 4" for j by (rule keeps(4)) (use that in simp)
  moreover have "frame_bit st' g = frame_bit st g" if "g < N" for g
    by (rule frame_bit_cong [OF assms(5)])
      (use that assms(1,2) keeps(2) [of "g div 32"] in \<open>simp add: heap_area_def div_less_iff_less_mult\<close>)
  moreover have "managed_frames st' = managed_frames st" by (simp add: managed_frames_def assms(6))
  ultimately show ?thesis
    using assms(1,4-8) keeps(1,3,5,6) unfolding heap_area_def by simp
qed

section \<open>The translation\<close>

lemma page_entry_frame:
  "f < 2 ^ 20 \<Longrightarrow> unat (page_entry (of_nat f) k w 0 AND 0xFFFFF000) = 4096 * f"
proof -
  assume f: "f < 2 ^ 20"
  have "page_entry (of_nat f) k w 0 AND 0xFFFFF000 = push_bit 12 (take_bit 20 (of_nat f))"
    using page_frame_addr_entry [of "of_nat f" k w 0] by (simp add: page_mask page_frame_addr_def)
  moreover have "unat (take_bit 20 (of_nat f) :: u32) = f"
    using f by (simp add: unsigned_take_bit_eq unat_of_nat_small take_bit_nat_eq_self)
  ultimately show ?thesis
    using f by (simp add: push_bit_eq_mult unat_word_ariths)
qed

lemma heap_table_pde:
  assumes "j < 4"
  shows "(of_nat (heap_table j) OR 7) AND 0xFFFFF000 = (of_nat (heap_table j) :: u32)"
    "bit (of_nat (heap_table j) OR 7 :: u32) 0"
proof -
  have "j = 0 \<or> j = 1 \<or> j = 2 \<or> j = 3" using assms by auto
  then show "(of_nat (heap_table j) OR 7) AND 0xFFFFF000 = (of_nat (heap_table j) :: u32)"
    by (elim disjE) (simp_all add: heap_table_def word_unat_eq_iff unat_page_mask)
qed (simp add: bit_or_iff)

lemma translate_heap_area:
  assumes "heap_area N c st" "c \<le> 256"
  shows "translate st a =
    (if a < 0x215000 then Some a
     else if 0x01000000 \<le> a \<and> a < 0x01FFF000
     then Some (if of_nat (heap_page c) \<le> a \<and> a < 0x01100000 then a AND 0xFFF else a - 0x01000000 + 0x215000)
     else None)"
proof -
  define t q where "t = unat a div 2 ^ 22" and "q = unat a div 4096"
  have h: "cr3 st = 0x201000" "load32 (kmem st) 0x201000 = 0x204007"
    "\<And>i. 0 < i \<Longrightarrow> i < 1024 \<Longrightarrow> load32 (kmem st) (0x201000 + 4 * of_nat i) =
        (if 4 \<le> i \<and> i < 8 then of_nat (heap_table (i - 4)) OR 7 else 0)"
    "\<And>r. r < 1024 \<Longrightarrow> load32 (kmem st) (0x204000 + 4 * of_nat r) =
        (if r < 533 then page_entry (of_nat r) False False 0 else 0)"
    "\<And>j r. j < 4 \<Longrightarrow> r < 1024 \<Longrightarrow> load32 (kmem st) (of_nat (heap_table j) + 4 * of_nat r) =
        (if 1024 * j + r < 4095 then page_entry (of_nat (area_frame c (1024 * j + r))) False False 0 else 0)"
    using assms(1) by (simp_all add: heap_area_def)
  have tq: "t = q div 1024" by (simp add: t_def q_def div_mult2_eq)
  have q20: "q < 2 ^ 20" using unat_less_pow [of a] by (simp add: q_def div_less_iff_less_mult)
  have t: "t < 1024" unfolding tq using q20 by (simp add: div_less_iff_less_mult)
  have ti: "drop_bit 22 a = of_nat t" unfolding t_def by (rule drop_bit_unat)
  have qi: "drop_bit 12 a mod 1024 = of_nat (q mod 1024)"
  proof -
    have "unat (of_nat q :: u32) = q" using q20 by (intro unat_of_nat_small) simp
    moreover have "unat (of_nat (q mod 1024) :: u32) = q mod 1024" by (rule unat_of_nat_small) simp
    moreover have "unat (1024 :: u32) = 1024" by simp
    moreover have "drop_bit 12 a = of_nat q" using drop_bit_unat [of 12 a] by (simp add: q_def)
    ultimately show ?thesis by (simp only: word_unat_eq_iff unat_mod)
  qed
  have tr: "translate st a =
      (let pde = load32 (kmem st) (0x201000 + 4 * of_nat t)
       in if \<not> bit pde 0 then None
          else let pte = load32 (kmem st) ((pde AND 0xFFFFF000) + 4 * of_nat (q mod 1024))
               in if \<not> bit pte 0 then None else Some ((pte AND 0xFFFFF000) + (a AND 0xFFF)))"
  proof -
    have "(0x201000 AND 0xFFFFF000 :: u32) = 0x201000"
      by (simp add: word_unat_eq_iff unat_page_mask)
    then show ?thesis by (simp only: translate_def h(1) ti qi)
  qed
  have aq: "a < of_nat (4096 * n) \<longleftrightarrow> q < n" if "n < 2 ^ 20" for n
  proof -
    have "unat (of_nat (4096 * n) :: u32) = 4096 * n" using that by (intro unat_of_nat_small) simp
    then show ?thesis
      unfolding word_less_nat_alt q_def by (simp add: div_less_iff_less_mult mult.commute del: of_nat_mult)
  qed
  from aq [of 533] aq [of 4096] aq [of 8191] aq [of 4352]
  have bounds: "a < 0x215000 \<longleftrightarrow> q < 533" "0x01000000 \<le> a \<longleftrightarrow> 4096 \<le> q" "a < 0x01FFF000 \<longleftrightarrow> q < 8191"
    "a < 0x01100000 \<longleftrightarrow> q < 4352"
    by (simp_all add: not_less [symmetric])
  have "heap_page c = 4096 * (4096 + c)" by simp
  then have bound: "of_nat (heap_page c) \<le> a \<longleftrightarrow> 4096 + c \<le> q"
    using aq [of "4096 + c"] assms(2) by (simp only: not_less [symmetric]) simp
  have qm: "1024 * t + q mod 1024 = q" by (simp add: tq)
  have ua: "unat (a AND 0xFFFFF000) = 4096 * q" by (simp add: unat_page_mask q_def)
  consider "t = 0" | "4 \<le> t" "t < 8" | "0 < t" "t < 4 \<or> 8 \<le> t" by linarith
  then show ?thesis
  proof cases
    case 1
    then have q: "q mod 1024 = q" "q < 1024" using qm mod_less_divisor [of 1024 q] by simp_all
    have "page_entry (of_nat q) False False 0 AND 0xFFFFF000 = a AND 0xFFFFF000"
      using page_entry_frame [OF q20, of False False] ua by (simp only: word_unat_eq_iff)
    moreover have "(0x204007 AND 0xFFFFF000 :: u32) = 0x204000"
      by (simp add: word_unat_eq_iff unat_page_mask)
    ultimately show ?thesis
      unfolding tr bounds using h(2) h(4) [OF q(2)] q 1 by (simp add: bit_page_entry page_split)
  next
    case 2
    define j where "j = t - 4"
    have j: "t = 4 + j" "j < 4" using 2 by (simp_all add: j_def)
    have q: "1024 * j + q mod 1024 = q - 4096" "4096 \<le> q" using qm j(1) by linarith+
    have r: "q mod 1024 < 1024" by simp
    have pde: "load32 (kmem st) (0x201000 + 4 * of_nat t) = of_nat (heap_table j) OR 7"
      using h(3) [of t] 2 t by (simp add: j_def)
    have pte: "load32 (kmem st) (of_nat (heap_table j) + 4 * of_nat (q mod 1024)) =
        (if q < 8191 then page_entry (of_nat (area_frame c (q - 4096))) False False 0 else 0)"
    proof -
      have "q - 4096 < 4095 \<longleftrightarrow> q < 8191" using q by linarith
      then show ?thesis using h(5) [OF j(2) r] by (simp only: q(1))
    qed
    have "page_entry (of_nat (q - 3563)) False False 0 AND 0xFFFFF000 =
        (a AND 0xFFFFF000) - 0x01000000 + 0x215000" if "q < 8191"
    proof -
      have "unat ((a AND 0xFFFFF000) - 0x01000000) = 4096 * q - 0x01000000"
        using ua q(2) by (subst unat_sub) (simp_all add: word_le_nat_alt)
      then have "unat ((a AND 0xFFFFF000) - 0x01000000 + 0x215000) = 4096 * (q - 3563)"
        using that q(2) by (subst unat_add_nowrap) simp_all
      moreover have "q - 3563 < 2 ^ 20" using that by simp
      ultimately show ?thesis
        using page_entry_frame [of "q - 3563" False False] by (simp only: word_unat_eq_iff)
    qed
    moreover have "533 + (q - 4096) = q - 3563" using q(2) by simp
    moreover have "page_entry (of_nat 0) False False 0 AND 0xFFFFF000 = 0"
      using page_entry_frame [of 0 False False] by (simp only: word_unat_eq_iff) simp
    moreover have "4096 + c \<le> q \<and> q < 4352 \<longleftrightarrow> c \<le> q - 4096 \<and> q - 4096 < 256" using q(2) by linarith
    moreover have "(a AND 0xFFFFF000) - 0x01000000 + 0x215000 + (a AND 0xFFF) = a - 0x01000000 + 0x215000"
      using page_split [of a] by (simp add: algebra_simps)
    ultimately show ?thesis
      unfolding tr bounds bound using q(2) heap_table_pde [OF j(2)] pde pte
      by (simp add: bit_page_entry area_frame_def del: unsigned_of_nat)
  next
    case 3
    then have "load32 (kmem st) (0x201000 + 4 * of_nat t) = 0" using h(3) [of t] t by auto
    moreover have "\<not> q < 533" "\<not> (4096 \<le> q \<and> q < 8191)" using 3 qm mod_less_divisor [of 1024 q] by linarith+
    ultimately show ?thesis unfolding tr bounds by simp
  qed
qed

section \<open>From paging to the heap\<close>

lemma heap_install_runs:
  assumes "mapped 4640 517 st" "cr3 st = 0x201000" "paging_on st"
  shows "\<exists>st'. heap_install (Suc f) st = Inr st' \<and> heap_inv st' [(True, 0x7F000)] \<and>
    (\<exists>h. kheap st' = Some h \<and> start_address h = 0x01081000 \<and> end_address h = 0x01100000 \<and>
      max_address h = 0x01FFF000 \<and> max_size (index h) = 0x20000 \<and> array (index h) = 0x01000000) \<and>
    heap_area 4640 256 st'"
proof -
  have pl: "placement_address st = of_nat (4096 * 517)" using assms(1) by (simp add: mapped_def)
  have fuel: "533 - 517 < page_fuel" "4095 - 0 < page_fuel" by (simp_all add: page_fuel_def)
  from install_low_mapped [OF assms(1) _ fuel(1), of "kmalloc_ap (Suc f)"] obtain st1 where st1:
    "install_low page_fuel (kmalloc_ap (Suc f)) (placement_address st) st = Inr st1" "mapped 4640 533 st1"
    "cr3 st1 = cr3 st" "paging_on st1 = paging_on st"
    unfolding pl by auto
  have "heap_mapped 4640 0 0 st1" using heap_mapped_start [OF st1(2)] st1(3,4) assms(2,3) by simp
  then have "heap_mapped 4640 ((0 + 1023) div 1024) 0 st1" by simp
  from install_range_mapped [OF this _ _ _ fuel(2), of f] obtain st2 where st2:
    "install_range page_fuel (kmalloc_ap (Suc f)) 0x01FFF000 0x01000000 st1 = Inr st2"
    "heap_mapped 4640 4 4095 st2"
    by auto
  have "kheap st2 = None" using st2(2) by (simp add: heap_mapped_def)
  from create_heap_inv [OF this, of "0x01000000" "0x01100000" f "0x01FFF000" 0 0] obtain h st3 where st3:
    "create_heap (kmalloc_a (Suc f)) 0x01000000 0x01100000 0x01FFF000 0 0 st2 = Inr (h, st3)"
    "heap_inv (set_heap h st3) [(True, 0x7F000)]" "start_address h = 0x01081000"
    "end_address h = 0x01100000" "max_address h = 0x01FFF000" "max_size (index h) = 0x20000"
    "array (index h) = 0x01000000" "same_on 0 0x01000000 (kmem st2) (kmem st3)"
    and st3_eq: "st3 = st2\<lparr>kmem := kmem st3, placement_address := placement_address st3, kenv := kenv st3\<rparr>"
    by auto
  have "heap_area 4640 256 (set_heap h st3)"
  proof (rule heap_area_keep [OF heap_mapped_area [OF st2(2)]])
    show "same_on 0 0x01000000 (kmem st2) (kmem (set_heap h st3))" using st3(8) by (simp add: set_heap_def)
  qed (simp, simp, (subst st3_eq, simp add: set_heap_def)+)
  moreover have "heap_install (Suc f) st = Inr (set_heap h st3)"
    by (simp add: heap_install_def st1(1) st2(1) st3(1))
  moreover have "kheap (set_heap h st3) = Some h" by (simp add: set_heap_def)
  ultimately show ?thesis using st3(2-7) by blast
qed

text \<open>
  C6. On a machine with at least 74240 KB of memory (and at most 128 MB, what the bitmap
  can describe), \<^verbatim>\<open>paging_init\<close> followed by \<^verbatim>\<open>heap_install\<close> returns and leaves a heap that is one hole
  of \<open>0x7F000\<close> bytes; the processor then translates the addresses below \<open>0x215000\<close> to themselves,
  the heap area, page by page, to the memory right after them, and no other address. In particular no two
  addresses share a byte.
\<close>
theorem heap_install_maps_heap:
  assumes "74240 \<le> unat available_mem" "unat available_mem \<le> 131072"
    and "placement_address st = 0x200000" "kheap st = None" "518 \<le> fuel"
  shows "\<exists>st1 st2 h. paging_init fuel handler available_mem hs st = Inr (hs(14 \<mapsto> handler), st1) \<and>
    heap_install (Suc f) st1 = Inr st2 \<and> paging_on st2 \<and>
    heap_inv st2 [(True, 0x7F000)] \<and> kheap st2 = Some h \<and>
    start_address h = 0x01081000 \<and> end_address h = 0x01100000 \<and> max_address h = 0x01FFF000 \<and>
    (\<forall>a. translate st2 a =
      (if a < 0x215000 then Some a
       else if 0x01000000 \<le> a \<and> a < 0x01FFF000 then Some (a - 0x01000000 + 0x215000) else None)) \<and>
    (\<forall>a b p. translate st2 a = Some p \<and> translate st2 b = Some p \<longrightarrow> a = b)"
proof -
  have "(544 :: nat) \<le> 4640" "(4640 :: nat) mod 32 = 0" "16 * 4640 \<le> unat available_mem"
    using assms(1) by simp_all
  from paging_init_mapped [OF this assms(2-5), of handler hs] obtain st1 where st1:
    "paging_init fuel handler available_mem hs st = Inr (hs(14 \<mapsto> handler), st1)" "mapped 4640 517 st1"
    "paging_on st1" "cr3 st1 = 0x201000"
    by blast
  from heap_install_runs [OF st1(2,4,3), of f] obtain st2 h where st2:
    "heap_install (Suc f) st1 = Inr st2" "heap_inv st2 [(True, 0x7F000)]" "kheap st2 = Some h"
    "start_address h = 0x01081000" "end_address h = 0x01100000" "max_address h = 0x01FFF000"
    "heap_area 4640 256 st2"
    by blast
  have on: "paging_on st2" using st2(7) by (simp add: heap_area_def)
  have tr: "translate st2 a = (if a < 0x215000 then Some a
     else if 0x01000000 \<le> a \<and> a < 0x01FFF000 then Some (a - 0x01000000 + 0x215000) else None)" for a
    using translate_heap_area [OF st2(7), of a] by (auto simp: not_less [symmetric])
  have "a = b" if "translate st2 a = Some p" "translate st2 b = Some p" for a b p
  proof -
    have up: "\<not> c - 0x01000000 + 0x215000 < (0x215000 :: u32)" if "0x01000000 \<le> c" "c < 0x01FFF000" for c
      using that by (simp add: word_less_nat_alt word_le_nat_alt unat_word_ariths unat_sub)
    show ?thesis
      using that up [of a] up [of b] unfolding tr by (auto split: if_splits)
  qed
  then show ?thesis using st1(1) st2(1-6) on tr by blast
qed

lemma heap_install_maps_heap_witness:
  "\<exists>st1 st2. paging_init 518 () 126976 no_handlers (blank_kst 0) = Inr (no_handlers(14 \<mapsto> ()), st1) \<and>
    heap_install 1 st1 = Inr st2 \<and> translate st2 0x01000234 = Some 0x215234 \<and> translate st2 0x215234 = None"
proof -
  have "74240 \<le> unat (126976 :: u32)" "unat (126976 :: u32) \<le> 131072"
    "placement_address (blank_kst 0) = 0x200000" "kheap (blank_kst 0) = None" "(518 :: nat) \<le> 518"
    by (simp_all add: blank_kst_facts)
  from heap_install_maps_heap [OF this, of "()" no_handlers 0] obtain st1 st2 where st:
    "paging_init 518 () 126976 no_handlers (blank_kst 0) = Inr (no_handlers(14 \<mapsto> ()), st1)"
    "heap_install (Suc 0) st1 = Inr st2"
    "\<forall>a. translate st2 a = (if a < 0x215000 then Some a
      else if 0x01000000 \<le> a \<and> a < 0x01FFF000 then Some (a - 0x01000000 + 0x215000) else None)"
    by (elim exE conjE) (rule that)
  have "translate st2 0x01000234 = Some 0x215234" "translate st2 0x215234 = None"
    using st(3) [rule_format, of "0x01000234"] st(3) [rule_format, of "0x215234"] by simp_all
  then show ?thesis using st(1,2) by (simp only: One_nat_def) blast
qed

end
