(* ===== verification/Heap_Aligned.thy ===== *)
theory Heap_Aligned
  imports Heap_Spec
begin

text \<open>
  Page-aligned allocation on the heap of \<open>Heap_Spec\<close>, and what becomes of the end of the heap when the
  last block is freed. \<open>alloc\<close> with \<^verbatim>\<open>page_align\<close> splits the hole in three: a smaller hole in front, the
  block, whose data start on a page, and the rest. When the hole is page-aligned already the
  one in front is empty, and the code lists the block itself as a hole.
\<close>

section \<open>The hole in front\<close>

text \<open>The size of the hole in front of a block whose data start on the next page.\<close>

definition front :: "nat \<Rightarrow> nat" where
  "front p = 4084 - p mod 4096"

lemma front_page: "p mod 4096 \<le> 4084 \<Longrightarrow> (p + front p + 12) mod 4096 = 0"
proof -
  assume "p mod 4096 \<le> 4084"
  then have "p + front p + 12 = 4096 * (p div 4096) + 4096"
    using mult_div_mod_eq [of 4096 p] unfolding front_def by linarith
  then show ?thesis by simp
qed

lemma low_bits_of_nat:
  assumes "p < 2 ^ 32"
  shows "of_nat p AND 0xFFF = (of_nat (p mod 4096) :: u32)"
  using assms by (simp add: word_unat_eq_iff unat_and_low_bits unat_of_nat_small)

lemma front_words:
  assumes "p < 2 ^ 31" "p mod 4096 \<le> 4084"
  shows "page_size - (of_nat p AND 0xFFF) - 12 = (of_nat (front p) :: u32)"
    "of_nat p + page_size - (of_nat p AND 0xFFF) - 12 = (of_nat (p + front p) :: u32)"
proof -
  have "(of_nat p AND 0xFFF :: u32) = of_nat (p mod 4096)" using assms(1) by (intro low_bits_of_nat) simp
  then show "page_size - (of_nat p AND 0xFFF) - 12 = (of_nat (front p) :: u32)"
    "of_nat p + page_size - (of_nat p AND 0xFFF) - 12 = (of_nat (p + front p) :: u32)"
    using assms(2) by (simp_all add: front_def of_nat_diff)
qed

lemma hole_fits_aligned:
  assumes "p < 2 ^ 31" "4084 \<le> p" "k < 2 ^ 31" "get_size m (of_nat p) = of_nat k" "n < 2 ^ 31"
  shows "hole_fits (of_nat n) 1 m (of_nat p) = Inr (4096 - (p + 12) mod 4096 + n \<le> k)"
proof -
  have u: "unat (of_nat p + 12 :: u32) = p + 12"
    using assms(1) by (simp add: unat_word_ariths unat_of_nat)
  have nz: "(of_nat p + 12) AND 0xFFFFF000 \<noteq> (0 :: u32)"
  proof
    assume "(of_nat p + 12) AND 0xFFFFF000 = (0 :: u32)"
    then have "4096 * ((p + 12) div 4096) = 0"
      using unat_page_mask [of "of_nat p + 12"] unfolding u by simp
    then show False using assms(2) by (simp add: div_eq_0_iff)
  qed
  define r where "r = (p + 12) mod 4096"
  have r: "r < 4096" by (simp add: r_def)
  have "unat ((of_nat p + 12) mod page_size :: u32) = r"
    by (simp only: unat_mod u) (simp add: r_def)
  then have "uint (page_size - (of_nat p + 12) mod page_size :: u32) = int (4096 - r)"
    using r unfolding uint_nat by (subst unat_sub_le) (simp_all add: word_le_nat_alt)
  moreover have s: "sint (of_nat x :: u32) = int x" if "x < 2 ^ 31" for x
    using that by (simp add: signed_of_nat signed_take_bit_int_eq_self)
  ultimately show ?thesis
    unfolding r_def [symmetric] using nz r assms(3,4,5)
    by (simp add: hole_fits_def s Let_def c_int_ok_def c_int_max_def c_int_min_def) linarith
qed

lemma front_offset: "p mod 4096 < 4084 \<Longrightarrow> 4096 - (p + 12) mod 4096 = front p"
  by (simp add: mod_add_left_eq [symmetric, of p 12] front_def del: mod_add_left_eq)

lemma find_only_hole:
  assumes "kheap st = Some h" "oa_size (index h) = 1" "oa_list (index h) (kmem st) ! 0 = x"
    and "hole_fits n al (kmem st) x = Inr True"
  shows "find_smallest_hole n al st = Inr 0"
proof -
  have "lookup_ordered_array 0 (index h) (kmem st) = Inr x"
    using assms(2,3) by (simp add: lookup_ordered_array_def oa_list_def slot_def)
  then show ?thesis
    using assms(1,2,4) find_hole_from.simps [of n al "index h" "kmem st" 0]
    by (simp add: find_smallest_hole_def with_heap_def)
qed

section \<open>The writes of an aligned allocation\<close>

definition write_front :: "nat \<Rightarrow> nat \<Rightarrow> mem \<Rightarrow> mem" where
  "write_front p f m = set_header (of_nat (p + f - 8)) (of_nat p) (set_magic (of_nat (p + f - 8))
     (set_is_hole (of_nat p) 1 (set_magic (of_nat p) (set_size (of_nat p) (of_nat f) m))))"

lemma write_front_ok:
  assumes "20 \<le> f" "p + f \<le> 2 ^ 32"
  shows "block_ok (write_front p f m) e (p, True, f)"
    "hi \<le> p \<or> p + f \<le> lo \<Longrightarrow> same_on lo hi m (write_front p f m)"
proof -
  define m1 where "m1 = set_is_hole (of_nat p) 1 (set_magic (of_nat p) (set_size (of_nat p) (of_nat f) m))"
  define F where "F = p + f - 8"
  have F: "p + 12 \<le> F" "F + 8 = p + f" using assms by (simp_all add: F_def)
  have h1: "hdr m1 p True f" by (rule set_hole_header [OF _ m1_def]) (use F assms in simp)
  have m': "write_front p f m = store32 (store32 m1 (of_nat F) heap_magic) (of_nat (F + 4)) (of_nat p)"
    unfolding write_front_def m1_def [symmetric] F_def [symmetric]
    by (simp add: set_header_def set_magic_def add.commute)
  have s1: "same_on lo hi m1 (write_front p f m)" if "hi \<le> F \<or> p + f \<le> lo" for lo hi
    unfolding m'
    by (rule same_on_trans [OF same_on_store32 same_on_store32]) (use that F assms in auto)
  have "hdr (write_front p f m) p True f"
    by (rule hdr_cong [OF s1 _ h1]) (use F assms in auto)
  moreover have "load32 (write_front p f m) (of_nat F) = heap_magic"
    unfolding m' by (subst load32_store32_nat) (use F assms in auto)
  then have "ftr (write_front p f m) F p"
    unfolding ftr_def get_magic_def get_header_def m' by (simp add: add.commute)
  ultimately show "block_ok (write_front p f m) e (p, True, f)"
    using assms(1) by (simp add: block_ok_def F_def)
  show "same_on lo hi m (write_front p f m)" if "hi \<le> p \<or> p + f \<le> lo"
    using set_hole_same [of p hi lo m "of_nat f", folded m1_def] s1 [of hi lo] that F assms
    by (auto intro: same_on_trans)
qed

lemma alloc_in_hole_aligned_writes:
  assumes "kheap st = Some h" "i < oa_size (index h)"
    and "load32 (kmem st) (slot (index h) i) = of_nat p" "get_size (kmem st) (of_nat p) = of_nat k"
    and "p < 2 ^ 31" "4096 \<le> p" "p mod 4096 \<le> 4084" "f = front p" "new = unat n + 20"
    and "f + new + 20 \<le> k" "p + k \<le> unat (end_address h)"
    and "m1 = write_front p f (kmem st)"
    and "get_size m1 (of_nat p) = of_nat f"
    and "m2 = write_block (of_nat (p + f)) 0 (of_nat new) (of_nat (p + f + new - 8)) m1"
    and "m3 = write_block (of_nat (p + f + new)) 1 (of_nat (k - f - new)) (of_nat (p + k - 8)) m2"
  shows "alloc_in_hole i n (n + 12 + 8) 1 st =
    res_bind (index_insert (of_nat (p + f + new)) (st\<lparr>kmem := m3\<rparr>)) (\<lambda>st. Inr (of_nat (p + f + 12), st))"
proof -
  have k32: "k < 2 ^ 32" "p + k < 2 ^ 32"
    using assms(11) unat_less_pow [of "end_address h"] by simp_all
  have f: "8 \<le> p + f" using assms(6) by simp
  have new: "n + 12 + 8 = of_nat new" by (simp add: assms(9))
  have ux: "unat (of_nat x :: u32) = x" if "x \<le> p + k" for x
    using that k32 by (intro unat_of_nat_small) simp
  have d1: "of_nat k - of_nat new = (of_nat (k - new) :: u32)" "\<not> of_nat (k - new) < (12 + 8 :: u32)"
    "of_nat k - of_nat f = (of_nat (k - f) :: u32)" "of_nat (k - f) - of_nat new = (of_nat (k - f - new) :: u32)"
    "(0 :: u32) < of_nat (k - f - new)"
    using assms(10) f ux [of "k - new"] ux [of "k - f - new"] by (simp_all add: of_nat_diff word_less_nat_alt)
  have look: "lookup_ordered_array i (index h) (kmem st) = Inr (of_nat p)"
    using assms(2,3) by (simp add: lookup_ordered_array_def)
  have nz: "of_nat p AND 0xFFFFF000 \<noteq> (0 :: u32)"
    using assms(6) ux [of p] by (simp add: word_unat_eq_iff unat_page_mask div_eq_0_iff)
  note fw = front_words [OF assms(5), folded assms(8)]
  note p4084 = assms(7)
  have w: "of_nat (p + f) - 8 = (of_nat (p + f - 8) :: u32)" "of_nat (p + f) + 12 = (of_nat (p + f + 12) :: u32)"
    "of_nat (p + f + 12) + n = (of_nat (p + f + new - 8) :: u32)"
    "of_nat (p + f + new - 8) + 8 = (of_nat (p + f + new) :: u32)"
    "of_nat (p + f + new) + of_nat (k - f) - of_nat new - 8 = (of_nat (p + k - 8) :: u32)"
    using f assms(9,10) by (simp_all add: of_nat_diff)
  have lt: "of_nat (p + k - 8) < end_address h"
    using assms(10,11) ux [of "p + k - 8"] by (simp add: word_less_nat_alt)
  have kh: "kheap (st\<lparr>kmem := x\<rparr>) = Some h" "kmem (st\<lparr>kmem := x\<rparr>) = x" for x
    using assms(1) by simp_all
  have kho: "kheap (on_mem g s) = kheap s" for g s by (simp add: on_mem_def)
  have one: "(1 :: u8) \<noteq> 0" by simp
  have front: "on_mem (set_header (of_nat (p + f - 8)) (of_nat p)) (on_mem (set_magic (of_nat (p + f - 8)))
      (on_mem (set_is_hole (of_nat p) 1) (on_mem (set_magic (of_nat p)) (on_mem (set_size (of_nat p) (of_nat f)) st)))) =
      st\<lparr>kmem := m1\<rparr>"
    by (simp add: on_mem_def assms(12) write_front_def)
  have block: "on_mem (set_header (of_nat (p + f + new - 8)) (of_nat (p + f))) (on_mem (set_magic (of_nat (p + f + new - 8)))
      (on_mem (set_size (of_nat (p + f)) (of_nat new)) (on_mem (set_is_hole (of_nat (p + f)) 0)
        (on_mem (set_magic (of_nat (p + f))) (st\<lparr>kmem := m1\<rparr>))))) = st\<lparr>kmem := m2\<rparr>"
    by (simp add: on_mem_def assms(14) write_block_def)
  have rest: "on_mem (set_header (of_nat (p + k - 8)) (of_nat (p + f + new))) (on_mem (set_magic (of_nat (p + k - 8)))
      (on_mem (set_size (of_nat (p + f + new)) (of_nat (k - f - new))) (on_mem (set_is_hole (of_nat (p + f + new)) 1)
        (on_mem (set_magic (of_nat (p + f + new))) (st\<lparr>kmem := m2\<rparr>))))) = st\<lparr>kmem := m3\<rparr>"
    by (simp add: on_mem_def assms(15) write_block_def)
  show ?thesis
    unfolding alloc_in_hole_def Let_def new
    by (simp only: with_heap_def assms(1) kh kho option.case look res_bind_Inr assms(4) d1 nz one if_True if_False
        fw [OF p4084] w prod.case front assms(13) block rest lt simp_thms not_False_eq_True)
qed

section \<open>The heap after an aligned allocation\<close>

text \<open>The index operations write nothing below the index.\<close>

lemma index_insert_below:
  assumes "index_insert x st = Inr st'" "kheap st = Some h" "oa_wf (index h)"
    and "unat (array (index h)) + 4 * Suc (unat (oa_size (index h))) \<le> 2 ^ 32"
  shows "same_on 0 (unat (array (index h))) (kmem st) (kmem st')"
proof -
  from insert_ordered_array_list [OF assms(3), of x "kmem st"] obtain m' where m':
    "insert_ordered_array x (index h) (kmem st) = Inr ((index h)\<lparr>oa_size := oa_size (index h) + 1\<rparr>, m')"
    "unchanged_outside (array (index h)) (4 * Suc (unat (oa_size (index h)))) (kmem st) m'" by blast
  have "kmem st' = m'"
    using assms(1,2) m'(1) by (auto simp: index_insert_def with_heap_def set_heap_def)
  then show ?thesis using same_on_outside [OF m'(2)] assms(4) by simp
qed

lemma index_remove_below:
  assumes "index_remove i st = Inr st'" "kheap st = Some h" "oa_wf (index h)" "i < oa_size (index h)"
    and "unat (array (index h)) + 4 * unat (oa_size (index h)) \<le> 2 ^ 32"
  shows "same_on 0 (unat (array (index h))) (kmem st) (kmem st')"
proof -
  from remove_ordered_array_list [OF assms(3,4), of "kmem st"] obtain m' where m':
    "remove_ordered_array i (index h) (kmem st) = ((index h)\<lparr>oa_size := oa_size (index h) - 1\<rparr>, m')"
    "unchanged_outside (array (index h)) (4 * unat (oa_size (index h))) (kmem st) m'" by blast
  have "kmem st' = m'"
    using assms(1,2) m'(1) by (auto simp: index_remove_def with_heap_def set_heap_def)
  then show ?thesis using same_on_outside [OF m'(2)] assms(5) by simp
qed

lemma alloc_aligned_split:
  assumes "heap_inv st (pre @ (True, k) # post)" "kheap st = Some h"
    and "find_smallest_hole (n + 12 + 8) 1 st = Inr i" "i < oa_size (index h)"
    and "oa_list (index h) (kmem st) ! unat i = of_nat p" "p = unat (start_address h) + room pre"
    and "4096 \<le> p" "p < 2 ^ 31" "p mod 4096 \<le> 4064" "f = front p" "new = unat n + 20" "f + new + 20 \<le> k"
    and "oa_size (index h) < max_size (index h)"
  shows "\<exists>st'. alloc (Suc fuel) n 1 st = Inr (of_nat (p + f + 12), st') \<and>
    heap_inv st' (pre @ [(True, f), (False, new), (True, k - f - new)] @ post) \<and>
    same_on (unat (start_address h)) p (kmem st) (kmem st') \<and>
    same_on (p + k) (2 ^ 32) (kmem st) (kmem st') \<and>
    (\<exists>a. kheap st' = Some (h\<lparr>index := a\<rparr>) \<and> max_size a = max_size (index h) \<and> array a = array (index h) \<and>
      oa_size a = oa_size (index h) + 1) \<and> st' = st\<lparr>kmem := kmem st', kheap := kheap st'\<rparr> \<and>
    same_on 0 (unat (array (index h))) (kmem st) (kmem st')"
proof -
  define a e where "a = unat (start_address h)" and "e = unat (end_address h)"
  from assms(1,2) have inv: "oa_wf (index h)" "less_than (index h) = Some header_t_less_than"
    "unat (oa_size (index h)) \<le> unat (max_size (index h))" "unat (max_size (index h)) \<le> 2 ^ 20"
    "unat (array (index h)) + 4 * unat (max_size (index h)) \<le> a"
    "tiles (kmem st) a (pre @ (True, k) # post) e"
    "mset (oa_list (index h) (kmem st)) = image_mset of_nat (mset (holes a (pre @ (True, k) # post)))"
    by (auto simp: a_def e_def elim!: heap_invE)
  have e32: "e < 2 ^ 32" using unat_less_pow [of "end_address h"] by (simp add: e_def)
  have p: "p = a + room pre" using assms(6) by (simp add: a_def)
  note blk = tiles_block [OF inv(6), folded p]
  have f20: "20 \<le> f" using assms(9,10) by (simp add: front_def)
  have pk: "p + k < 2 ^ 32" using blk(3) e32 by simp
  have ui: "unat i < unat (oa_size (index h))" using assms(4) by (simp add: word_less_nat_alt)
  have sl: "load32 (kmem st) (slot (index h) i) = of_nat p"
    using assms(5) ui by (simp add: oa_list_def slot_def)
  define m1 where "m1 = write_front p f (kmem st)"
  define m2 where "m2 = write_block (of_nat (p + f)) 0 (of_nat new) (of_nat (p + f + new - 8)) m1"
  define m3 where "m3 = write_block (of_nat (p + f + new)) 1 (of_nat (k - f - new)) (of_nat (p + k - 8)) m2"
  have m2: "m2 = write_block (of_nat (p + f)) (if False then 1 else 0) (of_nat new) (of_nat (p + f + new - 8)) m1"
    by (simp add: m2_def)
  have m3: "m3 = write_block (of_nat (p + f + new)) (if True then 1 else 0) (of_nat (k - f - new))
      (of_nat (p + f + new + (k - f - new) - 8)) m2"
    using assms(12) by (simp add: m3_def)
  have new20: "20 \<le> new" by (simp add: assms(11))
  note w1 = write_front_ok [OF f20, where p = p and m = "kmem st", folded m1_def]
  note w2 = write_block_ok(3) [OF new20 _ m2] and w3 = write_block_ok(3) [OF _ _ m3]
  have ok1: "block_ok m1 e (p, True, f)" by (rule w1(1)) (use pk assms(12) in simp)
  have ok2: "block_ok m2 e (p + f, False, new)"
    by (rule write_block_in_tiles [OF new20 _ m2]) (use pk assms(12) in simp)
  have ok3: "block_ok m3 e (p + f + new, True, k - f - new)"
    by (rule write_block_in_tiles [OF _ _ m3]) (use pk assms(12) in simp_all)
  have s12: "same_on lo hi m1 m2" if "hi \<le> p + f \<or> p + f + new \<le> lo" for lo hi
    by (rule w2) (use that pk assms(12) in auto)
  have s23: "same_on lo hi m2 m3" if "hi \<le> p + f + new \<or> p + k \<le> lo" for lo hi
    by (rule w3) (use that pk assms(12) in auto)
  have out: "same_on lo hi (kmem st) m3" if "hi \<le> p \<or> p + k \<le> lo" for lo hi
    by (rule same_on_trans [OF w1(2) same_on_trans [OF s12 s23]]) (use that pk assms(12) in auto)
  have ok1': "block_ok m3 e (p, True, f)"
    by (rule block_ok_cong [OF ok1 same_on_trans [OF s12 s23]]) (use pk assms(12) in auto)
  have ok2': "block_ok m3 e (p + f, False, new)"
    by (rule block_ok_cong [OF ok2 s23]) (use pk assms(12) in auto)
  have p4084: "p mod 4096 \<le> 4084" using assms(9) by simp
  have "get_size m1 (of_nat p) = of_nat f" "get_size (kmem st) (of_nat p) = of_nat k"
    using ok1 blk(4) by (simp_all add: block_ok_def hdr_def)
  with alloc_in_hole_aligned_writes [OF assms(2,4) sl this(2) assms(8,7) p4084 assms(10,11,12) _ m1_def this(1) m2_def m3_def] blk(3)
  have "alloc_in_hole i n (n + 12 + 8) 1 st =
      res_bind (index_insert (of_nat (p + f + new)) (st\<lparr>kmem := m3\<rparr>)) (\<lambda>st. Inr (of_nat (p + f + 12), st))"
    by (simp add: e_def)
  moreover have "i \<noteq> 0xDEADBEEF"
    using ui inv(3,4) by auto
  ultimately have call: "alloc (Suc fuel) n 1 st =
      res_bind (index_insert (of_nat (p + f + new)) (st\<lparr>kmem := m3\<rparr>)) (\<lambda>st. Inr (of_nat (p + f + 12), st))"
    using assms(3) by (simp only: alloc.simps Let_def res_bind_Inr if_False)
  have a32: "a \<le> 2 ^ 32" "a \<le> p" using p pk by simp_all
  have idx: "oa_list (index h) m3 = oa_list (index h) (kmem st)"
    by (rule oa_list_same_on [OF out [of a 0]]) (use a32 inv(3,5) in simp_all)
  have mx: "unat (oa_size (index h)) < unat (max_size (index h))"
    using assms(13) by (simp add: word_less_nat_alt)
  have "\<exists>m4 a'. index_insert (of_nat (p + f + new)) (st\<lparr>kmem := m3\<rparr>) =
        Inr (set_heap (h\<lparr>index := a'\<rparr>) (st\<lparr>kmem := m3\<rparr>\<lparr>kmem := m4\<rparr>)) \<and>
      a' = (index h)\<lparr>oa_size := oa_size (index h) + 1\<rparr> \<and> oa_wf a' \<and>
      unat (oa_size a') = Suc (unat (oa_size (index h))) \<and>
      mset (oa_list a' m4) = add_mset (of_nat (p + f + new)) (mset (oa_list (index h) m3)) \<and>
      same_on a (2 ^ 32) m3 m4"
    using index_insert_spec [of "st\<lparr>kmem := m3\<rparr>" h a "of_nat (p + f + new)"] assms(2) mx inv(1,4,5) a32
    by simp
  then obtain m4 a' where ins:
    "index_insert (of_nat (p + f + new)) (st\<lparr>kmem := m3\<rparr>) =
        Inr (set_heap (h\<lparr>index := a'\<rparr>) (st\<lparr>kmem := m3\<rparr>\<lparr>kmem := m4\<rparr>))"
    "a' = (index h)\<lparr>oa_size := oa_size (index h) + 1\<rparr>" "oa_wf a'"
    "unat (oa_size a') = Suc (unat (oa_size (index h)))"
    "mset (oa_list a' m4) = add_mset (of_nat (p + f + new)) (mset (oa_list (index h) m3))"
    "same_on a (2 ^ 32) m3 m4"
    by blast
  define st' where "st' = set_heap (h\<lparr>index := a'\<rparr>) (st\<lparr>kmem := m4\<rparr>)"
  have st': "set_heap (h\<lparr>index := a'\<rparr>) (st\<lparr>kmem := m3\<rparr>\<lparr>kmem := m4\<rparr>) = st'" "kmem st' = m4"
    by (simp_all add: st'_def set_heap_def)
  let ?bs = "pre @ [(True, f), (False, new), (True, k - f - new)] @ post"
  have "tiles m4 a ?bs e"
  proof (rule tiles_replace [of "kmem st" a pre "[(True, k)]" post e])
    show "same_on a (a + room pre) (kmem st) m4"
      using p pk by (intro same_on_trans [OF out same_on_sub [OF ins(6)]]) auto
    show "same_on (a + room pre + room [(True, k)]) e (kmem st) m4"
      using p pk e32 by (intro same_on_trans [OF out same_on_sub [OF ins(6)]]) auto
    show "block_ok m4 e b"
      if "b \<in> set (layout (a + room pre) [(True, f), (False, new), (True, k - f - new)])" for b
    proof -
      have s: "same_on x y m3 m4" if "a \<le> x" "y \<le> 2 ^ 32" for x y
        using that by (rule same_on_sub [OF ins(6)])
      have "block_ok m4 e (p, True, f)" "block_ok m4 e (p + f, False, new)"
        "block_ok m4 e (p + f + new, True, k - f - new)"
        by (rule block_ok_cong [OF ok1' s] block_ok_cong [OF ok2' s] block_ok_cong [OF ok3 s];
            use a32 pk assms(12) in simp)+
      then show ?thesis using that by (auto simp: p)
    qed
  qed (use inv(6) e32 assms(12) in simp_all)
  then have "heap_inv st' ?bs"
    using inv ins(2-5) mx idx p assms(12)
    by (simp add: heap_inv_def st'_def set_heap_def word_le_nat_alt a_def [symmetric] e_def [symmetric] add.assoc)
  moreover have "same_on a p (kmem st) m4" "same_on (p + k) (2 ^ 32) (kmem st) m4"
    by (rule same_on_trans [OF out same_on_sub [OF ins(6)]]; use a32 pk in simp)+
  moreover have "same_on 0 (unat (array (index h))) (kmem st) m4"
  proof (rule same_on_trans [OF out])
    show "same_on 0 (unat (array (index h))) m3 m4"
      using index_insert_below [OF ins(1) _ inv(1)] assms(2) mx inv(5) a32 by (simp add: set_heap_def)
  qed (use inv(5) a32 in simp)
  ultimately show ?thesis
    using call ins(1,2) st' unfolding a_def
    by (intro exI [of _ st']) (auto simp: st'_def set_heap_def)
qed

section \<open>A hole that is page-aligned already\<close>

lemma write_empty_front:
  assumes "8 \<le> p" "p + 12 \<le> 2 ^ 32"
  shows "hdr (write_front p 0 m) p True 0" "get_header (write_front p 0 m) (of_nat (p - 8)) = of_nat p"
    "hi \<le> p - 8 \<or> p + 12 \<le> lo \<Longrightarrow> same_on lo hi m (write_front p 0 m)"
proof -
  define m1 where "m1 = set_is_hole (of_nat p) 1 (set_magic (of_nat p) (set_size (of_nat p) (of_nat 0) m))"
  have h1: "hdr m1 p True 0" by (rule set_hole_header [OF _ m1_def]) (use assms in simp)
  have m': "write_front p 0 m = store32 (store32 m1 (of_nat (p - 8)) heap_magic) (of_nat (p - 8 + 4)) (of_nat p)"
    unfolding write_front_def m1_def [symmetric] by (simp add: set_header_def set_magic_def add.commute)
  have s1: "same_on lo hi m1 (write_front p 0 m)" if "hi \<le> p - 8 \<or> p \<le> lo" for lo hi
    unfolding m'
    by (rule same_on_trans [OF same_on_store32 same_on_store32]) (use that assms in auto)
  show "hdr (write_front p 0 m) p True 0"
    by (rule hdr_cong [OF s1 _ h1]) (use assms in auto)
  show "get_header (write_front p 0 m) (of_nat (p - 8)) = of_nat p"
    unfolding get_header_def m' by (simp add: add.commute)
  show "same_on lo hi m (write_front p 0 m)" if d: "hi \<le> p - 8 \<or> p + 12 \<le> lo"
  proof -
    have "hi \<le> p \<or> p + 12 \<le> lo" using d by auto
    then show ?thesis using set_hole_same [of p hi lo m "of_nat 0", folded m1_def] s1 [of hi lo] d assms
      by (auto intro: same_on_trans)
  qed
qed

lemma alloc_page_ready:
  assumes "heap_inv st (pre @ (False, ln) # (True, k) # post)" "kheap st = Some h"
    and "find_smallest_hole (n + 12 + 8) 1 st = Inr i" "i < oa_size (index h)"
    and "oa_list (index h) (kmem st) ! unat i = of_nat p" "p = unat (start_address h) + room pre + ln"
    and "4096 \<le> p" "p < 2 ^ 31" "p mod 4096 = 4084" "new = unat n + 20" "new + 20 \<le> k"
    and "oa_size (index h) < max_size (index h)"
  shows "\<exists>st' h'. alloc (Suc fuel) n 1 st = Inr (of_nat (p + 12), st') \<and> kheap st' = Some h' \<and>
    hdr (kmem st') p False new \<and> of_nat p \<in> set (oa_list (index h') (kmem st')) \<and>
    get_header (kmem st') (of_nat (p - 8)) = of_nat p"
proof -
  define a e where "a = unat (start_address h)" and "e = unat (end_address h)"
  let ?bs = "(pre @ [(False, ln)]) @ (True, k) # post"
  from assms(1,2) have inv: "oa_wf (index h)"
    "unat (oa_size (index h)) \<le> unat (max_size (index h))" "unat (max_size (index h)) \<le> 2 ^ 20"
    "unat (array (index h)) + 4 * unat (max_size (index h)) \<le> a" "tiles (kmem st) a ?bs e"
    "tiles (kmem st) a (pre @ (False, ln) # (True, k) # post) e"
    by (auto simp: a_def e_def elim!: heap_invE)
  have e32: "e < 2 ^ 32" using unat_less_pow [of "end_address h"] by (simp add: e_def)
  have p: "p = a + room (pre @ [(False, ln)])" using assms(6) by (simp add: a_def)
  note blk = tiles_block [OF inv(5), folded p]
  have ln: "20 \<le> ln" by (rule tiles_block(2) [OF inv(6)])
  have pk: "p + k < 2 ^ 32" using blk(3) e32 by simp
  have ui: "unat i < unat (oa_size (index h))" using assms(4) by (simp add: word_less_nat_alt)
  have sl: "load32 (kmem st) (slot (index h) i) = of_nat p"
    using assms(5) ui by (simp add: oa_list_def slot_def)
  have f0: "0 = front p" using assms(9) by (simp add: front_def)
  define m1 where "m1 = write_front p 0 (kmem st)"
  define m2 where "m2 = write_block (of_nat (p + 0)) 0 (of_nat new) (of_nat (p + 0 + new - 8)) m1"
  define m3 where "m3 = write_block (of_nat (p + 0 + new)) 1 (of_nat (k - 0 - new)) (of_nat (p + k - 8)) m2"
  have m2: "m2 = write_block (of_nat p) (if False then 1 else 0) (of_nat new) (of_nat (p + new - 8)) m1"
    by (simp add: m2_def)
  have m3: "m3 = write_block (of_nat (p + new)) (if True then 1 else 0) (of_nat (k - new))
      (of_nat (p + new + (k - new) - 8)) m2"
    using assms(11) by (simp add: m3_def)
  have new20: "20 \<le> new" by (simp add: assms(10))
  have p8: "8 \<le> p" "p + 12 \<le> 2 ^ 32" using assms(7) pk new20 assms(11) by simp_all
  note w1 = write_empty_front [OF p8, where m = "kmem st", folded m1_def]
  note w2 = write_block_ok [OF new20 _ m2] and w3 = write_block_ok(3) [OF _ _ m3]
  have h2: "hdr m2 p False new" by (rule w2(1)) (use pk assms(11) in simp)
  have s12: "same_on lo hi m1 m2" if "hi \<le> p \<or> p + new \<le> lo" for lo hi
    by (rule w2(3)) (use that pk assms(11) in auto)
  have s23: "same_on lo hi m2 m3" if "hi \<le> p + new \<or> p + k \<le> lo" for lo hi
    by (rule w3) (use that pk assms(11) in auto)
  have p4084: "p mod 4096 \<le> 4084" using assms(9) by simp
  have sizes: "get_size m1 (of_nat p) = of_nat 0" "get_size (kmem st) (of_nat p) = of_nat k"
    using w1(1) blk(4) by (simp_all add: hdr_def)
  from alloc_in_hole_aligned_writes [OF assms(2,4) sl sizes(2) assms(8,7) p4084 f0 assms(10) _ _ m1_def sizes(1) m2_def m3_def]
    blk(3) assms(11)
  have "alloc_in_hole i n (n + 12 + 8) 1 st =
      res_bind (index_insert (of_nat (p + new)) (st\<lparr>kmem := m3\<rparr>)) (\<lambda>st. Inr (of_nat (p + 12), st))"
    by (simp add: e_def)
  moreover have "i \<noteq> 0xDEADBEEF"
    using ui inv(2,3) by auto
  ultimately have call: "alloc (Suc fuel) n 1 st =
      res_bind (index_insert (of_nat (p + new)) (st\<lparr>kmem := m3\<rparr>)) (\<lambda>st. Inr (of_nat (p + 12), st))"
    using assms(3) by (simp only: alloc.simps Let_def res_bind_Inr if_False)
  have ap: "a + 20 \<le> p" using p ln by simp
  have a32: "a \<le> 2 ^ 32" "a \<le> p" using ap pk by simp_all
  have idx: "oa_list (index h) m3 = oa_list (index h) (kmem st)"
  proof (rule oa_list_same_on)
    show "same_on 0 a (kmem st) m3"
      by (rule same_on_trans [OF w1(3) same_on_trans [OF s12 s23]]) (use ap in auto)
  qed (use a32 inv(2,4) in simp_all)
  have mx: "unat (oa_size (index h)) < unat (max_size (index h))"
    using assms(12) by (simp add: word_less_nat_alt)
  have "\<exists>m4 a'. index_insert (of_nat (p + new)) (st\<lparr>kmem := m3\<rparr>) =
        Inr (set_heap (h\<lparr>index := a'\<rparr>) (st\<lparr>kmem := m3\<rparr>\<lparr>kmem := m4\<rparr>)) \<and>
      a' = (index h)\<lparr>oa_size := oa_size (index h) + 1\<rparr> \<and> oa_wf a' \<and>
      unat (oa_size a') = Suc (unat (oa_size (index h))) \<and>
      mset (oa_list a' m4) = add_mset (of_nat (p + new)) (mset (oa_list (index h) m3)) \<and>
      same_on a (2 ^ 32) m3 m4"
    using index_insert_spec [of "st\<lparr>kmem := m3\<rparr>" h a "of_nat (p + new)"] assms(2) mx inv(1,3,4) a32
    by simp
  then obtain m4 a' where ins:
    "index_insert (of_nat (p + new)) (st\<lparr>kmem := m3\<rparr>) =
        Inr (set_heap (h\<lparr>index := a'\<rparr>) (st\<lparr>kmem := m3\<rparr>\<lparr>kmem := m4\<rparr>))"
    "mset (oa_list a' m4) = add_mset (of_nat (p + new)) (mset (oa_list (index h) m3))"
    "same_on a (2 ^ 32) m3 m4"
    by blast
  have "hdr m4 p False new"
    by (rule hdr_cong [OF same_on_trans [OF s23 same_on_sub [OF ins(3)]] _ h2]) (use a32 pk new20 assms(11) in auto)
  moreover have "load32 m4 (of_nat (p - 4)) = load32 m1 (of_nat (p - 4))"
  proof (rule same_on_load)
    show "same_on (p - 4) p m1 m4"
      by (rule same_on_trans [OF s12 same_on_trans [OF s23 same_on_sub [OF ins(3)]]])
        (use ap pk in auto)
  qed (use ap pk in auto)
  moreover have "of_nat (p - 8) + 4 = (of_nat (p - 4) :: u32)" using p8 by (simp add: of_nat_diff)
  moreover have "of_nat p \<in> set (oa_list (index h) (kmem st))"
    using assms(5) ui nth_mem [of "unat i" "oa_list (index h) (kmem st)"] by simp
  then have "of_nat p \<in># mset (oa_list a' m4)" by (simp add: ins(2) idx)
  ultimately show ?thesis
    using call ins(1) w1(2) by (auto simp: get_header_def set_heap_def)
qed

section \<open>Properties of aligned allocation\<close>

text \<open>
  C10. A page-aligned allocation whose search stops at the hole of \<open>k\<close> bytes at \<open>p\<close>, with at least 32 bytes
  between \<open>p\<close> and the end of its page, and with room for a hole behind the block (\<open>k\<close> is at least 20 bytes more than
  the front and the block take), returns the start of the next page and splits the hole into
  a hole up to the block, the block and a hole behind it; the heap stays whole
  and nothing outside the old hole changes. The search asks for less: it also stops at a hole that leaves fewer than 20 bytes behind
  the block. For 1 to 19 bytes the code then writes a hole whose header and footer do not both fit, below 12 bytes into the
  next block; this case is not claimed, nor is that of no byte left.
\<close>
theorem alloc_aligned_splits_hole:
  assumes "heap_inv st (pre @ (True, k) # post)" "kheap st = Some h"
    and "find_smallest_hole (n + 12 + 8) 1 st = Inr i" "i < oa_size (index h)"
    and "oa_list (index h) (kmem st) ! unat i = of_nat p" "p = unat (start_address h) + room pre"
    and "4096 \<le> p" "p < 2 ^ 31" "p mod 4096 \<le> 4064" "f = 4084 - p mod 4096" "new = unat n + 20"
    and "f + new + 20 \<le> k" "oa_size (index h) < max_size (index h)"
  shows "\<exists>st'. alloc (Suc fuel) n 1 st = Inr (of_nat (p + f + 12), st') \<and> (p + f + 12) mod 4096 = 0 \<and>
    heap_inv st' (pre @ [(True, f), (False, new), (True, k - f - new)] @ post) \<and>
    same_on (unat (start_address h)) p (kmem st) (kmem st') \<and>
    same_on (p + k) (2 ^ 32) (kmem st) (kmem st')"
  using alloc_aligned_split [OF assms(1-9) assms(10) [folded front_def] assms(11-13), of fuel]
    front_page [of p] assms(9) unfolding assms(10) [folded front_def]
  by auto

text \<open>
  C21. When the data of the hole that is found are page-aligned already, the hole in front is empty: the
  block that is handed out stays listed as a hole, for a later request to take, and the footer of the block
  before it now names it.
\<close>
theorem alloc_page_ready_hole_stays_listed:
  assumes "heap_inv st (pre @ (False, ln) # (True, k) # post)" "kheap st = Some h"
    and "find_smallest_hole (n + 12 + 8) 1 st = Inr i" "i < oa_size (index h)"
    and "oa_list (index h) (kmem st) ! unat i = of_nat p" "p = unat (start_address h) + room pre + ln"
    and "4096 \<le> p" "p < 2 ^ 31" "p mod 4096 = 4084" "new = unat n + 20" "new + 20 \<le> k"
    and "oa_size (index h) < max_size (index h)"
  shows "\<exists>st' h'. alloc (Suc fuel) n 1 st = Inr (of_nat (p + 12), st') \<and> kheap st' = Some h' \<and>
    hdr (kmem st') p False new \<and> of_nat p \<in> set (oa_list (index h') (kmem st')) \<and>
    get_header (kmem st') (of_nat (p - 8)) = of_nat p"
  using alloc_page_ready [OF assms, of fuel] .

text \<open>On the heap the kernel creates at boot, alone and after 4064 bytes have been taken.\<close>

lemma one_hole_index:
  assumes "heap_inv st bs" "kheap st = Some h" "holes (unat (start_address h)) bs = [p]"
  shows "oa_size (index h) = 1" "oa_list (index h) (kmem st) = [of_nat p]"
proof -
  have "mset (oa_list (index h) (kmem st)) = {#of_nat p#}"
    using assms by (auto elim!: heap_invE)
  then show l: "oa_list (index h) (kmem st) = [of_nat p]" by simp
  have "unat (oa_size (index h)) = unat (1 :: u32)"
    using arg_cong [OF l, of length] by simp
  then show "oa_size (index h) = 1" by (simp only: word_unat_eq_iff)
qed

lemma boot_heap_index:
  "\<exists>h. kheap boot_heap = Some h \<and> start_address h = 0x01081000 \<and> oa_size (index h) = 1 \<and>
    max_size (index h) = 0x20000 \<and> oa_list (index h) (kmem boot_heap) = [0x01081000]"
proof -
  obtain h where h: "kheap boot_heap = Some h" "start_address h = 0x01081000" "max_size (index h) = 0x20000"
    using boot_heap_facts(2) by blast
  then show ?thesis
    using one_hole_index [OF boot_heap_facts(1) h(1), of "0x01081000"] by auto
qed

lemma alloc_aligned_splits_hole_witness:
  "\<exists>st'. alloc 1 8 1 boot_heap = Inr (0x01082000, st') \<and>
    heap_inv st' [(True, 4084), (False, 28), (True, 0x7DFF0)]"
proof -
  obtain h where h: "kheap boot_heap = Some h" "start_address h = 0x01081000" "oa_size (index h) = 1"
    "max_size (index h) = 0x20000" "oa_list (index h) (kmem boot_heap) = [0x01081000]"
    using boot_heap_index by blast
  have inv: "heap_inv boot_heap ([] @ (True, 0x7F000) # [])" using boot_heap_facts(1) by simp
  then have "hdr (kmem boot_heap) 0x01081000 True 0x7F000"
    using h(1,2) tiles_block(4) [of "kmem boot_heap" _ "[]" True "0x7F000" "[]"] by (auto elim!: heap_invE)
  then have "get_size (kmem boot_heap) (of_nat 0x01081000) = of_nat 0x7F000" by (simp add: hdr_def)
  from hole_fits_aligned [OF _ _ _ this, of 28] have "hole_fits 28 1 (kmem boot_heap) 0x01081000 = Inr True"
    by simp
  then have f: "find_smallest_hole 28 1 boot_heap = Inr 0"
    by (intro find_only_hole [OF h(1,3)]) (simp_all add: h(5))
  have args: "find_smallest_hole (8 + 12 + 8) 1 boot_heap = Inr 0" "0 < oa_size (index h)"
    "oa_list (index h) (kmem boot_heap) ! unat (0 :: u32) = of_nat 0x01081000"
    "0x01081000 = unat (start_address h) + room []" "(4096 :: nat) \<le> 0x01081000" "0x01081000 < (2 :: nat) ^ 31"
    "0x01081000 mod 4096 \<le> (4064 :: nat)" "4084 = 4084 - 0x01081000 mod (4096 :: nat)"
    "28 = unat (8 :: u32) + 20" "4084 + 28 + 20 \<le> (0x7F000 :: nat)" "oa_size (index h) < max_size (index h)"
    using f by (simp_all add: h(2-5))
  from alloc_aligned_splits_hole [OF inv h(1) args, of 0] show ?thesis by auto
qed

lemma alloc_page_ready_hole_stays_listed_witness:
  "\<exists>st st' h'. alloc 1 8 1 st = Inr (0x01082000, st') \<and> kheap st' = Some h' \<and>
    hdr (kmem st') 0x01081FF4 False 28 \<and> 0x01081FF4 \<in> set (oa_list (index h') (kmem st')) \<and>
    get_header (kmem st') 0x01081FEC = 0x01081FF4"
proof -
  obtain h0 where h0: "kheap boot_heap = Some h0" "start_address h0 = 0x01081000" "max_size (index h0) = 0x20000"
    using boot_heap_index by blast
  from alloc_fits [OF boot_heap_facts(1) _ _ _ h0(1), of 4064 "0x7F000" 0] obtain st a where st:
    "heap_inv st (take_hole 0x7F000 4084)" "kheap st = Some (h0\<lparr>index := a\<rparr>)" "max_size a = max_size (index h0)"
    by (auto simp: append_eq_Cons_conv Cons_eq_append_conv)
  define h where "h = h0\<lparr>index := a\<rparr>"
  have inv: "heap_inv st ([] @ (False, 4084) # (True, 0x7E00C) # [])" using st(1) by (simp add: take_hole_def)
  have h: "kheap st = Some h" "start_address h = 0x01081000" "max_size (index h) = 0x20000"
    using st(2,3) h0(2,3) by (simp_all add: h_def)
  have one: "oa_size (index h) = 1" "oa_list (index h) (kmem st) = [0x01081FF4]"
    using one_hole_index [OF inv h(1), of "0x01081FF4"] h(2) by simp_all
  have "hdr (kmem st) 0x01081FF4 True 0x7E00C"
    using inv h(1,2) tiles_block(4) [of "kmem st" "0x01081000" "[(False, 4084)]" True "0x7E00C" "[]"] by (auto elim!: heap_invE)
  then have "get_size (kmem st) (of_nat 0x01081FF4) = of_nat 0x7E00C" by (simp add: hdr_def)
  from hole_fits_aligned [OF _ _ _ this, of 28] have "hole_fits 28 1 (kmem st) 0x01081FF4 = Inr True"
    by simp
  then have f: "find_smallest_hole 28 1 st = Inr 0"
    by (intro find_only_hole [OF h(1) one(1)]) (simp_all add: one(2))
  have args: "find_smallest_hole (8 + 12 + 8) 1 st = Inr 0" "0 < oa_size (index h)"
    "oa_list (index h) (kmem st) ! unat (0 :: u32) = of_nat 0x01081FF4"
    "0x01081FF4 = unat (start_address h) + room [] + 4084" "(4096 :: nat) \<le> 0x01081FF4" "0x01081FF4 < (2 :: nat) ^ 31"
    "0x01081FF4 mod 4096 = (4084 :: nat)" "28 = unat (8 :: u32) + 20" "28 + 20 \<le> (0x7E00C :: nat)"
    "oa_size (index h) < max_size (index h)"
    using f by (simp_all add: h(2,3) one)
  from alloc_page_ready_hole_stays_listed [OF inv h(1) args, of 0] obtain st' h' where
    "alloc (Suc 0) 8 1 st = Inr (of_nat (0x01081FF4 + 12), st')" "kheap st' = Some h'"
    "hdr (kmem st') 0x01081FF4 False 28" "of_nat 0x01081FF4 \<in> set (oa_list (index h') (kmem st'))"
    "get_header (kmem st') (of_nat (0x01081FF4 - 8)) = of_nat 0x01081FF4"
    by (elim exE conjE) (rule that)
  then have "alloc 1 8 1 st = Inr (0x01082000, st') \<and> kheap st' = Some h' \<and>
    hdr (kmem st') 0x01081FF4 False 28 \<and> 0x01081FF4 \<in> set (oa_list (index h') (kmem st')) \<and>
    get_header (kmem st') 0x01081FEC = 0x01081FF4" by (simp del: alloc.simps)
  then show ?thesis by blast
qed

end
