(* ===== verification/Heap_End.thy ===== *)
theory Heap_End
  imports Boot Heap_Aligned
begin

text \<open>
  The end of the heap: what \<^verbatim>\<open>contract\<close> makes of the page tables \<^verbatim>\<open>heap_install\<close> leaves, and the
  heap after its last block has been freed. The pages given back stay present, all with frame 0,
  and frame 0, which holds memory in use, becomes the first free one.
\<close>

section \<open>Giving back a page of the area\<close>

lemma heap_area_get_page:
  assumes "heap_area N c st" "p < 4096"
  shows "get_page kap (of_nat (heap_page p)) (kernel_directory st) st =
    Inr (of_nat (heap_table (p div 1024)) + 4 * of_nat (p mod 1024), st)"
proof (rule get_page_area [OF _ assms(2)])
  have j: "p div 1024 < 4" using assms(2) by (simp add: div_less_iff_less_mult)
  show "load32 (kmem st) (0x201000 + 4 * of_nat (4 + p div 1024)) = of_nat (heap_table (p div 1024)) OR 7"
    using assms(1) j unfolding heap_area_def by (elim conjE, drule_tac x = "4 + p div 1024" in spec) simp
  show "load32 (kmem st) (0x202000 + 4 * of_nat (4 + p div 1024)) = of_nat (heap_table (p div 1024))"
    using assms(1) j unfolding heap_area_def by simp
qed (use assms(1) in \<open>simp add: heap_area_def\<close>)

lemma page_set_frame_addr_entry: "page_set_frame_addr g (page_entry f k w v) = page_entry g k w v"
  by (rule bit_word_eqI) (simp add: bit_page_set_frame_addr bit_page_entry)

text \<open>\<open>free_frame\<close> writes a word of the bitmap, for these frames the first one, and the entry.\<close>

lemma free_frame_same_on:
  assumes "page_frame_addr (load32 (kmem st) page) = of_nat f" "f < 4096"
    and "unat page + 4 \<le> lo" "unat (frames st) + 4 \<le> lo" "lo \<le> 2 ^ 32"
  shows "same_on lo hi (kmem st) (kmem (free_frame page st))"
proof -
  have "unat (of_nat f div page_size :: u32) = 0"
    using assms(2) by (simp add: unat_div unat_of_nat_small)
  then have "of_nat f div page_size = (0 :: u32)" by (simp only: unat_eq_0)
  then obtain v where v: "kmem (clear_frame (of_nat f) st) = store32 (kmem st) (frames st) v"
    by (auto simp: clear_frame_def Let_def)
  have "same_on lo hi m (store32 m x w)" if "unat x + 4 \<le> lo" for m x w
    using same_on_store32 [of "unat x" lo hi m w] that assms(5) by simp
  then show ?thesis
    using assms(1,3,4) by (auto simp: free_frame_def update_page_def Let_def v intro: same_on_trans)
qed

lemma free_frame_state: "free_frame page st = st\<lparr>kmem := kmem (free_frame page st)\<rparr>"
  by (simp add: free_frame_def clear_frame_def update_page_def Let_def)

lemma free_area_page:
  assumes "heap_area N (Suc c) st" "c < 256" "4628 \<le> N" "N \<le> 8192"
    and "page = of_nat (heap_table (c div 1024)) + 4 * of_nat (c mod 1024)"
  shows "heap_area N c (free_frame page st)" "same_on 0x20E000 (2 ^ 32) (kmem st) (kmem (free_frame page st))"
proof -
  have c: "c div 1024 = 0" "c mod 1024 = c" using assms(2) by simp_all
  have pg: "page = of_nat (heap_table 0) + 4 * of_nat c" by (simp only: assms(5) c)
  have ptr: "unat page = heap_table 0 + 4 * c"
    unfolding pg by (rule heap_table_word(1)) (use assms(2) in simp_all)
  have h: "frames st = 0x200000" "kernel_directory st = 0x201000" "unat (nframes st) \<le> 32768"
    "N \<le> managed_frames st" "cr3 st = 0x201000" "paging_on st"
    "\<And>g. g < N \<Longrightarrow> frame_bit st g = (g < 4628 \<and> (g = 0 \<longrightarrow> 256 \<le> Suc c))"
    using assms(1) by (simp_all add: heap_area_def)
  have "load32 (kmem st) page = page_entry (of_nat (area_frame (Suc c) c)) False False 0"
    using assms(1,2) unfolding pg heap_area_def by (elim conjE, drule_tac x = 0 in spec) auto
  then have old: "load32 (kmem st) page = page_entry (of_nat (533 + c)) False False 0"
    by (simp add: area_frame_def)
  have "take_bit 20 (of_nat (533 + c) :: u32) = of_nat (533 + c)"
    using assms(2) by (simp add: word_unat_eq_iff unsigned_take_bit_eq unat_of_nat_small take_bit_nat_eq_self
        del: of_nat_add)
  then have fa: "page_frame_addr (load32 (kmem st) page) = of_nat (533 + c)"
    by (simp only: old page_frame_addr_entry)
  have outside: "outside_bitmap st b" if "aligned4 b" "0x201000 \<le> unat b" for b
  proof -
    have "b \<noteq> 0x200000 + 4 * of_nat j" if "j < unat (nframes st) div 32" for j
      using \<open>0x201000 \<le> unat b\<close> base_words(1) [of j] that h(3) by auto
    then show ?thesis using that(1) by (simp add: outside_bitmap_def h(1) aligned4_base)
  qed
  have al: "aligned4 page" unfolding pg by (rule heap_table_word(2))
  have "outside_bitmap st page" by (rule outside [OF al]) (simp add: ptr heap_table_def)
  moreover have "(0 :: nat) < 533 + c" "533 + c < 2 ^ 20" "(533 + c) div 4096 < managed_frames st"
    "unat (nframes st) \<le> 2 ^ 20"
    using assms(2,3) h(3,4) by simp_all
  ultimately have e: "load32 (kmem (free_frame page st)) page = page_entry 0 False False 0"
    "\<And>g. g < managed_frames st \<Longrightarrow> frame_bit (free_frame page st) g = (g \<noteq> (533 + c) div 4096 \<and> frame_bit st g)"
    "\<And>b. outside_bitmap st b \<Longrightarrow> b \<noteq> page \<Longrightarrow> load32 (kmem (free_frame page st)) b = load32 (kmem st) b"
    using free_frame_effect [OF _ fa] by (simp_all add: old page_set_frame_addr_entry)
  have fields: "kernel_directory (free_frame page st) = kernel_directory st"
    "frames (free_frame page st) = frames st" "nframes (free_frame page st) = nframes st"
    "cr3 (free_frame page st) = cr3 st" "paging_on (free_frame page st) = paging_on st"
    by (subst free_frame_state, simp)+
  have keep: "load32 (kmem (free_frame page st)) b = load32 (kmem st) b"
    if "aligned4 b" "0x201000 \<le> unat b" "unat b \<noteq> heap_table 0 + 4 * c" for b
    using that ptr by (intro e(3) outside) auto
  have low: "load32 (kmem (free_frame page st)) b = load32 (kmem st) b"
    if "aligned4 b" "0x201000 \<le> unat b" "unat b < 0x205000" for b
    using that by (intro keep) (auto simp: heap_table_def)
  have words: "load32 (kmem (free_frame page st)) (0x201000 + 4 * of_nat i) = load32 (kmem st) (0x201000 + 4 * of_nat i)"
    "load32 (kmem (free_frame page st)) (0x202000 + 4 * of_nat i) = load32 (kmem st) (0x202000 + 4 * of_nat i)"
    "load32 (kmem (free_frame page st)) (0x204000 + 4 * of_nat i) = load32 (kmem st) (0x204000 + 4 * of_nat i)"
    if "i < 1024" for i
    using low base_words(2-4) [OF that] that by (simp_all add: aligned4_base)
  have "load32 (kmem (free_frame page st)) (0x202000 + 4 * of_nat (4 + i)) =
      load32 (kmem st) (0x202000 + 4 * of_nat (4 + i))" if "i < 4" for i
    by (rule words(2)) (use that in simp)
  moreover have "load32 (kmem (free_frame page st)) 0x201000 = load32 (kmem st) 0x201000"
    using low by (simp add: aligned4_base)
  moreover have "load32 (kmem (free_frame page st)) (of_nat (heap_table i) + 4 * of_nat n) =
      (if 1024 * i + n < 4095 then page_entry (of_nat (area_frame c (1024 * i + n))) False False 0 else 0)"
    if "i < 4" "n < 1024" for i n
  proof (cases "i = 0 \<and> n = c")
    case True
    then show ?thesis using e(1) assms(2) by (simp add: pg area_frame_def)
  next
    case False
    then have "heap_table i + 4 * n \<noteq> heap_table 0 + 4 * c" "1024 * i + n \<noteq> c"
      using heap_table_inj [of i n 0 c] inj1024 [of i n 0 c] that(2) assms(2) by auto
    then have "area_frame c (1024 * i + n) = area_frame (Suc c) (1024 * i + n)"
      "load32 (kmem (free_frame page st)) (of_nat (heap_table i) + 4 * of_nat n) =
        load32 (kmem st) (of_nat (heap_table i) + 4 * of_nat n)"
      using that heap_table_word(1) [of i n] heap_table_word(2) [of i "of_nat n"]
      by (auto simp: area_frame_def heap_table_def intro!: keep)
    then show ?thesis using assms(1) that unfolding heap_area_def by simp
  qed
  moreover have "frame_bit (free_frame page st) g = (g < 4628 \<and> (g = 0 \<longrightarrow> 256 \<le> c))" if "g < N" for g
    using e(2) [of g] h(4) h(7) [of g] that assms(2) by auto
  moreover have "managed_frames (free_frame page st) = managed_frames st" by (simp add: managed_frames_def fields)
  ultimately show "heap_area N c (free_frame page st)"
    using assms(1) words(1,3) unfolding heap_area_def fields by simp
  show "same_on 0x20E000 (2 ^ 32) (kmem st) (kmem (free_frame page st))"
    by (rule free_frame_same_on [OF fa]) (use assms(2) ptr h(1) in \<open>simp_all add: heap_table_def\<close>)
qed

section \<open>contract\<close>

lemma contract_loop_area:
  "heap_area N (Suc (s + x)) st \<Longrightarrow> kheap st = Some h \<Longrightarrow> start_address h = of_nat (heap_page s) \<Longrightarrow>
    s + x < 256 \<Longrightarrow> y \<le> x \<Longrightarrow> x - y < fuel \<Longrightarrow> 4628 \<le> N \<Longrightarrow> N \<le> 8192 \<Longrightarrow>
    \<exists>st'. contract_loop fuel kap (of_nat (4096 * y)) (of_nat (4096 * x)) st = Inr st' \<and>
      heap_area N (Suc (s + y)) st' \<and> same_on 0x20E000 (2 ^ 32) (kmem st) (kmem st') \<and>
      st' = st\<lparr>kmem := kmem st'\<rparr>"
proof (induction fuel arbitrary: x st)
  case 0
  then show ?case by simp
next
  case (Suc fuel)
  have u: "unat (of_nat (4096 * x) :: u32) = 4096 * x" "unat (of_nat (4096 * y) :: u32) = 4096 * y"
    using Suc.prems(4,5) by (intro unat_of_nat_small, simp)+
  show ?case
  proof (cases "x = y")
    case True
    then show ?thesis using Suc.prems(1) by simp
  next
    case False
    then obtain z where z: "x = Suc z" "y \<le> z" using Suc.prems(5) by (cases x) auto
    have lt: "of_nat (4096 * y) < (of_nat (4096 * x) :: u32)"
      unfolding word_less_nat_alt u using z by simp
    define page :: u32 where "page = of_nat (heap_table ((s + x) div 1024)) + 4 * of_nat ((s + x) mod 1024)"
    have "start_address h + of_nat (4096 * x) = of_nat (heap_page (s + x))"
      by (simp add: Suc.prems(3))
    then have gp: "get_page kap (start_address h + of_nat (4096 * x)) (kernel_directory st) st = Inr (page, st)"
      using heap_area_get_page [OF Suc.prems(1), of "s + x" kap] Suc.prems(4) by (simp only: page_def)
    note f = free_area_page [OF Suc.prems(1,4,7,8) page_def]
    note eq = free_frame_state [of page st]
    have "kheap (free_frame page st) = Some h" by (subst eq) (simp add: Suc.prems(2))
    moreover have "heap_area N (Suc (s + z)) (free_frame page st)" using f(1) by (simp add: z(1))
    moreover have "z - y < fuel" using Suc.prems(6) z by (simp add: Suc_diff_le)
    ultimately obtain st' where st':
      "contract_loop fuel kap (of_nat (4096 * y)) (of_nat (4096 * z)) (free_frame page st) = Inr st'"
      "heap_area N (Suc (s + y)) st'" "same_on 0x20E000 (2 ^ 32) (kmem (free_frame page st)) (kmem st')"
      "st' = (free_frame page st)\<lparr>kmem := kmem st'\<rparr>"
      using Suc.IH [of z "free_frame page st"] Suc.prems(3,4,7,8) z by auto
    have "of_nat (4096 * x) - page_size = (of_nat (4096 * z) :: u32)" by (simp add: z(1))
    then have "contract_loop (Suc fuel) kap (of_nat (4096 * y)) (of_nat (4096 * x)) st = Inr st'"
      using lt st'(1) by (simp add: with_heap_def Suc.prems(2) gp del: of_nat_mult)
    moreover have "st' = st\<lparr>kmem := kmem st'\<rparr>"
      by (subst st'(4), subst eq) simp
    ultimately show ?thesis using st'(2) same_on_trans [OF f(2) st'(3)] by blast
  qed
qed

lemma contract_area:
  assumes "heap_area N 256 st" "kheap st = Some h" "start_address h = 0x01081000" "end_address h = 0x01100000"
    and "4628 \<le> N" "N \<le> 8192"
  shows "\<exists>st'. contract kap 0 st = Inr (0x70000, set_heap (h\<lparr>end_address := 0x010F1000\<rparr>) st') \<and>
    heap_area N 242 st' \<and> same_on 0x20E000 (2 ^ 32) (kmem st) (kmem st') \<and>
    st' = st\<lparr>kmem := kmem st', kenv := kprintf_call ''contract, new size: %x\<newline>'' [ArgInt 0] (kenv st)\<rparr>"
proof -
  define st1 where "st1 = klog_kst ''contract, new size: %x\<newline>'' [ArgInt 0] st"
  have st1: "kheap st1 = Some h" "kmem st1 = kmem st" "heap_area N 256 st1"
    using assms(2) heap_area_keep [OF assms(1,6)] by (simp_all add: st1_def)
  have "start_address h = of_nat (heap_page 129)" "heap_area N (Suc (129 + 126)) st1"
    "129 + 126 < (256 :: nat)" "112 \<le> (126 :: nat)" "126 - 112 < page_fuel"
    using assms(3) st1(3) by (simp_all add: page_fuel_def)
  from contract_loop_area [OF this(2) st1(1) this(1,3,4,5) assms(5,6), of kap] obtain st2 where st2:
    "contract_loop page_fuel kap 0x70000 0x7E000 st1 = Inr st2" "heap_area N 242 st2"
    "same_on 0x20E000 (2 ^ 32) (kmem st1) (kmem st2)" "st2 = st1\<lparr>kmem := kmem st2\<rparr>"
    by auto
  have "kheap st2 = Some h" by (subst st2(4)) (simp add: st1(1))
  then have "contract kap 0 st = Inr (0x70000, set_heap (h\<lparr>end_address := 0x010F1000\<rparr>) st2)"
    unfolding contract_def st1_def [symmetric]
    by (simp add: with_heap_def st1(1) assms(3,4) assert_that_def st2(1))
  moreover have "st2 = st\<lparr>kmem := kmem st2,
      kenv := kprintf_call ''contract, new size: %x\<newline>'' [ArgInt 0] (kenv st)\<rparr>"
    by (subst st2(4)) (simp add: st1_def klog_kst_def)
  ultimately show ?thesis using st2(2,3) st1(2) by auto
qed

section \<open>Freeing the last block\<close>

text \<open>
  The heap at boot with one block between two holes, as an aligned allocation leaves it. The block
  is merged with both, and since the result ends the heap, \<^verbatim>\<open>contract\<close> is called and the footer
  rewritten, so the heap is whole again.
\<close>

lemma free_only_block:
  assumes "heap_inv st [(True, ln), (False, n), (True, n2)]" "kheap st = Some h" "heap_area N 256 st"
    and "start_address h = 0x01081000" "end_address h = 0x01100000" "array (index h) = 0x01000000"
    and "4628 \<le> N" "N \<le> 8192"
  shows "\<exists>st' h'. free kap (of_nat (0x01081000 + ln + 12)) st = Inr st' \<and> kheap st' = Some h' \<and>
    heap_inv st' [(True, 0x70000)] \<and> heap_area N 242 st' \<and>
    start_address h' = 0x01081000 \<and> end_address h' = 0x010F1000 \<and> kenv st' = kenv st'"
proof -
  define a e where "a = (0x01081000 :: nat)" and "e = (0x01100000 :: nat)"
  have ua: "unat (start_address h) = a" "unat (end_address h) = e" by (simp_all add: a_def e_def assms(4,5))
  from assms(1,2) have inv: "oa_wf (index h)" "less_than (index h) = Some header_t_less_than"
    "unat (oa_size (index h)) \<le> unat (max_size (index h))" "unat (max_size (index h)) \<le> 2 ^ 20"
    "unat (array (index h)) + 4 * unat (max_size (index h)) \<le> a"
    "tiles (kmem st) a ([] @ (True, ln) # (False, n) # (True, n2) # []) e"
    "mset (oa_list (index h) (kmem st)) = image_mset of_nat (mset (holes a [(True, ln), (False, n), (True, n2)]))"
    by (auto simp: ua elim!: heap_invE)
  define p q where "p = a + ln" and "q = a + ln + n"
  have e32: "e < 2 ^ 32" by (simp add: e_def)
  have pn: "p = a + room [] + ln" "a = (if True then p - ln else p)" "ln + n = (if True then ln + n else n)"
    by (simp_all add: p_def)
  from free_start [OF inv(6) e32 refl pn, of kap] obtain m1 where m1:
    "free kap (of_nat (p + 12)) st =
      res_bind (unify_right (of_nat a) (of_nat (p + n - 8)) (st\<lparr>kmem := m1\<rparr>)) (\<lambda>(footer, st).
        res_bind (contract_end kap (of_nat a) footer (of_nat (p + n)) st) (\<lambda>st. Inr st))"
    "hdr m1 a True (ln + n)" "ftr m1 (p + n - 8) a"
    "\<And>lo hi. hi \<le> a \<or> p + n \<le> lo \<Longrightarrow> same_on lo hi (kmem st) m1"
    by auto
  have t3: "tiles (kmem st) a ([(True, ln), (False, n)] @ (True, n2) # []) e" using inv(6) by simp
  have q3: "a + room [(True, ln), (False, n)] = q" "p + n = q" by (simp_all add: q_def p_def)
  note H = tiles_block [OF t3, unfolded q3]
  have eq: "q + n2 = e" using inv(6) by (simp add: tiles_def q_def)
  have sizes20: "20 \<le> ln" "20 \<le> n"
    using tiles_block(2) [OF inv(6)] tiles_block(2) [of "kmem st" a "[(True, ln)]" False n "[(True, n2)]" e] inv(6)
    by simp_all
  have hq: "hdr m1 q True n2" by (rule hdr_cong [OF m1(4) _ H(4)]) (use H(2) eq e32 q3(2) in auto)
  define m2 where "m2 = set_size (of_nat a) (of_nat (ln + n + n2)) m1"
  note s2 = hdr_set_size [OF m1(2) _ m2_def]
  have aq: "a + 40 \<le> q" using sizes20 by (simp add: q_def)
  have h2: "hdr m2 a True (ln + n + n2)" by (rule s2(1)) (use e32 aq eq in simp)
  have hq2: "hdr m2 q True n2" by (rule hdr_cong [OF s2(2) _ hq]) (use H(2) eq e32 aq in auto)
  have same2: "same_on 0 a (kmem st) m2"
    by (rule same_on_trans [OF m1(4) s2(2)]) (use eq e32 aq in auto)
  have a32: "a \<le> 2 ^ 32" by (simp add: a_def)
  have idx: "oa_list (index h) m2 = oa_list (index h) (kmem st)"
    by (rule oa_list_same_on [OF same2]) (use inv(3,5) a32 in simp_all)
  have ms: "mset (oa_list (index h) (kmem st)) = {#of_nat a, of_nat q#}"
    using inv(7) by (simp add: q_def)
  then have "of_nat q \<in> set (drop (unat (0 :: u32)) (oa_list (index h) m2))"
    unfolding idx by (metis drop0 set_mset_mset unat_0 union_single_eq_member add_mset_commute)
  from find_header_from_spec [OF _ this] obtain i where i: "find_header_from (index h) m2 (of_nat q) 0 = Inr i"
    "i < oa_size (index h)" "oa_list (index h) m2 ! unat i = of_nat q" by auto
  have kh: "kheap (st\<lparr>kmem := m2\<rparr>) = Some h" using assms(2) by simp
  from index_remove_spec [OF kh inv(1) i(2), of a] inv(3,5) a32 obtain m3 a1 where rem:
    "index_remove i (st\<lparr>kmem := m2\<rparr>) = Inr (set_heap (h\<lparr>index := a1\<rparr>) (st\<lparr>kmem := m3\<rparr>))"
    "a1 = (index h)\<lparr>oa_size := oa_size (index h) - 1\<rparr>" "oa_wf a1"
    "Suc (unat (oa_size a1)) = unat (oa_size (index h))"
    "mset (oa_list a1 m3) = {#of_nat a#}"
    "same_on a (2 ^ 32) m2 m3"
    using i(3) by (auto simp: idx ms)
  have below3: "same_on 0 0x01000000 m2 m3"
    using index_remove_below [OF rem(1) kh inv(1) i(2)] inv(3,5) a32 assms(6) by (simp add: set_heap_def)
  define st3 where "st3 = set_heap (h\<lparr>index := a1\<rparr>) (st\<lparr>kmem := m3\<rparr>)"
  have st3: "kheap st3 = Some (h\<lparr>index := a1\<rparr>)" "kmem st3 = m3" "kenv st3 = kenv st"
    by (simp_all add: st3_def set_heap_def)
  have "heap_area N 256 st3"
  proof (rule heap_area_keep [OF assms(3,8)])
    show "same_on 0 0x01000000 (kmem st) (kmem st3)"
      unfolding st3(2) by (rule same_on_trans [OF same_on_sub [OF same2] below3]) (simp_all add: a_def)
  qed (simp_all add: st3_def set_heap_def)
  from contract_area [OF this st3(1) _ _ assms(7,8), of kap] assms(4,5) obtain st4 where st4:
    "contract kap 0 st3 = Inr (0x70000, set_heap (h\<lparr>index := a1, end_address := 0x010F1000\<rparr>) st4)"
    "heap_area N 242 st4" "same_on 0x20E000 (2 ^ 32) m3 (kmem st4)"
    "st4 = st3\<lparr>kmem := kmem st4, kenv := kprintf_call ''contract, new size: %x\<newline>'' [ArgInt 0] (kenv st)\<rparr>"
    by (auto simp: st3)
  define h5 st5 where "h5 = h\<lparr>index := a1, end_address := 0x010F1000\<rparr>" and "st5 = set_heap h5 st4"
  have h4: "hdr (kmem st4) a True 0x7F000"
  proof (rule hdr_cong [OF same_on_trans [OF same_on_sub [OF rem(6)] same_on_sub [OF st4(3)]]])
    have "ln + n + n2 = 0x7F000" using eq by (simp add: q_def a_def e_def)
    then show "hdr m2 a True 0x7F000" using h2 by (simp only:)
  qed (simp_all add: a_def)
  define F where "F = a + 0x70000 - 8"
  define m5 where "m5 = set_size (of_nat a) (of_nat 0x70000) (kmem st4)"
  define m6 where "m6 = store32 (store32 m5 (of_nat F) heap_magic) (of_nat (F + 4)) (of_nat a)"
  note s5 = hdr_set_size [OF h4 _ m5_def]
  have s6: "same_on lo hi m5 m6" if "hi \<le> F" for lo hi
    unfolding m6_def by (rule same_on_trans [OF same_on_store32 same_on_store32])
      (use that in \<open>auto simp: F_def a_def\<close>)
  have h6: "hdr m6 a True 0x70000"
    by (rule hdr_cong [OF s6 _ s5(1)]) (simp_all add: F_def a_def)
  have s46: "same_on 0 a (kmem st4) m6"
    by (rule same_on_trans [OF s5(2) s6]) (simp_all add: F_def a_def)
  have wm: "set_header (of_nat F) (of_nat a) (set_magic (of_nat F) m5) = m6"
    by (simp add: m6_def set_header_def set_magic_def add.commute)
  define st6 where "st6 = st5\<lparr>kmem := m6\<rparr>"
  have oa: "of_nat a = (0x01081000 :: u32)" "of_nat F = (0x010F0FF8 :: u32)" by (simp_all add: a_def F_def)
  have w: "of_nat (p + n - 8) + 8 = (of_nat q :: u32)" "of_nat q + of_nat n2 - 8 = (of_nat (e - 8) :: u32)"
    "of_nat (e - 8) + 8 = end_address h"
  proof -
    show "of_nat (p + n - 8) + 8 = (of_nat q :: u32)"
      using sizes20(2) by (simp add: of_nat_diff q3(2) [symmetric])
    show "of_nat q + of_nat n2 - 8 = (of_nat (e - 8) :: u32)"
      using H(2) by (simp add: of_nat_diff eq [symmetric])
    show "of_nat (e - 8) + 8 = end_address h" by (simp add: e_def assms(5))
  qed
  have sizes: "get_size m1 (of_nat a) + get_size m1 (of_nat q) = of_nat (ln + n + n2)"
    "get_size m2 (of_nat q) = of_nat n2" "get_magic m1 (of_nat q) = heap_magic" "get_is_hole m1 (of_nat q) = 1"
    "get_size (kmem st4) 0x01081000 = 0x7F000" "get_size m5 0x01081000 = 0x70000"
    using m1(2) hq hq2 h4 s5(1) oa(1) by (simp_all add: hdr_def a_def)
  have right: "unify_right (of_nat a) (of_nat (p + n - 8)) (st\<lparr>kmem := m1\<rparr>) = Inr (of_nat (e - 8), st3)"
    unfolding unify_right_def Let_def w using rem(1) i(1,2)
    by (simp add: on_mem_def sizes m2_def [symmetric] with_heap_def assms(2) assert_that_def w
        st3_def del: of_nat_add of_nat_diff)
  have "contract_end kap (of_nat a) (of_nat (e - 8)) (of_nat (p + n)) st3 = Inr st6"
  proof -
    have m5: "set_size 0x01081000 0x70000 (kmem st4) = m5" using m5_def by (simp add: oa(1))
    show ?thesis
      unfolding contract_end_def w Let_def oa(1)
      using st4(1) wm unfolding oa
      by (simp add: with_heap_def st3(1) assms(4,5) h5_def [symmetric] st5_def [symmetric])
        (simp add: st5_def set_heap_def on_mem_def sizes st6_def m5)
  qed
  then have "free kap (of_nat (0x01081000 + ln + 12)) st = Inr st6"
    using m1(1) right by (simp add: p_def a_def del: of_nat_add)
  moreover have "kheap st6 = Some h5" by (simp add: st6_def st5_def set_heap_def)
  moreover have "heap_inv st6 [(True, 0x70000)]"
  proof -
    have "oa_list a1 m6 = oa_list a1 (kmem st4)"
      by (rule oa_list_same_on [OF s46]) (use rem(2,4) inv(3,5) a32 in simp_all)
    also have "\<dots> = oa_list a1 m3"
      by (rule oa_list_same_on [OF same_on_sub [OF st4(3)], of "0x01000000" a])
        (use rem(2,4) inv(3,5) assms(6) in \<open>simp_all add: a_def\<close>)
    finally have "mset (oa_list a1 m6) = {#of_nat a#}" using rem(5) by simp
    then show ?thesis
      using rem(2-4) inv(2-5) h6 \<open>kheap st6 = Some h5\<close>
      by (simp add: heap_inv_def h5_def assms(4) st6_def tiles_def block_ok_def a_def word_le_nat_alt)
  qed
  moreover have "heap_area N 242 st6"
    by (rule heap_area_keep [OF st4(2) assms(8)])
      (simp_all add: st6_def st5_def set_heap_def same_on_sub [OF s46] a_def)
  moreover have "kenv st6 = kprintf_call ''contract, new size: %x\<newline>'' [ArgInt 0] (kenv st)"
    unfolding st6_def st5_def set_heap_def by (subst st4(4)) simp
  ultimately show ?thesis by (auto simp: h5_def assms(4))
qed

end
