(* ===== verification/Descriptors.thy ===== *)
theory Descriptors
  imports Ports
begin

text \<open>
  The segment and interrupt descriptor tables: \<^verbatim>\<open>kernel/gdt.c\<close> and
  \<^verbatim>\<open>kernel/idt.c\<close>. The addresses of the tables and of the assembly stubs come from
  the linker and are parameters. \<open>descriptor_codec\<close> is what the two tables share: an entry
  decodes, the way the processor reads it, to what was installed.
\<close>

section \<open>Tables of descriptors\<close>

text \<open>A store into a C array of descriptors.\<close>

definition table_set :: "nat \<Rightarrow> 'e \<Rightarrow> 'e list \<Rightarrow> 'e list res" where
  "table_set n x t = (if n < length t then Inr (t[n := x]) else Inl Out_of_bounds)"

fun install_all :: "('d \<Rightarrow> 'e) \<Rightarrow> (nat \<times> 'd) list \<Rightarrow> 'e list \<Rightarrow> 'e list res" where
  "install_all enc [] t = Inr t"
| "install_all enc ((n, d) # ds) t = res_bind (table_set n (enc d) t) (install_all enc ds)"

locale descriptor_codec =
  fixes encode :: "'d \<Rightarrow> 'e"
    and decode :: "'e \<Rightarrow> 'd"
    and canon :: "'d \<Rightarrow> 'd"
  assumes decode_encode: "decode (encode d) = canon d"
begin

lemma install_all_other:
  "install_all encode ds t = Inr t' \<Longrightarrow> length t' = length t \<and>
    (\<forall>n. n \<notin> fst ` set ds \<longrightarrow> t' ! n = t ! n)"
proof (induction ds arbitrary: t)
  case Nil
  then show ?case by simp
next
  case (Cons d ds)
  then show ?case
    by (cases d) (auto simp: table_set_def split: if_splits)
qed

lemma install_all_ok:
  "\<forall>n\<in>fst ` set ds. n < length t \<Longrightarrow> \<exists>t'. install_all encode ds t = Inr t'"
  by (induction ds arbitrary: t) (auto simp: table_set_def)

lemma install_all_decode:
  assumes "install_all encode ds t = Inr t'" "distinct (map fst ds)" "(n, d) \<in> set ds"
  shows "decode (t' ! n) = canon d"
  using assms
proof (induction ds arbitrary: t)
  case Nil
  then show ?case by simp
next
  case (Cons x ds)
  obtain k y where x: "x = (k, y)" by (cases x)
  from Cons.prems(1) x have k: "k < length t"
    and rest: "install_all encode ds (t[k := encode y]) = Inr t'"
    by (auto simp: table_set_def split: if_splits)
  show ?case
  proof (cases "(n, d) = (k, y)")
    case True
    then have "t' ! n = encode d"
      using install_all_other [OF rest] Cons.prems(2) x k by (auto simp: image_iff)
    then show ?thesis by (simp add: decode_encode)
  next
    case False
    then show ?thesis using Cons.IH [OF rest] Cons.prems(2,3) x by auto
  qed
qed

end

section \<open>gdt.c\<close>

record gdt_entry =
  limit_low :: u16
  base_low :: u16
  base_middle :: u8
  gdt_access :: u8
  granularity :: u8
  base_high :: u8

definition gdt_zero :: gdt_entry where
  "gdt_zero = \<lparr>limit_low = 0, base_low = 0, base_middle = 0, gdt_access = 0, granularity = 0,
     base_high = 0\<rparr>"

text \<open>The arguments of \<^verbatim>\<open>gdt_set_gate\<close>: base, limit, access, granularity.\<close>

type_synonym segment = "u32 \<times> u32 \<times> u8 \<times> u8"

fun gdt_encode :: "segment \<Rightarrow> gdt_entry" where
  "gdt_encode (base, limit, access, gran) =
     \<lparr>limit_low = ucast (limit AND 0xFFFF),
      base_low = ucast (base AND 0xFFFF),
      base_middle = ucast (drop_bit 16 base AND 0xFF),
      gdt_access = access,
      granularity = ucast (drop_bit 16 limit AND 0x0F) OR (gran AND 0xF0),
      base_high = ucast (drop_bit 24 base AND 0xFF)\<rparr>"

definition gdt_set_gate :: "u8 \<Rightarrow> segment \<Rightarrow> gdt_entry list \<Rightarrow> gdt_entry list res" where
  "gdt_set_gate num d t = table_set (unat num) (gdt_encode d) t"

text \<open>The processor: the descriptor table registers and the segment selectors.\<close>

record cpu =
  gdtr :: "u16 \<times> u32"
  idtr :: "u16 \<times> u32"
  cs_sel :: u16
  data_sel :: u16

definition gdt_flush :: "u16 \<times> u32 \<Rightarrow> cpu \<Rightarrow> cpu" where
  "gdt_flush ptr c = c\<lparr>gdtr := ptr, data_sel := 0x10, cs_sel := 0x08\<rparr>"

definition GDT_Init :: "u32 \<Rightarrow> env \<Rightarrow> cpu \<Rightarrow> (gdt_entry list \<times> env \<times> cpu) res" where
  "GDT_Init gdt_entries e c =
     (let e = kprintf_call ''Initializing Global Descriptor Table (GDT)...\<newline>'' [] e;
          t = replicate 5 gdt_zero
      in res_bind (gdt_set_gate 0 (0, 0x00000000, 0x00, 0x00) t) (\<lambda>t.
         res_bind (gdt_set_gate 1 (0, 0xFFFFFFFF, 0x9A, 0xCF) t) (\<lambda>t.
         res_bind (gdt_set_gate 2 (0, 0xFFFFFFFF, 0x92, 0xCF) t) (\<lambda>t.
         res_bind (gdt_set_gate 3 (0, 0xFFFFFFFF, 0xFA, 0xCF) t) (\<lambda>t.
         res_bind (gdt_set_gate 4 (0, 0xFFFFFFFF, 0xF2, 0xCF) t) (\<lambda>t.
           Inr (t, e, gdt_flush (8 * 5 - 1, gdt_entries) c)))))))"

text \<open>How the processor reads a segment descriptor.\<close>

definition gdt_decode :: "gdt_entry \<Rightarrow> segment" where
  "gdt_decode g =
     (ucast (base_low g) OR push_bit 16 (ucast (base_middle g)) OR push_bit 24 (ucast (base_high g)),
      ucast (limit_low g) OR push_bit 16 (ucast (granularity g AND 0x0F)),
      gdt_access g, granularity g AND 0xF0)"

fun gdt_canon :: "segment \<Rightarrow> segment" where
  "gdt_canon (base, limit, access, gran) = (base, limit AND 0xFFFFF, access, gran AND 0xF0)"

section \<open>idt.c\<close>

record idt_entry =
  base_lo :: u16
  idt_sel :: u16
  always0 :: u8
  idt_flags :: u8
  base_hi :: u16

definition idt_zero :: idt_entry where
  "idt_zero = \<lparr>base_lo = 0, idt_sel = 0, always0 = 0, idt_flags = 0, base_hi = 0\<rparr>"

text \<open>The arguments of \<^verbatim>\<open>idt_set_gate\<close>: handler address, selector, flags.\<close>

type_synonym gate = "u32 \<times> u16 \<times> u8"

fun idt_encode :: "gate \<Rightarrow> idt_entry" where
  "idt_encode (base, sel, flags) =
     \<lparr>base_lo = ucast (base AND 0xFFFF), idt_sel = sel, always0 = 0, idt_flags = flags,
      base_hi = ucast (drop_bit 16 base AND 0xFFFF)\<rparr>"

definition idt_set_gate :: "u8 \<Rightarrow> gate \<Rightarrow> idt_entry list \<Rightarrow> idt_entry list res" where
  "idt_set_gate num d t = table_set (unat num) (idt_encode d) t"

definition idt_flush :: "u16 \<times> u32 \<Rightarrow> cpu \<Rightarrow> cpu" where
  "idt_flush ptr c = c\<lparr>idtr := ptr\<rparr>"

fun idt_install :: "(nat \<times> gate) list \<Rightarrow> idt_entry list \<Rightarrow> idt_entry list res" where
  "idt_install [] t = Inr t"
| "idt_install ((n, d) # ds) t = res_bind (idt_set_gate (of_nat n) d t) (idt_install ds)"

text \<open>
  The 48 calls of \<^verbatim>\<open>idt_set_gate\<close>: \<open>isr n\<close> and \<open>irq n\<close> are the addresses of the
  stubs \<^verbatim>\<open>isr0..isr31\<close> and \<^verbatim>\<open>irq0..irq15\<close>.
\<close>

definition idt_gates :: "(nat \<Rightarrow> u32) \<Rightarrow> (nat \<Rightarrow> u32) \<Rightarrow> (nat \<times> gate) list" where
  "idt_gates isr irq =
     map (\<lambda>n. (n, isr n, 0x08, 0x8E)) [0..<32] @ map (\<lambda>n. (32 + n, irq n, 0x08, 0x8E)) [0..<16]"

definition IDT_Init :: "(nat \<Rightarrow> u32) \<Rightarrow> (nat \<Rightarrow> u32) \<Rightarrow> u32 \<Rightarrow> env \<Rightarrow> cpu \<Rightarrow>
    (idt_entry list \<times> env \<times> cpu) res" where
  "IDT_Init isr irq idt_entries e c =
     (let e = kprintf_call ''Initializing Interrupt Descriptor Table (IDT)...\<newline>'' [] e;
          ptr = (8 * 256 - 1, idt_entries);
          t = replicate 256 idt_zero;
          e = irq_remap e
      in res_bind (idt_install (idt_gates isr irq) t) (\<lambda>t. Inr (t, e, idt_flush ptr c)))"

definition idt_decode :: "idt_entry \<Rightarrow> gate" where
  "idt_decode g = (ucast (base_lo g) OR push_bit 16 (ucast (base_hi g)), idt_sel g, idt_flags g)"

section \<open>The tables decode to what was installed\<close>

lemma base_fields:
  fixes b :: u32
  shows "ucast (ucast (b AND 0xFFFF) :: u16) OR push_bit 16 (ucast (ucast (drop_bit 16 b AND 0xFF) :: u8))
    OR push_bit 24 (ucast (ucast (drop_bit 24 b AND 0xFF) :: u8)) = b" (is "?f = b")
proof (rule bit_word_eqI)
  fix n assume "n < LENGTH(32)"
  then consider "n < 16" | "16 \<le> n" "n < 24" | "24 \<le> n" "n < 32" by fastforce
  then show "bit ?f n = bit b n" by cases (auto simp: bit_field_simps)
qed

lemma limit_fields:
  fixes l :: u32 and g :: u8
  shows "ucast (ucast (l AND 0xFFFF) :: u16) OR
    push_bit 16 (ucast ((ucast (drop_bit 16 l AND 0x0F) OR (g AND 0xF0)) AND (0x0F :: u8))) =
    l AND 0xFFFFF" (is "?f = _")
proof (rule bit_word_eqI)
  fix n assume "n < LENGTH(32)"
  then consider "n < 16" | "16 \<le> n" "n < 20" | "20 \<le> n" "n < 32" by fastforce
  then show "bit ?f n = bit (l AND 0xFFFFF) n" by cases (auto simp: bit_field_simps)
qed

lemma gran_fields:
  fixes l :: u32 and g :: u8
  shows "(ucast (drop_bit 16 l AND 0x0F) OR (g AND 0xF0)) AND (0xF0 :: u8) = g AND 0xF0"
  by (rule bit_word_eqI) (auto simp: bit_field_simps)

lemma halves:
  fixes b :: u32
  shows "ucast (ucast (b AND 0xFFFF) :: u16) OR push_bit 16 (ucast (ucast (drop_bit 16 b AND 0xFFFF) :: u16)) = b"
    (is "?f = b")
proof (rule bit_word_eqI)
  fix n assume "n < LENGTH(32)"
  then consider "n < 16" | "16 \<le> n" "n < 32" by fastforce
  then show "bit ?f n = bit b n" by cases (auto simp: bit_field_simps)
qed

interpretation gdt_codec: descriptor_codec gdt_encode gdt_decode gdt_canon
proof
  fix d show "gdt_decode (gdt_encode d) = gdt_canon d"
    by (cases d) (simp add: gdt_decode_def base_fields limit_fields gran_fields)
qed

interpretation idt_codec: descriptor_codec idt_encode idt_decode "\<lambda>d. d"
proof
  fix d show "idt_decode (idt_encode d) = d"
    by (cases d) (simp add: idt_decode_def halves)
qed

lemma idt_install_eq:
  "\<forall>n\<in>fst ` set ds. n < 256 \<Longrightarrow> idt_install ds t = install_all idt_encode ds t"
  by (induction ds arbitrary: t)
    (auto simp: idt_set_gate_def unat_of_nat_small res_bind_def split: sum.splits)

lemma idt_gates_slots: "map fst (idt_gates isr irq) = [0..<48]"
  by (simp add: idt_gates_def comp_def upt_rec)

section \<open>Properties\<close>

text \<open>
  \<open>gdt_set_gate\<close> followed by the processor's reading of the descriptor gives back the
  base address, the low 20 bits of the limit, the access byte and the four flag bits; an
  entry number past the table is an access out of bounds.
\<close>
theorem gdt_set_gate_roundtrip:
  "gdt_set_gate num (base, limit, access, gran) t =
    (if unat num < length t then Inr (t[unat num := gdt_encode (base, limit, access, gran)])
     else Inl Out_of_bounds) \<and>
   gdt_decode (gdt_encode (base, limit, access, gran)) =
    (base, limit AND 0xFFFFF, access, gran AND 0xF0)"
  using gdt_codec.decode_encode [of "(base, limit, access, gran)"]
  by (simp add: gdt_set_gate_def table_set_def)

lemma GDT_Init_tables:
  "\<exists>t e' c'. GDT_Init a e c = Inr (t, e', c') \<and> length t = 5 \<and> gdtr c' = (39, a) \<and>
    cs_sel c' = 8 \<and> data_sel c' = 16 \<and>
    map gdt_decode t =
      [(0, 0, 0, 0), (0, 0xFFFFF, 0x9A, 0xC0), (0, 0xFFFFF, 0x92, 0xC0),
       (0, 0xFFFFF, 0xFA, 0xC0), (0, 0xFFFFF, 0xF2, 0xC0)]"
proof -
  have upd: "[a, b, c, d, e][0 := x] = [x, b, c, d, e]" "[a, b, c, d, e][1 := x] = [a, x, c, d, e]"
    "[a, b, c, d, e][2 := x] = [a, b, x, d, e]" "[a, b, c, d, e][3 := x] = [a, b, c, x, e]"
    "[a, b, c, d, e][4 := x] = [a, b, c, d, x]" for a b c d e x :: gdt_entry
    by (simp_all add: eval_nat_numeral)
  have five: "replicate 5 gdt_zero = [gdt_zero, gdt_zero, gdt_zero, gdt_zero, gdt_zero]"
    by (simp add: eval_nat_numeral)
  show ?thesis
    by (simp add: GDT_Init_def gdt_set_gate_def table_set_def gdt_flush_def Let_def five
        upd [simplified] gdt_codec.decode_encode del: gdt_encode.simps)
qed

text \<open>
  \<open>GDT_Init\<close> always succeeds, loads a table of five descriptors into the processor and
  makes it flat: the null segment first, then code and data segments of privilege 0 and 3,
  all with base 0 and the limit \<open>0xFFFFF\<close> in 4 KB units.
\<close>
theorem GDT_Init_flat:
  "\<exists>t e' c'. GDT_Init a e c = Inr (t, e', c') \<and> length t = 5 \<and> gdtr c' = (39, a) \<and>
    cs_sel c' = 8 \<and> data_sel c' = 16 \<and>
    map gdt_decode t =
      [(0, 0, 0, 0), (0, 0xFFFFF, 0x9A, 0xC0), (0, 0xFFFFF, 0x92, 0xC0),
       (0, 0xFFFFF, 0xFA, 0xC0), (0, 0xFFFFF, 0xF2, 0xC0)]"
  by (rule GDT_Init_tables)

lemma IDT_Init_tables:
  "\<exists>t e' c'. IDT_Init isr irq a e c = Inr (t, e', c') \<and> length t = 256 \<and> idtr c' = (2047, a) \<and>
    (\<forall>n. n < 32 \<longrightarrow> idt_decode (t ! n) = (isr n, 0x08, 0x8E)) \<and>
    (\<forall>n. n < 16 \<longrightarrow> idt_decode (t ! (32 + n)) = (irq n, 0x08, 0x8E)) \<and>
    (\<forall>n. 48 \<le> n \<and> n < 256 \<longrightarrow> t ! n = idt_zero)"
proof -
  let ?ds = "idt_gates isr irq" and ?t0 = "replicate 256 idt_zero"
  have slots: "fst ` set ?ds = {0..<48}"
    using arg_cong [OF idt_gates_slots [of isr irq], of set] by (simp add: atLeast0LessThan)
  from idt_codec.install_all_ok [of ?ds ?t0] slots obtain t
    where t: "install_all idt_encode ?ds ?t0 = Inr t" by auto
  have inst: "idt_install ?ds ?t0 = Inr t"
    using t idt_install_eq [of ?ds ?t0] slots by simp
  have "distinct (map fst ?ds)" by (simp add: idt_gates_slots)
  from idt_codec.install_all_decode [OF t this]
  have dec: "(n, d) \<in> set ?ds \<Longrightarrow> idt_decode (t ! n) = d" for n d by blast
  have "length t = 256" "\<forall>n. 48 \<le> n \<and> n < 256 \<longrightarrow> t ! n = idt_zero"
    using idt_codec.install_all_other [OF t] slots by auto
  moreover have "idt_decode (t ! n) = (isr n, 0x08, 0x8E)" if "n < 32" for n
    using that by (intro dec) (auto simp: idt_gates_def)
  moreover have "idt_decode (t ! (32 + n)) = (irq n, 0x08, 0x8E)" if "n < 16" for n
    using that by (intro dec) (auto simp: idt_gates_def)
  ultimately show ?thesis
    using inst by (simp add: IDT_Init_def idt_flush_def Let_def)
qed

text \<open>
  \<open>IDT_Init\<close> always succeeds and loads a table of 256 gates: gates 0 to 31 lead to the
  exception stubs and 32 to 47 to the stubs of the remapped interrupt lines, each as a
  present ring 0 interrupt gate of the kernel's code segment, and every other gate is absent.
\<close>
theorem IDT_Init_gates:
  "\<exists>t e' c'. IDT_Init isr irq a e c = Inr (t, e', c') \<and> length t = 256 \<and> idtr c' = (2047, a) \<and>
    (\<forall>n. n < 32 \<longrightarrow> idt_decode (t ! n) = (isr n, 0x08, 0x8E)) \<and>
    (\<forall>n. n < 16 \<longrightarrow> idt_decode (t ! (32 + n)) = (irq n, 0x08, 0x8E)) \<and>
    (\<forall>n. 48 \<le> n \<and> n < 256 \<longrightarrow> t ! n = idt_zero)"
  by (rule IDT_Init_tables)

theorem IDT_Init_gates_witness:
  "\<exists>t e' c'. IDT_Init (\<lambda>n. 0x100000 + of_nat n) (\<lambda>n. 0x101000) 0x102000
      \<lparr>in_stream = (\<lambda>_ _. 0), in_count = (\<lambda>_. 0), outs = [], klog = []\<rparr>
      \<lparr>gdtr = (0, 0), idtr = (0, 0), cs_sel = 8, data_sel = 16\<rparr> = Inr (t, e', c') \<and>
    idt_decode (t ! 14) = (0x10000E, 0x08, 0x8E)"
  using IDT_Init_gates [of "\<lambda>n. 0x100000 + of_nat n" "\<lambda>n. 0x101000" "0x102000"
      "\<lparr>in_stream = (\<lambda>_ _. 0), in_count = (\<lambda>_. 0), outs = [], klog = []\<rparr>"
      "\<lparr>gdtr = (0, 0), idtr = (0, 0), cs_sel = 8, data_sel = 16\<rparr>"]
  by fastforce

end
