(* ===== verification/Fifo.thy ===== *)
theory Fifo
  imports Prelude
begin

text \<open>
  The byte queue of \<^verbatim>\<open>kernel/include/queue.h\<close>: a ring buffer that keeps one slot
  free to tell a full ring from an empty one. \<open>bounded_queue\<close> is the contract its users
  rely on; \<open>fifo\<close> is interpreted as one with capacity \<^verbatim>\<open>size - 1\<close>.
\<close>

section \<open>The ring buffer\<close>

record fifo =
  buffer :: "u8 list"
  in_ptr :: int
  out_ptr :: int
  fsize :: int

text \<open>\<^verbatim>\<open>DECLARE_FIFO_QUEUE\<close>: a static, hence zeroed, buffer.\<close>

definition declare_fifo_queue :: "int \<Rightarrow> fifo" where
  "declare_fifo_queue n = \<lparr>buffer = replicate (nat n) 0, in_ptr = 0, out_ptr = 0, fsize = n\<rparr>"

definition fifo_insert :: "fifo \<Rightarrow> u8 \<Rightarrow> (int \<times> fifo) res" where
  "fifo_insert q key =
     (if \<not> c_int_ok (in_ptr q + 1) then Inl Signed_overflow
      else
        let ptr = in_ptr q + 1;
            ptr = (if ptr \<ge> fsize q then 0 else ptr)
        in if ptr = out_ptr q then Inr (- 1, q)
           else if 0 \<le> in_ptr q \<and> in_ptr q < int (length (buffer q))
           then Inr (0, q\<lparr>buffer := (buffer q)[nat (in_ptr q) := key], in_ptr := ptr\<rparr>)
           else Inl Out_of_bounds)"

text \<open>The last argument and the second component of the value are what \<^verbatim>\<open>*key\<close> holds.\<close>

definition fifo_get :: "fifo \<Rightarrow> u8 \<Rightarrow> (int \<times> u8 \<times> fifo) res" where
  "fifo_get q key =
     (if in_ptr q = out_ptr q then Inr (- 1, key, q)
      else if 0 \<le> out_ptr q \<and> out_ptr q < int (length (buffer q))
      then
        if \<not> c_int_ok (out_ptr q + 1) then Inl Signed_overflow
        else
          let key = buffer q ! nat (out_ptr q);
              q = q\<lparr>out_ptr := out_ptr q + 1\<rparr>;
              q = (if out_ptr q \<ge> fsize q then q\<lparr>out_ptr := 0\<rparr> else q)
          in Inr (0, key, q)
      else Inl Out_of_bounds)"

definition fifo_empty :: "fifo \<Rightarrow> int" where
  "fifo_empty q = (if in_ptr q = out_ptr q then 1 else 0)"

section \<open>The contract of a bounded queue\<close>

text \<open>Inserting a list of items one by one, ignoring refusals as the kernel does.\<close>

fun insert_all :: "('q \<Rightarrow> 'a \<Rightarrow> (int \<times> 'q) res) \<Rightarrow> 'q \<Rightarrow> 'a list \<Rightarrow> 'q res" where
  "insert_all ins q [] = Inr q"
| "insert_all ins q (x # xs) = res_bind (ins q x) (\<lambda>(r, q'). insert_all ins q' xs)"

fun get_many :: "('q \<Rightarrow> 'a \<Rightarrow> (int \<times> 'a \<times> 'q) res) \<Rightarrow> 'a \<Rightarrow> nat \<Rightarrow> 'q \<Rightarrow> ('a list \<times> 'q) res" where
  "get_many get d 0 q = Inr ([], q)"
| "get_many get d (Suc n) q =
     res_bind (get q d) (\<lambda>(r, x, q'). res_bind (get_many get d n q') (\<lambda>(xs, q''). Inr (x # xs, q'')))"

locale bounded_queue =
  fixes ins :: "'q \<Rightarrow> 'a \<Rightarrow> (int \<times> 'q) res"
    and get :: "'q \<Rightarrow> 'a \<Rightarrow> (int \<times> 'a \<times> 'q) res"
    and is_empty :: "'q \<Rightarrow> int"
    and contents :: "'q \<Rightarrow> 'a list"
    and capacity :: "'q \<Rightarrow> nat"
    and invar :: "'q \<Rightarrow> bool"
  assumes ins_room: "invar q \<Longrightarrow> length (contents q) < capacity q \<Longrightarrow>
      \<exists>q'. ins q x = Inr (0, q') \<and> contents q' = contents q @ [x] \<and>
        capacity q' = capacity q \<and> invar q'"
    and ins_full: "invar q \<Longrightarrow> length (contents q) = capacity q \<Longrightarrow> ins q x = Inr (- 1, q)"
    and get_first: "invar q \<Longrightarrow> contents q = y # ys \<Longrightarrow>
      \<exists>q'. get q d = Inr (0, y, q') \<and> contents q' = ys \<and> capacity q' = capacity q \<and> invar q'"
    and get_none: "invar q \<Longrightarrow> contents q = [] \<Longrightarrow> get q d = Inr (- 1, d, q)"
    and is_empty_iff: "invar q \<Longrightarrow> is_empty q = (if contents q = [] then 1 else 0)"
    and length_le: "invar q \<Longrightarrow> length (contents q) \<le> capacity q"
begin

lemma ins_total:
  assumes "invar q"
  shows "\<exists>r q'. ins q x = Inr (r, q') \<and> contents q' = take (capacity q) (contents q @ [x]) \<and>
    capacity q' = capacity q \<and> invar q'"
proof (cases "length (contents q) < capacity q")
  case True
  then show ?thesis using ins_room [OF assms True, of x] by auto
next
  case False
  then have "length (contents q) = capacity q" using length_le [OF assms] by simp
  then show ?thesis using ins_full [OF assms, of x] assms by auto
qed

lemma insert_all_take:
  "invar q \<Longrightarrow> \<exists>q'. insert_all ins q xs = Inr q' \<and>
    contents q' = take (capacity q) (contents q @ xs) \<and> capacity q' = capacity q \<and> invar q'"
proof (induction xs arbitrary: q)
  case Nil
  then show ?case using length_le [of q] by simp
next
  case (Cons x xs)
  from ins_total [OF Cons.prems, of x] obtain r q1 where q1: "ins q x = Inr (r, q1)"
    "contents q1 = take (capacity q) (contents q @ [x])" "capacity q1 = capacity q" "invar q1"
    by blast
  have "take (capacity q) (take (capacity q) (contents q @ [x]) @ xs) =
      take (capacity q) (contents q @ x # xs)"
    using length_le [OF Cons.prems] by (cases "length (contents q) < capacity q") simp_all
  with Cons.IH [OF q1(4)] q1 show ?case by auto
qed

lemma get_many_contents:
  "invar q \<Longrightarrow> n \<le> length (contents q) \<Longrightarrow>
    \<exists>q'. get_many get d n q = Inr (take n (contents q), q') \<and>
      contents q' = drop n (contents q) \<and> capacity q' = capacity q \<and> invar q'"
proof (induction n arbitrary: q)
  case 0
  then show ?case by simp
next
  case (Suc n)
  then obtain y ys where ys: "contents q = y # ys" by (cases "contents q") auto
  from get_first [OF Suc.prems(1) ys, of d] obtain q1 where q1: "get q d = Inr (0, y, q1)"
    "contents q1 = ys" "capacity q1 = capacity q" "invar q1"
    by blast
  from Suc.IH [OF q1(4)] Suc.prems ys q1 show ?case by auto
qed

text \<open>First in, first out: what goes into an empty queue comes out, up to the capacity.\<close>

lemma insert_then_get:
  assumes "invar q" "contents q = []" "length xs \<le> capacity q"
  shows "\<exists>q1 q2. insert_all ins q xs = Inr q1 \<and>
    get_many get d (length xs) q1 = Inr (xs, q2) \<and> contents q2 = []"
proof -
  from insert_all_take [OF assms(1), of xs] assms obtain q1 where
    "insert_all ins q xs = Inr q1" "contents q1 = xs" "invar q1" by auto
  with get_many_contents [of q1 "length xs" d] show ?thesis by auto
qed

end

section \<open>The ring buffer is a bounded queue\<close>

definition fifo_wf :: "fifo \<Rightarrow> bool" where
  "fifo_wf q \<longleftrightarrow> fsize q \<le> c_int_max \<and> length (buffer q) = nat (fsize q) \<and>
     0 \<le> in_ptr q \<and> in_ptr q < fsize q \<and> 0 \<le> out_ptr q \<and> out_ptr q < fsize q"

definition fifo_used :: "fifo \<Rightarrow> nat" where
  "fifo_used q = nat ((in_ptr q - out_ptr q) mod fsize q)"

definition fifo_list :: "fifo \<Rightarrow> u8 list" where
  "fifo_list q = map (\<lambda>k. buffer q ! nat ((out_ptr q + int k) mod fsize q)) [0..<fifo_used q]"

definition fifo_capacity :: "fifo \<Rightarrow> nat" where
  "fifo_capacity q = nat (fsize q - 1)"

lemma length_fifo_list [simp]: "length (fifo_list q) = fifo_used q"
  by (simp add: fifo_list_def)

lemma mod_once:
  fixes a n :: int
  shows "0 \<le> a \<Longrightarrow> a < 2 * n \<Longrightarrow> a mod n = (if a < n then a else a - n)"
  using mod_add_self2 [of "a - n" n] mod_pos_pos_trivial [of "a - n" n] by auto

lemma mod_minus_once:
  fixes a n :: int
  shows "- n < a \<Longrightarrow> a < n \<Longrightarrow> a mod n = (if a < 0 then a + n else a)"
  using mod_add_self2 [of a n] mod_pos_pos_trivial [of "a + n" n] by auto

lemma fifo_used_eq:
  assumes "fifo_wf q"
  shows "int (fifo_used q) =
    (if in_ptr q < out_ptr q then in_ptr q - out_ptr q + fsize q else in_ptr q - out_ptr q)"
  using assms mod_minus_once [of "fsize q" "in_ptr q - out_ptr q"]
  by (auto simp: fifo_used_def fifo_wf_def)

lemma fifo_list_eqI:
  assumes "length ys = fifo_used q"
    and "\<And>k. k < fifo_used q \<Longrightarrow> ys ! k = buffer q ! nat ((out_ptr q + int k) mod fsize q)"
  shows "fifo_list q = ys"
  using assms by (intro nth_equalityI) (simp_all add: fifo_list_def)

lemma fifo_list_nth:
  "k < fifo_used q \<Longrightarrow> fifo_list q ! k = buffer q ! nat ((out_ptr q + int k) mod fsize q)"
  by (simp add: fifo_list_def)

lemma fifo_insert_cases:
  assumes wf: "fifo_wf q"
  shows "fifo_used q < fifo_capacity q \<Longrightarrow> \<exists>q'. fifo_insert q key = Inr (0, q') \<and>
      fifo_list q' = fifo_list q @ [key] \<and> fifo_capacity q' = fifo_capacity q \<and> fifo_wf q'"
    and "fifo_used q = fifo_capacity q \<Longrightarrow> fifo_insert q key = Inr (- 1, q)"
proof -
  define n where "n = fsize q"
  define ptr where "ptr = (if in_ptr q + 1 \<ge> n then 0 else in_ptr q + 1)"
  have b: "0 \<le> in_ptr q" "in_ptr q < n" "0 \<le> out_ptr q" "out_ptr q < n" "n \<le> c_int_max"
    "length (buffer q) = nat n"
    using wf by (simp_all add: fifo_wf_def n_def)
  have used: "int (fifo_used q) =
      (if in_ptr q < out_ptr q then in_ptr q - out_ptr q + n else in_ptr q - out_ptr q)"
    using fifo_used_eq [OF wf] by (simp add: n_def)
  have cap: "int (fifo_capacity q) = n - 1"
    using b by (simp add: fifo_capacity_def n_def)
  have ok: "c_int_ok (in_ptr q + 1)"
    using b by (simp add: c_int_defs)
  have full: "ptr = out_ptr q \<longleftrightarrow> fifo_used q = fifo_capacity q"
    using used cap b unfolding ptr_def of_nat_eq_iff [where 'a = int, symmetric]
    by (auto split: if_splits)
  have ins: "fifo_insert q key =
      (if ptr = out_ptr q then Inr (- 1, q)
       else Inr (0, q\<lparr>buffer := (buffer q)[nat (in_ptr q) := key], in_ptr := ptr\<rparr>))"
    using ok b unfolding fifo_insert_def Let_def ptr_def n_def by simp
  show "fifo_insert q key = Inr (- 1, q)" if "fifo_used q = fifo_capacity q"
    using that ins full by simp
  show "\<exists>q'. fifo_insert q key = Inr (0, q') \<and> fifo_list q' = fifo_list q @ [key] \<and>
      fifo_capacity q' = fifo_capacity q \<and> fifo_wf q'" if lt: "fifo_used q < fifo_capacity q"
  proof -
    define q' where "q' = q\<lparr>buffer := (buffer q)[nat (in_ptr q) := key], in_ptr := ptr\<rparr>"
    have ne: "ptr \<noteq> out_ptr q" using lt full by auto
    have wf': "fifo_wf q'"
      using b by (auto simp: q'_def fifo_wf_def n_def ptr_def)
    have used': "fifo_used q' = Suc (fifo_used q)"
      using fifo_used_eq [OF wf'] used ne b unfolding q'_def ptr_def n_def
      by (simp split: if_splits)
    have "fifo_list q' = fifo_list q @ [key]"
    proof (rule fifo_list_eqI)
      fix k assume k: "k < fifo_used q'"
      have pos: "(out_ptr q + int k) mod n =
          (if out_ptr q + int k < n then out_ptr q + int k else out_ptr q + int k - n)"
        using b k used' used by (intro mod_once) (simp_all split: if_splits)
      show "(fifo_list q @ [key]) ! k = buffer q' ! nat ((out_ptr q' + int k) mod fsize q')"
      proof (cases "k < fifo_used q")
        case True
        then have "nat ((out_ptr q + int k) mod n) \<noteq> nat (in_ptr q)"
          unfolding pos using used b by (auto split: if_splits)
        with True show ?thesis
          by (simp add: nth_append fifo_list_nth q'_def flip: n_def)
      next
        case False
        then have k: "k = fifo_used q" using k used' by simp
        then have "(out_ptr q + int k) mod n = in_ptr q"
          unfolding pos using used b by (auto split: if_splits)
        then show ?thesis
          using k b by (simp add: nth_append q'_def flip: n_def)
      qed
    qed (simp add: used')
    moreover have "fifo_capacity q' = fifo_capacity q"
      by (simp add: q'_def fifo_capacity_def)
    ultimately show ?thesis
      using ins ne wf' by (auto simp: q'_def)
  qed
qed

lemma fifo_get_first:
  assumes wf: "fifo_wf q" and ys: "fifo_list q = y # ys"
  shows "\<exists>q'. fifo_get q d = Inr (0, y, q') \<and> fifo_list q' = ys \<and>
    fifo_capacity q' = fifo_capacity q \<and> fifo_wf q'"
proof -
  define n where "n = fsize q"
  define ptr where "ptr = (if out_ptr q + 1 \<ge> n then 0 else out_ptr q + 1)"
  define q' where "q' = q\<lparr>out_ptr := ptr\<rparr>"
  have b: "0 \<le> in_ptr q" "in_ptr q < n" "0 \<le> out_ptr q" "out_ptr q < n" "n \<le> c_int_max"
    "length (buffer q) = nat n"
    using wf by (simp_all add: fifo_wf_def n_def)
  have used: "int (fifo_used q) =
      (if in_ptr q < out_ptr q then in_ptr q - out_ptr q + n else in_ptr q - out_ptr q)"
    using fifo_used_eq [OF wf] by (simp add: n_def)
  have len: "fifo_used q = Suc (length ys)"
    using arg_cong [OF ys, of length] by simp
  then have ne: "in_ptr q \<noteq> out_ptr q" using used by auto
  have y: "y = buffer q ! nat (out_ptr q)"
    using fifo_list_nth [of 0 q] len ys b by (simp flip: n_def)
  have wf': "fifo_wf q'"
    using b by (auto simp: q'_def fifo_wf_def n_def ptr_def)
  have used': "fifo_used q' = length ys"
    using fifo_used_eq [OF wf'] used ne b len unfolding q'_def ptr_def n_def
    by (simp split: if_splits)
  have "fifo_list q' = ys"
  proof (rule fifo_list_eqI)
    fix k assume k: "k < fifo_used q'"
    have "(ptr + int k) mod n = (out_ptr q + int (Suc k)) mod n"
    proof (cases "out_ptr q + 1 \<ge> n")
      case True
      then have sum: "out_ptr q + int (Suc k) = int k + n" using b by simp
      show ?thesis unfolding sum using True by (simp add: ptr_def)
    qed (simp add: ptr_def algebra_simps)
    moreover have "ys ! k = fifo_list q ! Suc k"
      using ys by simp
    ultimately show "ys ! k = buffer q' ! nat ((out_ptr q' + int k) mod fsize q')"
      using k used' len by (simp add: fifo_list_nth q'_def flip: n_def)
  qed (simp add: used')
  moreover have "fifo_capacity q' = fifo_capacity q"
    by (simp add: q'_def fifo_capacity_def)
  moreover have "fifo_get q d = Inr (0, y, q')"
    using ne b y by (auto simp: fifo_get_def q'_def ptr_def n_def c_int_defs Let_def)
  ultimately show ?thesis using wf' by blast
qed

interpretation kq: bounded_queue fifo_insert fifo_get fifo_empty fifo_list fifo_capacity fifo_wf
proof
  fix q :: fifo and x y d :: u8 and ys
  assume wf: "fifo_wf q"
  have used: "fifo_used q = 0 \<longleftrightarrow> in_ptr q = out_ptr q"
    using fifo_used_eq [OF wf] wf by (auto simp: fifo_wf_def split: if_splits)
  have nil: "fifo_list q = [] \<longleftrightarrow> in_ptr q = out_ptr q"
    using used by (simp add: fifo_list_def)
  show "length (fifo_list q) < fifo_capacity q \<Longrightarrow> \<exists>q'. fifo_insert q x = Inr (0, q') \<and>
      fifo_list q' = fifo_list q @ [x] \<and> fifo_capacity q' = fifo_capacity q \<and> fifo_wf q'"
    using fifo_insert_cases(1) [OF wf] by simp
  show "length (fifo_list q) = fifo_capacity q \<Longrightarrow> fifo_insert q x = Inr (- 1, q)"
    using fifo_insert_cases(2) [OF wf] by simp
  show "fifo_list q = y # ys \<Longrightarrow> \<exists>q'. fifo_get q d = Inr (0, y, q') \<and> fifo_list q' = ys \<and>
      fifo_capacity q' = fifo_capacity q \<and> fifo_wf q'"
    by (rule fifo_get_first [OF wf])
  show "fifo_list q = [] \<Longrightarrow> fifo_get q d = Inr (- 1, d, q)"
    using nil by (simp add: fifo_get_def)
  show "fifo_empty q = (if fifo_list q = [] then 1 else 0)"
    using nil by (simp add: fifo_empty_def)
  show "length (fifo_list q) \<le> fifo_capacity q"
    using fifo_used_eq [OF wf] wf by (simp add: fifo_wf_def fifo_capacity_def split: if_splits)
qed

lemma declare_fifo_queue_facts:
  assumes "0 < n" "n \<le> c_int_max"
  shows "fifo_wf (declare_fifo_queue n)" "fifo_list (declare_fifo_queue n) = []"
    "fifo_capacity (declare_fifo_queue n) = nat (n - 1)"
  using assms
  by (simp_all add: declare_fifo_queue_def fifo_wf_def fifo_list_def fifo_used_def fifo_capacity_def)

section \<open>Properties\<close>

text \<open>
  C33. The ring buffer is a first-in first-out queue of \<^verbatim>\<open>size - 1\<close> places. On every
  well-formed ring an insertion either appends the byte and returns 0, or, exactly when
  \<^verbatim>\<open>size - 1\<close> bytes wait, returns -1 and leaves the ring as it was; it stays
  inside the buffer and keeps the ring well-formed.
\<close>
theorem fifo_insert_refines:
  assumes "fifo_wf q"
  shows "\<exists>r q'. fifo_insert q key = Inr (r, q') \<and> fifo_wf q' \<and>
    (if length (fifo_list q) < nat (fsize q - 1)
     then r = 0 \<and> fifo_list q' = fifo_list q @ [key]
     else r = - 1 \<and> q' = q)"
proof (cases "length (fifo_list q) < nat (fsize q - 1)")
  case True
  then show ?thesis
    using kq.ins_room [OF assms, of key] by (auto simp: fifo_capacity_def)
next
  case False
  then show ?thesis
    using kq.ins_full [OF assms, of key] kq.length_le [OF assms] assms
    by (auto simp: fifo_capacity_def)
qed

theorem fifo_insert_refines_witness:
  "\<exists>r q'. fifo_insert (declare_fifo_queue 64) 113 = Inr (r, q') \<and> fifo_wf q' \<and>
    (if length (fifo_list (declare_fifo_queue 64)) < nat (fsize (declare_fifo_queue 64) - 1)
     then r = 0 \<and> fifo_list q' = fifo_list (declare_fifo_queue 64) @ [113]
     else r = - 1 \<and> q' = declare_fifo_queue 64)"
  by (rule fifo_insert_refines) (simp add: declare_fifo_queue_facts c_int_defs)

text \<open>
  Taking from the ring returns the oldest byte and drops it, or returns -1 and leaves the
  caller's variable alone when the ring is empty; \<open>fifo_empty\<close> tells which.
\<close>
theorem fifo_get_refines:
  assumes "fifo_wf q"
  shows "\<exists>r x q'. fifo_get q d = Inr (r, x, q') \<and> fifo_wf q' \<and>
    (case fifo_list q of [] \<Rightarrow> fifo_empty q = 1 \<and> r = - 1 \<and> x = d \<and> q' = q
     | y # ys \<Rightarrow> fifo_empty q = 0 \<and> r = 0 \<and> x = y \<and> fifo_list q' = ys)"
  using kq.get_first [OF assms, of _ _ d] kq.get_none [OF assms, of d] kq.is_empty_iff [OF assms] assms
  by (cases "fifo_list q") auto

theorem fifo_get_refines_witness:
  "\<exists>r x q'. fifo_get (declare_fifo_queue 64) 9 = Inr (r, x, q') \<and> fifo_wf q' \<and>
    (case fifo_list (declare_fifo_queue 64) of
       [] \<Rightarrow> fifo_empty (declare_fifo_queue 64) = 1 \<and> r = - 1 \<and> x = 9 \<and> q' = declare_fifo_queue 64
     | y # ys \<Rightarrow> fifo_empty (declare_fifo_queue 64) = 0 \<and> r = 0 \<and> x = y \<and> fifo_list q' = ys)"
  by (rule fifo_get_refines) (simp add: declare_fifo_queue_facts c_int_defs)

text \<open>
  C34. Keys come out in the order they went in: a queue declared with \<^verbatim>\<open>size\<close> slots
  gives back any sequence of at most \<^verbatim>\<open>size - 1\<close> bytes, and is then empty.
\<close>
theorem fifo_roundtrip:
  assumes "0 < n" "n \<le> c_int_max" "length xs < nat n"
  shows "\<exists>q1 q2. insert_all fifo_insert (declare_fifo_queue n) xs = Inr q1 \<and>
    get_many fifo_get d (length xs) q1 = Inr (xs, q2) \<and> fifo_list q2 = []"
  using kq.insert_then_get [of "declare_fifo_queue n" xs d] declare_fifo_queue_facts [of n] assms
  by simp

theorem fifo_roundtrip_witness:
  "\<exists>q1 q2. insert_all fifo_insert (declare_fifo_queue 64) [108, 115, 10] = Inr q1 \<and>
    get_many fifo_get 0 (length [108 :: u8, 115, 10]) q1 = Inr ([108, 115, 10], q2) \<and>
    fifo_list q2 = []"
  by (rule fifo_roundtrip) (simp_all add: c_int_defs)

end
