(* ===== verification/Keyboard.thy ===== *)
theory Keyboard
  imports Fifo Interrupts "HOL-Library.Sublist"
begin

text \<open>
  The keyboard driver, \<^verbatim>\<open>kernel/keyboard.c\<close>: the two key maps, the interrupt
  handler that turns scan codes into bytes of the key queue, and the two calls the shell
  reads the queue with. The handler is held against \<open>key_step\<close>, a machine over named
  modifier flags that does not mention bit masks or the queue.
\<close>

section \<open>Key maps\<close>

text \<open>
  Codes of keys without a character, from \<^verbatim>\<open>keyboard.h\<close>: \<^verbatim>\<open>F1..F12\<close>
  are \<open>0x80..0x8B\<close>, \<^verbatim>\<open>INS\<close> \<open>0x8C\<close>, \<^verbatim>\<open>DEL\<close> \<open>0x8D\<close>, \<^verbatim>\<open>HOME\<close> \<open>0x8E\<close>,
  \<^verbatim>\<open>END\<close> \<open>0x8F\<close>, \<^verbatim>\<open>PGUP\<close> \<open>0x90\<close>, \<^verbatim>\<open>PGDN\<close> \<open>0x91\<close>, \<^verbatim>\<open>LEFT\<close> \<open>0x92\<close>,
  \<^verbatim>\<open>UP\<close> \<open>0x93\<close>, \<^verbatim>\<open>DOWN\<close> \<open>0x94\<close>, \<^verbatim>\<open>RT\<close> \<open>0x95\<close>, \<^verbatim>\<open>SCROL\<close> \<open>0x96\<close>,
  \<^verbatim>\<open>CAPS\<close> \<open>0x97\<close>, \<^verbatim>\<open>NUM\<close> \<open>0x98\<close>, \<^verbatim>\<open>SHIFT\<close> \<open>0x99\<close>, \<^verbatim>\<open>ALT\<close> \<open>0x9A\<close>,
  \<^verbatim>\<open>CTRL\<close> \<open>0x9B\<close>.
\<close>

definition normal_map :: "u8 list" where
  "normal_map =
    [\<comment> \<open>00\<close> 0, 0x1B, 0x31, 0x32, 0x33, 0x34, 0x35, 0x36, 0x37, 0x38, 0x39, 0x30, 0x2D, 0x3D, 0x08, 0x09,
     \<comment> \<open>10\<close> 0x71, 0x77, 0x65, 0x72, 0x74, 0x79, 0x75, 0x69, 0x6F, 0x70, 0x5B, 0x5D, 0x0A, 0x9B, 0x61, 0x73,
     \<comment> \<open>20\<close> 0x64, 0x66, 0x67, 0x68, 0x6A, 0x6B, 0x6C, 0x3B, 0x27, 0x60, 0x99, 0x23, 0x7A, 0x78, 0x63, 0x76,
     \<comment> \<open>30\<close> 0x62, 0x6E, 0x6D, 0x2C, 0x2E, 0x2F, 0x99, 0, 0x9A, 0x20, 0x97, 0x80, 0x81, 0x82, 0x83, 0x84,
     \<comment> \<open>40\<close> 0x85, 0x86, 0x87, 0x88, 0x89, 0x98, 0x96, 0x8E, 0x93, 0x90, 0x2D, 0x92, 0x35, 0x95, 0x2B, 0x8F,
     \<comment> \<open>50\<close> 0x94, 0x91, 0x8C, 0x8D, 0, 0, 0x5C, 0x8A, 0x8B]"

definition shift_map :: "u8 list" where
  "shift_map =
    [\<comment> \<open>00\<close> 0, 0x1B, 0x21, 0x40, 0x23, 0x24, 0x25, 0x5E,
     \<comment> \<open>08\<close> 0x26, 0x2A, 0x28, 0x29, 0x5F, 0x2B, 0x08, 0x09,
     \<comment> \<open>10\<close> 0x51, 0x57, 0x45, 0x52, 0x54, 0x59, 0x55, 0x49,
     \<comment> \<open>18\<close> 0x4F, 0x50, 0x7B, 0x7D, 0x0A, 0, 0x41, 0x53,
     \<comment> \<open>20\<close> 0x44, 0x46, 0x47, 0x48, 0x4A, 0x4B, 0x4C, 0x3A,
     \<comment> \<open>28\<close> 0x22, 0x7E, 0, 0x7C, 0x5A, 0x58, 0x43, 0x56,
     \<comment> \<open>30\<close> 0x42, 0x4E, 0x4D, 0x3C, 0x3E, 0x3F, 0, 0,
     \<comment> \<open>38\<close> 0, 0x20, 0, 0x80, 0x81, 0x82, 0x83, 0x84,
     \<comment> \<open>40\<close> 0x85, 0x86, 0x87, 0x88, 0x89, 0, 0, 0x8E,
     \<comment> \<open>48\<close> 0x93, 0x90, 0x92, 0x35, 0x95, 0x2B, 0x8F,
     \<comment> \<open>50\<close> 0x94, 0x91, 0x8C, 0x8D, 0, 0, 0, 0x8A, 0x8B]"

section \<open>The driver\<close>

record kbd =
  kbd_status :: u16
  saw_break_code :: u16
  kbd_buffer :: fifo

definition kbd_initial :: kbd where
  "kbd_initial = \<lparr>kbd_status = 0, saw_break_code = 0, kbd_buffer = declare_fifo_queue 64\<rparr>"

text \<open>The loop returns the remaining value of \<^verbatim>\<open>timeout\<close>.\<close>

fun write_kbd_wait :: "nat \<Rightarrow> env \<Rightarrow> nat \<times> env" where
  "write_kbd_wait 0 e = (0, e)"
| "write_kbd_wait (Suc t) e =
     (let (stat, e) = inportb 0x64 e
      in if stat AND 0x02 = 0 then (Suc t, e) else write_kbd_wait t e)"

definition write_kbd :: "u32 \<Rightarrow> u32 \<Rightarrow> env \<Rightarrow> env" where
  "write_kbd adr data e =
     (let (timeout, e) = write_kbd_wait 500000 e
      in if timeout \<noteq> 0 then outportb (ucast adr) (ucast data) e else e)"

text \<open>The three branches that reach the label \<^verbatim>\<open>LEDS\<close>.\<close>

definition kbd_leds :: "kbd \<Rightarrow> env \<Rightarrow> env" where
  "kbd_leds k e =
     (let e = write_kbd 0x60 0xED e;
          temp = (0 :: u16);
          temp = (if kbd_status k AND 0x4000 \<noteq> 0 then temp OR 1 else temp);
          temp = (if kbd_status k AND 0x2000 \<noteq> 0 then temp OR 2 else temp);
          temp = (if kbd_status k AND 0x1000 \<noteq> 0 then temp OR 4 else temp)
      in write_kbd 0x60 (ucast temp) e)"

text \<open>
  From the choice of the map to the end of the handler. \<open>temp\<close> honours Caps Lock,
  \<open>converted\<close> does not; it is \<open>converted\<close> that is queued.
\<close>

definition kbd_emit :: "u32 \<Rightarrow> u16 \<Rightarrow> u8 \<Rightarrow> kbd \<Rightarrow> env \<Rightarrow> (kbd \<times> env) res" where
  "kbd_emit code temp converted k e =
     (let e = (if kbd_status k AND 0x0400 \<noteq> 0 \<and> kbd_status k AND 0x0200 \<noteq> 0 \<and> temp = 0x8D
               then kprintf_call ''\<newline>rebooting...'' [] e else e)
      in if code > 0x58 then Inr (k, e)
         else if converted \<ge> 0x80 \<and> converted \<le> 0x8A then Inr (k, e)
         else res_bind (fifo_insert (kbd_buffer k) converted)
                (\<lambda>(r, q). Inr (k\<lparr>kbd_buffer := q\<rparr>, e)))"

definition kbd_convert :: "u32 \<Rightarrow> kbd \<Rightarrow> env \<Rightarrow> (kbd \<times> env) res" where
  "kbd_convert code k e =
     (if kbd_status k AND 0x0800 \<noteq> 0
      then
        if code \<ge> of_nat (length shift_map) then Inr (k, e)
        else
          let temp = ucast (shift_map ! unat code) :: u16
          in if temp = 0 then Inr (k, e)
             else
               let temp = (if kbd_status k AND 0x1000 \<noteq> 0 \<and> temp \<ge> 0x41 \<and> temp \<le> 0x5A
                           then ucast (normal_map ! unat code) else temp)
               in kbd_emit code temp (shift_map ! unat code) k e
      else
        if code \<ge> of_nat (length normal_map) then Inr (k, e)
        else
          let temp = ucast (normal_map ! unat code) :: u16
          in if temp = 0 then Inr (k, e)
             else
               let temp = (if kbd_status k AND 0x1000 \<noteq> 0 \<and> temp \<ge> 0x61 \<and> temp \<le> 0x7A
                           then ucast (shift_map ! unat code) else temp)
               in kbd_emit code temp (normal_map ! unat code) k e)"

definition keyboard_callback :: "kbd \<Rightarrow> env \<Rightarrow> (kbd \<times> env) res" where
  "keyboard_callback k e =
     (let (b, e) = inportb 0x60 e;
          code = ucast b :: u32;
          (code, k) = (if code \<ge> 0x80 then (code AND 0x7F, k\<lparr>saw_break_code := 1\<rparr>) else (code, k))
      in if saw_break_code k \<noteq> 0
         then
           let k = (if code = 0x38 then k\<lparr>kbd_status := kbd_status k AND NOT 0x0200\<rparr>
                    else if code = 0x1D then k\<lparr>kbd_status := kbd_status k AND NOT 0x0400\<rparr>
                    else if code = 0x2A \<or> code = 0x36
                    then k\<lparr>kbd_status := kbd_status k AND NOT 0x0800\<rparr> else k)
           in Inr (k\<lparr>saw_break_code := 0\<rparr>, e)
         else if code = 0x38 then Inr (k\<lparr>kbd_status := kbd_status k OR 0x0200\<rparr>, e)
         else if code = 0x1D then Inr (k\<lparr>kbd_status := kbd_status k OR 0x0400\<rparr>, e)
         else if code = 0x2A \<or> code = 0x36 then Inr (k\<lparr>kbd_status := kbd_status k OR 0x0800\<rparr>, e)
         else if code = 0x46
         then let k = k\<lparr>kbd_status := kbd_status k XOR 0x4000\<rparr> in Inr (k, kbd_leds k e)
         else if code = 0x45
         then let k = k\<lparr>kbd_status := kbd_status k XOR 0x2000\<rparr> in Inr (k, kbd_leds k e)
         else if code = 0x3A
         then let k = k\<lparr>kbd_status := kbd_status k XOR 0x1000\<rparr> in Inr (k, kbd_leds k e)
         else kbd_convert code k e)"

definition keyboard_init :: "'h \<Rightarrow> 'h handlers \<Rightarrow> env \<Rightarrow> 'h handlers \<times> env" where
  "keyboard_init callback hs e =
     (let e = kprintf_call ''Initializing the keyboard driver...\<newline>\<newline>'' [] e
      in (register_interrupt_handler 33 callback hs, e))"

text \<open>Both run with interrupts off, so no key arrives in between.\<close>

definition kbd_keys_available :: "kbd \<Rightarrow> int" where
  "kbd_keys_available k = fifo_empty (kbd_buffer k)"

definition kbd_get_key :: "kbd \<Rightarrow> (u8 \<times> kbd) res" where
  "kbd_get_key k =
     res_bind (fifo_get (kbd_buffer k) 0) (\<lambda>(r, key, q). Inr (key, k\<lparr>kbd_buffer := q\<rparr>))"

section \<open>Specification: scan codes to keys\<close>

record modifiers =
  m_alt :: bool
  m_ctrl :: bool
  m_shift :: bool
  m_caps :: bool
  m_num :: bool
  m_scroll :: bool

text \<open>What the state word says.\<close>

definition mods_of :: "u16 \<Rightarrow> modifiers" where
  "mods_of s = \<lparr>m_alt = bit s 9, m_ctrl = bit s 10, m_shift = bit s 11, m_caps = bit s 12,
     m_num = bit s 13, m_scroll = bit s 14\<rparr>"

text \<open>The byte a key press puts in the queue; function keys up to F11 and unmapped keys put none.\<close>

definition key_byte :: "bool \<Rightarrow> nat \<Rightarrow> u8 option" where
  "key_byte shift c =
     (let mp = (if shift then shift_map else normal_map)
      in if c < length mp \<and> mp ! c \<noteq> 0 \<and> \<not> (0x80 \<le> mp ! c \<and> mp ! c \<le> 0x8A)
         then Some (mp ! c) else None)"

fun key_step :: "modifiers \<Rightarrow> nat \<Rightarrow> modifiers \<times> u8 option" where
  "key_step m b =
     (if b \<ge> 128
      then let c = b - 128
           in (if c = 0x38 then m\<lparr>m_alt := False\<rparr>
               else if c = 0x1D then m\<lparr>m_ctrl := False\<rparr>
               else if c = 0x2A \<or> c = 0x36 then m\<lparr>m_shift := False\<rparr> else m, None)
      else if b = 0x38 then (m\<lparr>m_alt := True\<rparr>, None)
      else if b = 0x1D then (m\<lparr>m_ctrl := True\<rparr>, None)
      else if b = 0x2A \<or> b = 0x36 then (m\<lparr>m_shift := True\<rparr>, None)
      else if b = 0x46 then (m\<lparr>m_scroll := \<not> m_scroll m\<rparr>, None)
      else if b = 0x45 then (m\<lparr>m_num := \<not> m_num m\<rparr>, None)
      else if b = 0x3A then (m\<lparr>m_caps := \<not> m_caps m\<rparr>, None)
      else (m, key_byte (m_shift m) b))"

declare key_step.simps [simp del]

text \<open>A key joins the queue if there is room and is lost otherwise.\<close>

definition push_key :: "nat \<Rightarrow> u8 list \<Rightarrow> u8 option \<Rightarrow> u8 list" where
  "push_key cap ks key = (case key of None \<Rightarrow> ks | Some x \<Rightarrow> take cap (ks @ [x]))"

definition kbd_wf :: "kbd \<Rightarrow> bool" where
  "kbd_wf k \<longleftrightarrow> fifo_wf (kbd_buffer k) \<and> fsize (kbd_buffer k) = 64 \<and> saw_break_code k = 0"

section \<open>The driver refines the specification\<close>

lemma and_flag:
  fixes s :: u16
  shows "s AND 0x0200 = 0 \<longleftrightarrow> \<not> bit s 9" "s AND 0x0400 = 0 \<longleftrightarrow> \<not> bit s 10"
    "s AND 0x0800 = 0 \<longleftrightarrow> \<not> bit s 11" "s AND 0x1000 = 0 \<longleftrightarrow> \<not> bit s 12"
    "s AND 0x2000 = 0 \<longleftrightarrow> \<not> bit s 13" "s AND 0x4000 = 0 \<longleftrightarrow> \<not> bit s 14"
  using and_exp_eq_0_iff_not_bit [of s 9] and_exp_eq_0_iff_not_bit [of s 10]
    and_exp_eq_0_iff_not_bit [of s 11] and_exp_eq_0_iff_not_bit [of s 12]
    and_exp_eq_0_iff_not_bit [of s 13] and_exp_eq_0_iff_not_bit [of s 14]
  by simp_all

lemma mods_of_update:
  "mods_of (s AND NOT 0x0200) = (mods_of s)\<lparr>m_alt := False\<rparr>"
  "mods_of (s AND NOT 0x0400) = (mods_of s)\<lparr>m_ctrl := False\<rparr>"
  "mods_of (s AND NOT 0x0800) = (mods_of s)\<lparr>m_shift := False\<rparr>"
  "mods_of (s OR 0x0200) = (mods_of s)\<lparr>m_alt := True\<rparr>"
  "mods_of (s OR 0x0400) = (mods_of s)\<lparr>m_ctrl := True\<rparr>"
  "mods_of (s OR 0x0800) = (mods_of s)\<lparr>m_shift := True\<rparr>"
  "mods_of (s XOR 0x4000) = (mods_of s)\<lparr>m_scroll := \<not> m_scroll (mods_of s)\<rparr>"
  "mods_of (s XOR 0x2000) = (mods_of s)\<lparr>m_num := \<not> m_num (mods_of s)\<rparr>"
  "mods_of (s XOR 0x1000) = (mods_of s)\<lparr>m_caps := \<not> m_caps (mods_of s)\<rparr>"
  by (simp_all add: mods_of_def bit_and_iff bit_or_iff bit_xor_iff bit_not_iff)

lemmas mods_of_simps = mods_of_update mods_of_update [simplified]

lemma length_maps [simp]: "length normal_map = 89" "length shift_map = 88"
  by (simp_all add: normal_map_def shift_map_def)

lemma fifo_insert_push:
  assumes "fifo_wf q" "fsize q = 64"
  shows "\<exists>r q'. fifo_insert q x = Inr (r, q') \<and> fifo_wf q' \<and> fsize q' = 64 \<and>
    fifo_list q' = take 63 (fifo_list q @ [x])"
proof -
  have cap: "fifo_capacity q = 63" using assms(2) by (simp add: fifo_capacity_def)
  from kq.ins_total [OF assms(1), of x] obtain r q' where q': "fifo_insert q x = Inr (r, q')"
    "fifo_list q' = take 63 (fifo_list q @ [x])" "fifo_wf q'"
    using cap by auto
  moreover have "fsize q' = fsize q"
    using q'(1) by (auto simp: fifo_insert_def Let_def split: if_splits)
  ultimately show ?thesis using assms(2) by auto
qed

lemma kbd_emit_spec:
  assumes "kbd_wf k" "c \<le> 0x58" "x \<noteq> 0"
  shows "\<exists>k' e'. kbd_emit c temp x k e = Inr (k', e') \<and> kbd_wf k' \<and> kbd_status k' = kbd_status k \<and>
    fifo_list (kbd_buffer k') = push_key 63 (fifo_list (kbd_buffer k))
      (if 0x80 \<le> x \<and> x \<le> 0x8A then None else Some x)"
proof -
  have wf: "fifo_wf (kbd_buffer k)" "fsize (kbd_buffer k) = 64" "saw_break_code k = 0"
    using assms(1) by (simp_all add: kbd_wf_def)
  from fifo_insert_push [OF wf(1,2), of x] obtain r q' where
    "fifo_insert (kbd_buffer k) x = Inr (r, q')" "fifo_wf q'" "fsize q' = 64"
    "fifo_list q' = take 63 (fifo_list (kbd_buffer k) @ [x])"
    by blast
  then show ?thesis
    using assms wf by (auto simp: kbd_emit_def kbd_wf_def push_key_def Let_def)
qed

text \<open>The conversion for one of the two maps, \<open>mp\<close> standing for it.\<close>

lemma kbd_convert_shape:
  assumes "c < 128" "mp = (if bit (kbd_status k) 11 then shift_map else normal_map)"
  shows "\<not> (c < length mp \<and> mp ! c \<noteq> 0) \<Longrightarrow> kbd_convert (of_nat c) k e = Inr (k, e)"
    and "c < length mp \<Longrightarrow> mp ! c \<noteq> 0 \<Longrightarrow>
      \<exists>temp. kbd_convert (of_nat c) k e = kbd_emit (of_nat c) temp (mp ! c) k e"
proof -
  have u: "unat (of_nat c :: u32) = c"
    using assms(1) by (simp add: unat_of_nat_small)
  have ge: "(of_nat c :: u32) \<ge> of_nat n \<longleftrightarrow> n \<le> c" if "n < 128" for n
    using that u by (simp add: word_le_nat_alt unat_of_nat_small)
  have ge88: "(88 :: u32) \<le> of_nat c \<longleftrightarrow> 88 \<le> c" and ge89: "(89 :: u32) \<le> of_nat c \<longleftrightarrow> 89 \<le> c"
    using ge [of 88] ge [of 89] by simp_all
  have zero: "(ucast x :: u16) = 0 \<longleftrightarrow> x = 0" for x :: u8
    by (rule ucast_up_eq_0) simp
  note defs = kbd_convert_def and_flag Let_def zero u length_maps of_nat_numeral ge88 ge89
  show "\<not> (c < length mp \<and> mp ! c \<noteq> 0) \<Longrightarrow> kbd_convert (of_nat c) k e = Inr (k, e)"
    using assms(2) by (cases "bit (kbd_status k) 11") (auto simp add: defs)
  show "c < length mp \<Longrightarrow> mp ! c \<noteq> 0 \<Longrightarrow>
      \<exists>temp. kbd_convert (of_nat c) k e = kbd_emit (of_nat c) temp (mp ! c) k e"
    using assms(2) by (cases "bit (kbd_status k) 11") (simp_all add: defs, blast+)
qed

lemma kbd_convert_spec:
  assumes "kbd_wf k" "c < 128"
  shows "\<exists>k' e'. kbd_convert (of_nat c) k e = Inr (k', e') \<and> kbd_wf k' \<and>
    kbd_status k' = kbd_status k \<and>
    fifo_list (kbd_buffer k') =
      push_key 63 (fifo_list (kbd_buffer k)) (key_byte (bit (kbd_status k) 11) c)"
proof -
  define mp where "mp = (if bit (kbd_status k) 11 then shift_map else normal_map)"
  have kb: "key_byte (bit (kbd_status k) 11) c =
      (if c < length mp \<and> mp ! c \<noteq> 0 \<and> \<not> (0x80 \<le> mp ! c \<and> mp ! c \<le> 0x8A)
       then Some (mp ! c) else None)"
    by (simp add: key_byte_def mp_def Let_def)
  show ?thesis
  proof (cases "c < length mp \<and> mp ! c \<noteq> 0")
    case False
    from kbd_convert_shape(1) [OF assms(2) mp_def False] False assms(1) show ?thesis
      by (auto simp: kb push_key_def)
  next
    case True
    then have "c \<le> 0x58" by (simp add: mp_def split: if_splits)
    then have c: "of_nat c \<le> (0x58 :: u32)"
      using assms(2) by (simp add: word_le_nat_alt unat_of_nat_small)
    from kbd_convert_shape(2) [OF assms(2) mp_def] True obtain temp
      where "kbd_convert (of_nat c) k e = kbd_emit (of_nat c) temp (mp ! c) k e" by blast
    moreover have "key_byte (bit (kbd_status k) 11) c =
        (if 0x80 \<le> mp ! c \<and> mp ! c \<le> 0x8A then None else Some (mp ! c))"
      using True by (auto simp: kb)
    ultimately show ?thesis
      using kbd_emit_spec [OF assms(1) c, of "mp ! c" temp e] True by simp
  qed
qed

text \<open>The scan code the next read of port \<open>0x60\<close> delivers.\<close>

definition next_scan :: "env \<Rightarrow> u8" where
  "next_scan e = in_stream e 0x60 (in_count e 0x60)"

lemma inportb_next: "inportb 0x60 e = (next_scan e, e1) \<longleftrightarrow> snd (inportb 0x60 e) = e1"
  by (auto simp add: inportb_def next_scan_def)

text \<open>The two halves of the scan code space.\<close>

lemma keyboard_callback_break:
  assumes "kbd_wf k" "128 \<le> unat (next_scan e)"
  shows "\<exists>k' e'. keyboard_callback k e = Inr (k', e') \<and> kbd_wf k' \<and> kbd_buffer k' = kbd_buffer k \<and>
    mods_of (kbd_status k') = fst (key_step (mods_of (kbd_status k)) (unat (next_scan e)))"
proof -
  have lt: "unat (next_scan e) < 256" using unat_less_pow [of "next_scan e"] by simp
  define c where "c = unat (next_scan e) - 128"
  have code: "ucast (next_scan e) \<ge> (0x80 :: u32)"
    using assms(2) by (simp add: word_le_nat_alt unat_ucast_up)
  have "unat (ucast (next_scan e) AND 0x7F :: u32) = c"
    using assms(2) lt by (simp add: unat_and_low_bits unat_ucast_up c_def mod_if)
  then have "(ucast (next_scan e) AND 0x7F :: u32) = of_nat c"
    using lt by (simp add: word_unat_eq_iff unat_of_nat_small c_def)
  moreover have "(of_nat c :: u32) = 0x38 \<longleftrightarrow> c = 0x38" "(of_nat c :: u32) = 0x1D \<longleftrightarrow> c = 0x1D"
    "(of_nat c :: u32) = 0x2A \<longleftrightarrow> c = 0x2A" "(of_nat c :: u32) = 0x36 \<longleftrightarrow> c = 0x36"
    using lt by (simp_all add: of_nat_eq_numeral c_def)
  moreover define s where "s = (if c = 0x38 then kbd_status k AND NOT 0x0200
      else if c = 0x1D then kbd_status k AND NOT 0x0400
      else if c = 0x2A \<or> c = 0x36 then kbd_status k AND NOT 0x0800 else kbd_status k)"
  moreover obtain e1 where "inportb 0x60 e = (next_scan e, e1)"
    by (simp add: inportb_next)
  ultimately have "keyboard_callback k e = Inr (k\<lparr>kbd_status := s, saw_break_code := 0\<rparr>, e1)"
    using code by (simp add: keyboard_callback_def Let_def)
  moreover have "mods_of s = fst (key_step (mods_of (kbd_status k)) (unat (next_scan e)))"
    using assms(2) by (simp add: key_step.simps s_def mods_of_simps Let_def flip: c_def)
  ultimately show ?thesis
    using assms(1) by (simp add: kbd_wf_def)
qed

lemma keyboard_callback_make:
  assumes "kbd_wf k" "unat (next_scan e) < 128"
  shows "\<exists>k' e'. keyboard_callback k e = Inr (k', e') \<and> kbd_wf k' \<and>
    mods_of (kbd_status k') = fst (key_step (mods_of (kbd_status k)) (unat (next_scan e))) \<and>
    fifo_list (kbd_buffer k') = push_key 63 (fifo_list (kbd_buffer k))
      (snd (key_step (mods_of (kbd_status k)) (unat (next_scan e))))"
proof -
  define c where "c = unat (next_scan e)"
  have u: "ucast (next_scan e) = (of_nat c :: u32)" by (simp add: c_def)
  have c: "c < 128" using assms(2) by (simp add: c_def)
  have small: "\<not> (0x80 :: u32) \<le> of_nat c"
    using c by (simp add: word_le_nat_alt unat_of_nat_small)
  obtain e1 where e1: "inportb 0x60 e = (next_scan e, e1)"
    by (simp add: inportb_next)
  have eqs: "(of_nat c :: u32) = 0x38 \<longleftrightarrow> c = 0x38" "(of_nat c :: u32) = 0x1D \<longleftrightarrow> c = 0x1D"
    "(of_nat c :: u32) = 0x2A \<longleftrightarrow> c = 0x2A" "(of_nat c :: u32) = 0x36 \<longleftrightarrow> c = 0x36"
    "(of_nat c :: u32) = 0x46 \<longleftrightarrow> c = 0x46" "(of_nat c :: u32) = 0x45 \<longleftrightarrow> c = 0x45"
    "(of_nat c :: u32) = 0x3A \<longleftrightarrow> c = 0x3A"
    using c by (simp_all add: of_nat_eq_numeral)
  have sb: "saw_break_code k = 0" using assms(1) by (simp add: kbd_wf_def)
  note cb = keyboard_callback_def e1 Let_def u small sb eqs
  note st = mods_of_simps push_key_def c_def [symmetric]
  consider (flag) s where "keyboard_callback k e = Inr (k\<lparr>kbd_status := s\<rparr>, e1)"
      "mods_of s = fst (key_step (mods_of (kbd_status k)) c)"
      "snd (key_step (mods_of (kbd_status k)) c) = None"
    | (lock) s where "keyboard_callback k e =
        Inr (k\<lparr>kbd_status := s\<rparr>, kbd_leds (k\<lparr>kbd_status := s\<rparr>) e1)"
      "mods_of s = fst (key_step (mods_of (kbd_status k)) c)"
      "snd (key_step (mods_of (kbd_status k)) c) = None"
    | (key) "keyboard_callback k e = kbd_convert (of_nat c) k e1"
      "key_step (mods_of (kbd_status k)) c =
        (mods_of (kbd_status k), key_byte (bit (kbd_status k) 11) c)"
  proof (cases "c \<in> {0x38, 0x1D, 0x2A, 0x36}")
    case True
    then show ?thesis by (elim insertE emptyE) (rule flag, auto simp: cb mods_of_simps key_step.simps)+
  next
    case nf: False
    show ?thesis
    proof (cases "c \<in> {0x46, 0x45, 0x3A}")
      case True
      then show ?thesis by (elim insertE emptyE) (rule lock, auto simp: cb mods_of_simps key_step.simps)+
    next
      case False
      show ?thesis
        by (rule key) (use nf False c in \<open>simp_all add: cb key_step.simps, simp add: mods_of_def\<close>)
    qed
  qed
  then show ?thesis
  proof cases
    case key
    with kbd_convert_spec [OF assms(1) c, of e1] show ?thesis
      by (auto simp add: c_def [symmetric])
  qed (use assms(1) in \<open>simp_all add: kbd_wf_def push_key_def c_def [symmetric]\<close>)
qed

lemma keyboard_callback_spec:
  assumes "kbd_wf k"
  shows "\<exists>k' e'. keyboard_callback k e = Inr (k', e') \<and> kbd_wf k' \<and>
    mods_of (kbd_status k') = fst (key_step (mods_of (kbd_status k)) (unat (next_scan e))) \<and>
    fifo_list (kbd_buffer k') = push_key 63 (fifo_list (kbd_buffer k))
      (snd (key_step (mods_of (kbd_status k)) (unat (next_scan e))))"
proof (cases "128 \<le> unat (next_scan e)")
  case True
  then have "snd (key_step m (unat (next_scan e))) = None" for m
    by (simp add: key_step.simps Let_def)
  with keyboard_callback_break [OF assms True] show ?thesis
    by (auto simp add: push_key_def)
next
  case False
  then show ?thesis by (intro keyboard_callback_make assms) simp
qed

lemma kbd_initial_wf: "kbd_wf kbd_initial" "fifo_list (kbd_buffer kbd_initial) = []"
  "mods_of (kbd_status kbd_initial) =
    \<lparr>m_alt = False, m_ctrl = False, m_shift = False, m_caps = False, m_num = False, m_scroll = False\<rparr>"
  using declare_fifo_queue_facts [of 64]
  by (simp_all add: kbd_initial_def kbd_wf_def mods_of_def c_int_defs declare_fifo_queue_def)

text \<open>
  C13. One keyboard interrupt, from any well-formed driver state and for whatever byte the
  controller delivers, never faults and does what the modifier machine \<open>key_step\<close> says: the
  state word encodes the new modifiers, and the byte \<open>key_step\<close> produces, if any, joins the end
  of the queue, being lost only when 63 keys already wait.
\<close>

lemma keyboard_callback_refines:
  assumes "kbd_wf k"
    and "key_step (mods_of (kbd_status k)) (unat (next_scan e)) = (m', key)"
  shows "\<exists>k' e'. keyboard_callback k e = Inr (k', e') \<and> kbd_wf k' \<and>
    mods_of (kbd_status k') = m' \<and>
    fifo_list (kbd_buffer k') = push_key 63 (fifo_list (kbd_buffer k)) key"
  using keyboard_callback_spec [OF assms(1), of e] assms(2) by simp

text \<open>Scan code \<open>0x1E\<close> is the key A.\<close>

definition env_of_byte :: "u8 \<Rightarrow> env" where
  "env_of_byte b = \<lparr>in_stream = (\<lambda>p n. b), in_count = (\<lambda>p. 0), outs = [], klog = []\<rparr>"

lemma next_scan_env_of_byte [simp]: "next_scan (env_of_byte b) = b"
  by (simp add: next_scan_def env_of_byte_def)

lemma keyboard_callback_refines_witness:
  "\<exists>k' e'. keyboard_callback kbd_initial (env_of_byte 0x1E) = Inr (k', e') \<and> kbd_wf k' \<and>
    mods_of (kbd_status k') = mods_of 0 \<and> fifo_list (kbd_buffer k') = [0x61]"
proof -
  have "key_step (mods_of (kbd_status kbd_initial)) (unat (next_scan (env_of_byte 0x1E))) =
      (mods_of 0, Some 0x61)"
    by (simp add: kbd_initial_def mods_of_def key_byte_def normal_map_def key_step.simps)
  from keyboard_callback_refines [OF kbd_initial_wf(1) this] show ?thesis
    by (simp add: kbd_initial_wf push_key_def)
qed

section \<open>The driver between interrupts and the shell\<close>

text \<open>
  The kernel runs as an interleaving of keyboard interrupts and reads by the shell loop, which
  calls \<^verbatim>\<open>kbd_get_key\<close> only while \<^verbatim>\<open>kbd_keys_available\<close> is 0. A run records the
  scan codes that arrived and the keys that were read.
\<close>

datatype kbd_event = Scan u8 | Key_read u8

inductive kbd_step :: "kbd \<Rightarrow> kbd_event \<Rightarrow> kbd \<Rightarrow> bool" where
  Interrupt: "keyboard_callback k e = Inr (k', e') \<Longrightarrow> kbd_step k (Scan (next_scan e)) k'"
| Shell_read: "kbd_keys_available k = 0 \<Longrightarrow> kbd_get_key k = Inr (x, k') \<Longrightarrow>
    kbd_step k (Key_read x) k'"

inductive_cases kbd_step_ScanE: "kbd_step k (Scan b) k'"
inductive_cases kbd_step_ReadE: "kbd_step k (Key_read x) k'"

inductive kbd_run :: "kbd \<Rightarrow> kbd_event list \<Rightarrow> kbd \<Rightarrow> bool" where
  Run_Nil: "kbd_run k [] k"
| Run_Cons: "kbd_step k ev k1 \<Longrightarrow> kbd_run k1 evs k2 \<Longrightarrow> kbd_run k (ev # evs) k2"

inductive_simps kbd_run_simps: "kbd_run k [] k'" "kbd_run k (ev # evs) k'"

fun keys_read :: "kbd_event list \<Rightarrow> u8 list" where
  "keys_read [] = []"
| "keys_read (Scan b # evs) = keys_read evs"
| "keys_read (Key_read x # evs) = x # keys_read evs"

fun keys_typed :: "modifiers \<Rightarrow> kbd_event list \<Rightarrow> u8 list" where
  "keys_typed m [] = []"
| "keys_typed m (Scan b # evs) =
     (let (m', key) = key_step m (unat b)
      in (case key of None \<Rightarrow> [] | Some x \<Rightarrow> [x]) @ keys_typed m' evs)"
| "keys_typed m (Key_read x # evs) = keys_typed m evs"

lemma kbd_get_key_spec:
  assumes "kbd_wf k" "kbd_keys_available k = 0" "kbd_get_key k = Inr (x, k')"
  shows "fifo_list (kbd_buffer k) = x # fifo_list (kbd_buffer k') \<and> kbd_wf k' \<and>
    kbd_status k' = kbd_status k"
proof -
  have wf: "fifo_wf (kbd_buffer k)" "fsize (kbd_buffer k) = 64" "saw_break_code k = 0"
    using assms(1) by (simp_all add: kbd_wf_def)
  have "fifo_list (kbd_buffer k) \<noteq> []"
    using kq.is_empty_iff [OF wf(1)] assms(2) by (simp add: kbd_keys_available_def split: if_splits)
  then obtain y ys where ys: "fifo_list (kbd_buffer k) = y # ys"
    by (cases "fifo_list (kbd_buffer k)") auto
  from kq.get_first [OF wf(1) ys, of 0] obtain q' where q': "fifo_get (kbd_buffer k) 0 = Inr (0, y, q')"
    "fifo_list q' = ys" "fifo_wf q'" by blast
  have "fsize q' = fsize (kbd_buffer k)"
    using q'(1) by (auto simp: fifo_get_def Let_def split: if_splits)
  with q' ys wf assms(3) show ?thesis
    by (auto simp: kbd_get_key_def kbd_wf_def)
qed

lemma kbd_step_spec:
  assumes "kbd_step k ev k'" "kbd_wf k"
  shows "kbd_wf k' \<and>
    (case ev of
      Scan b \<Rightarrow> mods_of (kbd_status k') = fst (key_step (mods_of (kbd_status k)) (unat b)) \<and>
        fifo_list (kbd_buffer k') = push_key 63 (fifo_list (kbd_buffer k))
          (snd (key_step (mods_of (kbd_status k)) (unat b)))
    | Key_read x \<Rightarrow> kbd_status k' = kbd_status k \<and>
        fifo_list (kbd_buffer k) = x # fifo_list (kbd_buffer k'))"
proof (cases ev)
  case (Scan b)
  with assms(1) obtain e e' where "keyboard_callback k e = Inr (k', e')" "b = next_scan e"
    by (auto elim: kbd_step_ScanE)
  with keyboard_callback_spec [OF assms(2), of e] Scan show ?thesis
    by (auto)
next
  case (Key_read x)
  with assms show ?thesis
    by (auto elim!: kbd_step_ReadE dest: kbd_get_key_spec)
qed

lemma push_key_subseq: "subseq (push_key n ks key) (ks @ (case key of None \<Rightarrow> [] | Some x \<Rightarrow> [x]))"
  by (cases key) (auto simp: push_key_def simp del: take_append intro: prefix_imp_subseq take_is_prefix)

lemma push_key_room:
  "length (ks @ (case key of None \<Rightarrow> [] | Some x \<Rightarrow> [x])) \<le> n \<Longrightarrow>
    push_key n ks key = ks @ (case key of None \<Rightarrow> [] | Some x \<Rightarrow> [x])"
  by (cases key) (auto simp: push_key_def)

lemma queue_step_lists:
  assumes "subseq out (q1 @ rest) \<and> (length (q1 @ rest) \<le> n \<longrightarrow> out = q1 @ rest)"
    and "subseq q1 typed" "length typed \<le> n \<Longrightarrow> q1 = typed"
  shows "subseq out (typed @ rest) \<and> (length (typed @ rest) \<le> n \<longrightarrow> out = typed @ rest)"
proof
  have "subseq (q1 @ rest) (typed @ rest)"
    using assms(2) by simp
  then show "subseq out (typed @ rest)"
    using assms(1) subseq_order.trans by blast
  show "length (typed @ rest) \<le> n \<longrightarrow> out = typed @ rest"
    using assms(1,3) by auto
qed

lemma keys_typed_Scan:
  "keys_typed m (Scan b # evs) =
    (case snd (key_step m (unat b)) of None \<Rightarrow> [] | Some x \<Rightarrow> [x]) @
    keys_typed (fst (key_step m (unat b))) evs"
  by (simp add: case_prod_beta Let_def)

lemma kbd_run_spec:
  "kbd_run k evs k' \<Longrightarrow> kbd_wf k \<Longrightarrow>
    kbd_wf k' \<and>
    subseq (keys_read evs @ fifo_list (kbd_buffer k'))
      (fifo_list (kbd_buffer k) @ keys_typed (mods_of (kbd_status k)) evs) \<and>
    (length (fifo_list (kbd_buffer k) @ keys_typed (mods_of (kbd_status k)) evs) \<le> 63 \<longrightarrow>
      keys_read evs @ fifo_list (kbd_buffer k') =
      fifo_list (kbd_buffer k) @ keys_typed (mods_of (kbd_status k)) evs)"
proof (induction rule: kbd_run.induct)
  case (Run_Nil k)
  then show ?case by simp
next
  case (Run_Cons k ev k1 evs k2)
  note step = kbd_step_spec [OF Run_Cons.hyps(1) Run_Cons.prems]
  note IH = Run_Cons.IH [OF step [THEN conjunct1]]
  show ?case
  proof (cases ev)
    case (Key_read x)
    then show ?thesis using step IH by auto
  next
    case (Scan b)
    let ?ks = "fifo_list (kbd_buffer k)" and ?ks1 = "fifo_list (kbd_buffer k1)"
    let ?m = "mods_of (kbd_status k)" and ?m1 = "mods_of (kbd_status k1)"
    let ?new = "case snd (key_step ?m (unat b)) of None \<Rightarrow> [] | Some x \<Rightarrow> [x]"
    have all: "?ks @ keys_typed ?m (ev # evs) = (?ks @ ?new) @ keys_typed ?m1 evs"
      using step Scan by (simp add: keys_typed_Scan del: keys_typed.simps(2))
    have ks1: "?ks1 = push_key 63 ?ks (snd (key_step ?m (unat b)))"
      using step Scan by simp
    have sub: "subseq ?ks1 (?ks @ ?new)"
      unfolding ks1 by (rule push_key_subseq)
    have eq: "length (?ks @ ?new) \<le> 63 \<Longrightarrow> ?ks1 = ?ks @ ?new"
      unfolding ks1 by (rule push_key_room)
    from queue_step_lists [OF IH [THEN conjunct2] sub eq] IH show ?thesis
      unfolding all by (simp only: Scan keys_read.simps) blast
  qed
qed

text \<open>
  C12. Over any interleaving of keyboard interrupts and reads, what the shell has read followed by
  what still waits is, in order, a subsequence of what waited before and what was typed since:
  nothing is invented, repeated or reordered, and while these are at most 63 keys nothing is lost.
\<close>

lemma keys_are_read_in_order:
  assumes "kbd_run k evs k'" "kbd_wf k"
    and "fifo_list (kbd_buffer k) @ keys_typed (mods_of (kbd_status k)) evs = all"
  shows "kbd_wf k' \<and> subseq (keys_read evs @ fifo_list (kbd_buffer k')) all \<and>
    (length all \<le> 63 \<longrightarrow> keys_read evs @ fifo_list (kbd_buffer k') = all)"
  using kbd_run_spec [OF assms(1,2)] assms(3) by auto

lemma kbd_step_Scan: "kbd_wf k \<Longrightarrow> \<exists>k'. kbd_step k (Scan b) k'"
  using keyboard_callback_spec [of k "env_of_byte b"] kbd_step.Interrupt [of k "env_of_byte b"]
  by auto

lemma keys_are_read_in_order_witness:
  "\<exists>k'. kbd_run kbd_initial [Scan 0x2A, Scan 0x1E] k' \<and> fifo_list (kbd_buffer k') = [0x41]"
proof -
  obtain k1 where k1: "kbd_step kbd_initial (Scan 0x2A) k1"
    using kbd_step_Scan kbd_initial_wf(1) by blast
  obtain k2 where k2: "kbd_step k1 (Scan 0x1E) k2"
    using kbd_step_Scan kbd_step_spec [OF k1 kbd_initial_wf(1)] by blast
  have run: "kbd_run kbd_initial [Scan 0x2A, Scan 0x1E] k2"
    using k1 k2 by (auto simp: kbd_run_simps)
  have "fifo_list (kbd_buffer kbd_initial) @
      keys_typed (mods_of (kbd_status kbd_initial)) [Scan 0x2A, Scan 0x1E] = [0x41]"
    by (simp add: kbd_initial_wf key_step.simps key_byte_def shift_map_def)
  from keys_are_read_in_order [OF run kbd_initial_wf(1) this] run show ?thesis
    by auto
qed

section \<open>Caps Lock and the LEDs\<close>

text \<open>
  Caps Lock has no effect on what is typed: with the Caps Lock bit of the state word
  inverted, the same interrupt leaves the same keys in the queue. (The handler computes the
  letter of the other case into \<^verbatim>\<open>temp\<close> and then queues \<^verbatim>\<open>converted\<close>.)
\<close>

lemma caps_lock_ignored:
  assumes "kbd_wf k"
    and "keyboard_callback k e = Inr (k1, e1)"
    and "keyboard_callback (k\<lparr>kbd_status := kbd_status k XOR 0x1000\<rparr>) e = Inr (k2, e2)"
  shows "fifo_list (kbd_buffer k2) = fifo_list (kbd_buffer k1)"
proof -
  have wf: "kbd_wf (k\<lparr>kbd_status := kbd_status k XOR 0x1000\<rparr>)"
    using assms(1) by (simp add: kbd_wf_def)
  have "snd (key_step (m\<lparr>m_caps := c\<rparr>) n) = snd (key_step m n)" for m c n
    by (simp add: key_step.simps Let_def)
  then show ?thesis
    using keyboard_callback_spec [OF assms(1), of e] keyboard_callback_spec [OF wf, of e] assms(2,3)
    by (simp add: mods_of_update)
qed

lemma caps_lock_ignored_witness:
  "\<exists>k1 e1 k2 e2. keyboard_callback kbd_initial (env_of_byte 0x1E) = Inr (k1, e1) \<and>
    keyboard_callback (kbd_initial\<lparr>kbd_status := kbd_status kbd_initial XOR 0x1000\<rparr>)
      (env_of_byte 0x1E) = Inr (k2, e2) \<and>
    fifo_list (kbd_buffer k2) = fifo_list (kbd_buffer k1)"
proof -
  have wf: "kbd_wf (kbd_initial\<lparr>kbd_status := kbd_status kbd_initial XOR 0x1000\<rparr>)"
    using kbd_initial_wf(1) by (simp add: kbd_wf_def)
  from keyboard_callback_spec [OF kbd_initial_wf(1), of "env_of_byte 0x1E"]
    keyboard_callback_spec [OF wf, of "env_of_byte 0x1E"]
    caps_lock_ignored [OF kbd_initial_wf(1)]
  show ?thesis by blast
qed

lemma write_kbd_wait_ready:
  assumes "\<And>n. (in_stream e 0x64 n AND 0x02 = 0) = ready"
  shows "(fst (write_kbd_wait t e) \<noteq> 0) = (ready \<and> t \<noteq> 0) \<and>
    outs (snd (write_kbd_wait t e)) = outs e \<and> in_stream (snd (write_kbd_wait t e)) = in_stream e"
  using assms
proof (induction t arbitrary: e)
  case 0
  then show ?case by simp
next
  case (Suc t)
  obtain e1 where e1: "inportb 0x64 e = (in_stream e 0x64 (in_count e 0x64), e1)"
    "outs e1 = outs e" "in_stream e1 = in_stream e"
    by (simp add: inportb_def)
  have "(in_stream e1 0x64 n AND 0x02 = 0) = ready" for n
    using Suc.prems e1(3) by simp
  with Suc.IH [of e1] Suc.prems e1 show ?case
    by (cases ready) simp_all
qed

lemma write_kbd_outs:
  assumes "\<And>n. (in_stream e 0x64 n AND 0x02 = 0) = ready"
  shows "outs (write_kbd adr data e) =
      outs e @ (if ready then [OutB (ucast adr) (ucast data)] else []) \<and>
    in_stream (write_kbd adr data e) = in_stream e"
  using write_kbd_wait_ready [OF assms, of 500000]
  by (simp add: write_kbd_def Let_def split: prod.splits) auto

definition led_byte :: "modifiers \<Rightarrow> u8" where
  "led_byte m = (if m_scroll m then 1 else 0) + (if m_num m then 2 else 0) + (if m_caps m then 4 else 0)"

text \<open>
  When a lock key is pressed, the keyboard is sent \<open>0xED\<close> and then the byte of the three
  lock states, if its controller is ready; against a controller that stays busy the driver gives
  up after 500000 polls and sends nothing.
\<close>

lemma kbd_leds_programs_keyboard:
  assumes "\<And>n. (in_stream e 0x64 n AND 0x02 = 0) = ready"
  shows "outs (kbd_leds k e) = outs e @
    (if ready then [OutB 0x60 0xED, OutB 0x60 (led_byte (mods_of (kbd_status k)))] else [])"
proof -
  define e1 where "e1 = write_kbd 0x60 0xED e"
  have e1: "outs e1 = outs e @ (if ready then [OutB 0x60 0xED] else [])" "in_stream e1 = in_stream e"
    using write_kbd_outs [OF assms, of "0x60" "0xED"] by (simp_all add: e1_def)
  have "(in_stream e1 0x64 n AND 0x02 = 0) = ready" for n
    using assms e1(2) by simp
  note w = write_kbd_outs [of e1 ready, OF this]
  show ?thesis
    unfolding kbd_leds_def e1_def [symmetric] Let_def
    using w by (simp add: e1 led_byte_def mods_of_def and_flag)
qed

lemma kbd_leds_programs_keyboard_witness:
  "outs (kbd_leds (kbd_initial\<lparr>kbd_status := 0x5000\<rparr>) (env_of_byte 0)) = [OutB 0x60 0xED, OutB 0x60 5]"
  using kbd_leds_programs_keyboard [of "env_of_byte 0" True "kbd_initial\<lparr>kbd_status := 0x5000\<rparr>"]
  by (simp add: env_of_byte_def led_byte_def mods_of_def)

end
