(* ===== verification/Video.thy ===== *)
theory Video
  imports Clib Interrupts
begin

text \<open>
  The text screen, \<^verbatim>\<open>kernel/video.c\<close>: the cells of the video memory, the cursor, and
  \<^verbatim>\<open>kprintf\<close>. The other components only record their calls (\<open>klog\<close> of \<open>Ports\<close>);
  \<open>run_calls\<close> here says what such a record does to the screen. The video memory is a function
  on all offsets, since the code writes below the last row before it scrolls.
\<close>

section \<open>The screen\<close>

record screen =
  cells :: "nat \<Rightarrow> u16"
  cursor_x :: u8
  cursor_y :: u8
  attr :: u8
  senv :: env

text \<open>A cell: \<^verbatim>\<open>char\<close> is signed and widens with its sign before the attribute is put in.\<close>

definition cell_of :: "u8 \<Rightarrow> u8 \<Rightarrow> u16" where
  "cell_of c a = scast c OR push_bit 8 (ucast a)"

definition set_cell :: "nat \<Rightarrow> u16 \<Rightarrow> screen \<Rightarrow> screen" where
  "set_cell pos w s = s\<lparr>cells := (cells s)(pos := w)\<rparr>"

definition cursor_pos :: "screen \<Rightarrow> nat" where
  "cursor_pos s = unat (cursor_y s) * 80 + unat (cursor_x s)"

definition MoveCursor :: "screen \<Rightarrow> screen" where
  "MoveCursor s =
     (let CursorLocation = of_nat (cursor_pos s) :: u16;
          e = outportb 0x3D4 14 (senv s);
          e = outportb 0x3D5 (ucast (drop_bit 8 CursorLocation AND 0x00FF)) e;
          e = outportb 0x3D4 15 e;
          e = outportb 0x3D5 (ucast (CursorLocation AND 0x00FF)) e
      in s\<lparr>senv := e\<rparr>)"

definition SetCursor :: "u16 \<Rightarrow> u16 \<Rightarrow> screen \<Rightarrow> screen" where
  "SetCursor x y s =
     (let s = s\<lparr>cursor_x := ucast x, cursor_y := ucast y\<rparr>;
          CursorLocation = of_nat (cursor_pos s) :: u16;
          e = outportb 0x3D4 14 (senv s);
          e = outportb 0x3D5 (ucast (drop_bit 8 CursorLocation AND 0x00FF)) e;
          e = outportb 0x3D4 15 e;
          e = outportb 0x3D5 (ucast (CursorLocation AND 0x00FF)) e
      in s\<lparr>senv := e\<rparr>)"

definition ClearScreen :: "screen \<Rightarrow> screen" where
  "ClearScreen s =
     (let blank = cell_of 0x20 (attr s);
          s = fold (\<lambda>i. set_cell i blank) [0..<80 * 25] s
      in MoveCursor (s\<lparr>cursor_x := 0, cursor_y := 0\<rparr>))"

definition ScrollScreen :: "screen \<Rightarrow> screen" where
  "ScrollScreen s =
     (let blank = cell_of 0x20 (attr s)
      in if cursor_y s \<ge> 25
         then
           let s = fold (\<lambda>i s. set_cell i (cells s (i + 80)) s) [0..<24 * 80] s;
               s = fold (\<lambda>i. set_cell i blank) [24 * 80..<25 * 80] s
           in s\<lparr>cursor_y := 24\<rparr>
         else s)"

definition SetColor :: "u8 \<Rightarrow> screen \<Rightarrow> screen" where
  "SetColor color s = s\<lparr>attr := color AND 0x0F\<rparr>"

definition SetAttribute :: "u8 \<Rightarrow> u8 \<Rightarrow> screen \<Rightarrow> screen" where
  "SetAttribute background foreground s =
     s\<lparr>attr := push_bit 4 background OR (foreground AND 0x0F)\<rparr>"

section \<open>kprintf\<close>

text \<open>The loop that copies \<^verbatim>\<open>buffer\<close> to the screen, and the step of the cursor after it.\<close>

definition put_buffer :: "u8 list \<Rightarrow> screen \<Rightarrow> screen" where
  "put_buffer buffer s =
     (let s = fold (\<lambda>n s. set_cell (cursor_pos s + n) (cell_of (buffer ! n) (attr s)) s) [0..<length buffer] s
      in s\<lparr>cursor_x := cursor_x s + of_nat (length buffer)\<rparr>)"

definition put_char :: "u8 \<Rightarrow> screen \<Rightarrow> screen" where
  "put_char c s =
     (let s = set_cell (cursor_pos s) (cell_of c (attr s)) s
      in s\<lparr>cursor_x := cursor_x s + 1\<rparr>)"

text \<open>\<^verbatim>\<open>itoa(value, buffer, base)\<close>, and what the 20 bytes of the buffer then say as a string.\<close>

definition itoa_buffer :: "u32 \<Rightarrow> int \<Rightarrow> u8 list res" where
  "itoa_buffer value base =
     res_bind (itoa (\<lambda>_. 0) (sint value) 0 base) (\<lambda>m.
       Inr (takeWhile (\<lambda>c. c \<noteq> 0) (map (\<lambda>i. m (of_nat i)) [0..<20])))"

definition upper_from_2 :: "u8 list \<Rightarrow> u8 list" where
  "upper_from_2 b = take 2 b @ map (\<lambda>c. word_of_int (toupper (sint c))) (drop 2 b)"

definition bytes_of :: "string \<Rightarrow> u8 list" where
  "bytes_of s = map of_char s"

text \<open>The end of a turn of the loop.\<close>

definition wrap_line :: "screen \<Rightarrow> screen" where
  "wrap_line s =
     (if cursor_x s \<ge> 80 then s\<lparr>cursor_x := 0, cursor_y := cursor_y s + 1\<rparr> else s)"

text \<open>
  A conversion \<^verbatim>\<open>%c\<close> of the format with the next argument. An argument that is missing or
  of the wrong kind is undefined in C, and so is a string that does not fit \<^verbatim>\<open>buffer[20]\<close>.
\<close>

definition convert :: "char \<Rightarrow> karg list \<Rightarrow> screen \<Rightarrow> (karg list \<times> screen) res" where
  "convert c args s =
     (case args of
        ArgInt v # args' \<Rightarrow>
          if c = CHR ''d'' then res_bind (itoa_buffer v 10) (\<lambda>b. Inr (args', put_buffer b s))
          else if c = CHR ''c'' then Inr (args', put_char (ucast v) s)
          else if c = CHR ''x'' then res_bind (itoa_buffer v 16) (\<lambda>b. Inr (args', put_buffer b s))
          else if c = CHR ''X'' then res_bind (itoa_buffer v 16) (\<lambda>b. Inr (args', put_buffer (upper_from_2 b) s))
          else Inl Out_of_bounds
      | ArgStr t # args' \<Rightarrow>
          if c = CHR ''s'' \<and> length t < 20
          then Inr (args', put_buffer (bytes_of t) s)
          else Inl Out_of_bounds
      | [] \<Rightarrow> Inl Out_of_bounds)"

definition is_conversion :: "char \<Rightarrow> bool" where
  "is_conversion c \<longleftrightarrow> c \<in> {CHR ''d'', CHR ''c'', CHR ''s'', CHR ''x'', CHR ''X''}"

fun kprintf_loop :: "string \<Rightarrow> karg list \<Rightarrow> screen \<Rightarrow> screen res" where
  "kprintf_loop [] args s = Inr s"
| "kprintf_loop (c # str) args s =
     (if c = CHR ''\<newline>'' then
        kprintf_loop str args (wrap_line (s\<lparr>cursor_x := 0, cursor_y := cursor_y s + 1\<rparr>))
      else if c = CHR 0x09 then
        kprintf_loop str args (wrap_line (s\<lparr>cursor_x := (cursor_x s + 8) AND NOT 7\<rparr>))
      else if c = CHR ''%'' then
        (case str of
           [] \<Rightarrow> kprintf_loop [] args (wrap_line s)
         | d # rest \<Rightarrow>
             if is_conversion d
             then res_bind (convert d args s) (\<lambda>(args, s). kprintf_loop rest args (wrap_line s))
             else kprintf_loop (d # rest) args (wrap_line s))
      else kprintf_loop str args (wrap_line (put_char (of_char c) s)))"

definition kprintf :: "string \<Rightarrow> karg list \<Rightarrow> screen \<Rightarrow> screen res" where
  "kprintf str args s =
     res_bind (kprintf_loop str args s) (\<lambda>s. Inr (MoveCursor (ScrollScreen s)))"

text \<open>The strings of \<^verbatim>\<open>__DATE__\<close> and \<^verbatim>\<open>__TIME__\<close> come from the compiler.\<close>

definition Video_Init :: "string \<Rightarrow> string \<Rightarrow> screen \<Rightarrow> screen res" where
  "Video_Init date time s =
     (let s = ClearScreen (s\<lparr>attr := 7\<rparr>)
      in res_bind (kprintf ''Starting GekonOS...\<newline>'' [] s) (\<lambda>s.
         res_bind (kprintf ''(build: %s %s)\<newline>\<newline>'' [ArgStr date, ArgStr time] s) (\<lambda>s.
         kprintf ''Initializing Video Text Mode...\<newline>'' [] s)))"

text \<open>What a record of calls does to the screen.\<close>

fun run_calls :: "screen_call list \<Rightarrow> screen \<Rightarrow> screen res" where
  "run_calls [] s = Inr s"
| "run_calls (Kprintf fmt args # calls) s = res_bind (kprintf fmt args s) (run_calls calls)"
| "run_calls (Set_color c # calls) s = run_calls calls (SetColor c s)"

section \<open>Cells and scrolling\<close>

lemma set_cell_simps [simp]:
  "cells (set_cell p w s) = (cells s)(p := w)" "cursor_x (set_cell p w s) = cursor_x s"
  "cursor_y (set_cell p w s) = cursor_y s" "attr (set_cell p w s) = attr s"
  "senv (set_cell p w s) = senv s"
  by (simp_all add: set_cell_def)

lemma MoveCursor_simps [simp]:
  "cells (MoveCursor s) = cells s" "cursor_x (MoveCursor s) = cursor_x s"
  "cursor_y (MoveCursor s) = cursor_y s" "attr (MoveCursor s) = attr s"
  by (simp_all add: MoveCursor_def Let_def)

lemma fold_shift_rows:
  defines "shift n s \<equiv> fold (\<lambda>i s. set_cell i (cells s (i + 80)) s) [0..<n] s"
  shows "cells (shift n s) = (\<lambda>j. if j < n then cells s (j + 80) else cells s j)"
    "cursor_x (shift n s) = cursor_x s" "cursor_y (shift n s) = cursor_y s"
    "attr (shift n s) = attr s" "senv (shift n s) = senv s"
  unfolding shift_def by (induction n) (auto simp: fun_eq_iff less_Suc_eq)

lemma fold_fill_cells:
  fixes w :: u16
  defines "fill is s \<equiv> fold (\<lambda>i. set_cell i w) is s"
  shows "cells (fill is s) = (\<lambda>j. if j \<in> set is then w else cells s j)"
    "cursor_x (fill is s) = cursor_x s" "cursor_y (fill is s) = cursor_y s"
    "attr (fill is s) = attr s" "senv (fill is s) = senv s"
  unfolding fill_def by (induction "is" arbitrary: s) (auto simp: fun_eq_iff)

lemma fold_fill_range:
  "fold (\<lambda>i. set_cell i w) [a..<b] s = s\<lparr>cells := (\<lambda>j. if a \<le> j \<and> j < b then w else cells s j)\<rparr>"
  by (rule screen.equality) (simp_all add: fold_fill_cells)

lemma fold_shift_range:
  "fold (\<lambda>i s. set_cell i (cells s (i + 80)) s) [0..<n] s =
    s\<lparr>cells := (\<lambda>j. if j < n then cells s (j + 80) else cells s j)\<rparr>"
  by (rule screen.equality) (simp_all add: fold_shift_rows)

text \<open>
  Scrolling: with the cursor below the last row, every row takes the content of the row
  below it, the last row becomes blanks in the current attribute, nothing beyond the screen
  changes, and the cursor is on the last row, in the column it had. Otherwise nothing happens.
\<close>
theorem ScrollScreen_moves_rows_up:
  "ScrollScreen s =
    (if 25 \<le> cursor_y s
     then s\<lparr>cells := (\<lambda>i. if i < 24 * 80 then cells s (i + 80)
                        else if i < 25 * 80 then cell_of 0x20 (attr s) else cells s i),
            cursor_y := 24\<rparr>
     else s)"
  unfolding ScrollScreen_def Let_def fold_shift_range fold_fill_range
  by (simp add: fun_eq_iff if_distrib cong: if_cong)

section \<open>The cursor\<close>

lemma ScrollScreen_simps [simp]:
  "cursor_x (ScrollScreen s) = cursor_x s" "senv (ScrollScreen s) = senv s"
  "attr (ScrollScreen s) = attr s"
  "cursor_y (ScrollScreen s) = (if 25 \<le> cursor_y s then 24 else cursor_y s)"
  unfolding ScrollScreen_def Let_def fold_shift_range fold_fill_range by simp_all

lemma wrap_line_cursor_x: "cursor_x (wrap_line s) < 80"
  by (simp add: wrap_line_def not_le)

lemma wrap_line_senv [simp]: "senv (wrap_line s) = senv s"
  by (simp add: wrap_line_def)

lemma fold_put_frame:
  defines "put ns b s \<equiv> fold (\<lambda>n s. set_cell (cursor_pos s + n) (cell_of (b ! n) (attr s)) s) ns s"
  shows "cursor_x (put ns b s) = cursor_x s" "cursor_y (put ns b s) = cursor_y s"
    "attr (put ns b s) = attr s" "senv (put ns b s) = senv s"
  unfolding put_def by (induction ns arbitrary: s) auto

lemma put_buffer_senv [simp]: "senv (put_buffer b s) = senv s"
  by (simp add: put_buffer_def Let_def fold_put_frame)

lemma put_char_simps [simp]:
  "senv (put_char c s) = senv s" "cursor_x (put_char c s) = cursor_x s + 1"
  "cursor_y (put_char c s) = cursor_y s" "attr (put_char c s) = attr s"
  "cells (put_char c s) = (cells s)(cursor_pos s := cell_of c (attr s))"
  by (simp_all add: put_char_def Let_def)

lemma convert_senv: "convert c args s = Inr (args', s') \<Longrightarrow> senv s' = senv s"
  by (auto simp: convert_def res_bind_eq_Inr split: list.splits karg.splits if_splits)

lemma kprintf_loop_cursor:
  assumes "kprintf_loop str args s = Inr s'" "cursor_x s < 80"
  shows "cursor_x s' < 80 \<and> senv s' = senv s"
  using assms
proof (induction str args s rule: kprintf_loop.induct)
  case (2 c str args s)
  note IH = "2.IH" and prems = "2.prems"
  show ?case
  proof (cases "c = CHR 0x25")
    case pct: True
    show ?thesis
    proof (cases str)
      case Nil
      then show ?thesis
        using prems pct wrap_line_cursor_x [of s] by auto
    next
      case (Cons d rest)
      show ?thesis
      proof (cases "is_conversion d")
        case True
        then obtain a t where t: "convert d args s = Inr (a, t)"
          "kprintf_loop rest a (wrap_line t) = Inr s'"
          using prems pct Cons by (auto simp: res_bind_eq_Inr)
        then show ?thesis
          using IH(4) [OF _ _ pct Cons True t(1) refl t(2) wrap_line_cursor_x] convert_senv [OF t(1)] pct
          by simp
      next
        case False
        then show ?thesis
          using IH(5) [OF _ _ pct Cons False _ wrap_line_cursor_x] prems pct Cons by simp
      qed
    qed
  next
    case False
    then show ?thesis
      using IH(1,2,6) prems wrap_line_cursor_x by (auto split: if_splits)
  qed
qed simp

lemma MoveCursor_outs:
  "outs (senv (MoveCursor s)) = outs (senv s) @
    [OutB 0x3D4 14, OutB 0x3D5 (ucast (drop_bit 8 (of_nat (cursor_pos s) :: u16) AND 0xFF)),
     OutB 0x3D4 15, OutB 0x3D5 (ucast ((of_nat (cursor_pos s) :: u16) AND 0xFF))]"
  by (simp add: MoveCursor_def Let_def)

lemma cursor_bytes:
  fixes w :: u16
  shows "unat (ucast (drop_bit 8 w AND 0xFF) :: u8) * 256 + unat (ucast (w AND 0xFF) :: u8) = unat w"
proof -
  have b: "unat (x AND 0xFF) = unat x mod 256" for x :: u16
    using unat_and_mask [of x 8] by (simp add: mask_eq_exp_minus_1)
  have "unat w < 65536" using unat_less_pow [of w] by simp
  then have "unat w div 256 < 256" by (simp add: div_less_iff_less_mult)
  then show ?thesis
    by (simp add: unsigned_ucast_eq unsigned_take_bit_eq b take_bit_eq_mod unat_drop_bit_eq drop_bit_eq_div unat_div)
qed

text \<open>
  What the VGA controller makes of the port writes: the index register picks the high (14) or
  the low (15) byte of the cursor location.
\<close>

fun vga_cursor :: "io_event list \<Rightarrow> nat option" where
  "vga_cursor [OutB p c, OutB q hi, OutB r d, OutB t lo] =
     (if p = 0x3D4 \<and> c = 14 \<and> q = 0x3D5 \<and> r = 0x3D4 \<and> d = 15 \<and> t = 0x3D5
      then Some (unat hi * 256 + unat lo) else None)"
| "vga_cursor _ = None"

lemma kprintf_cursor:
  assumes "kprintf str args s = Inr s'" "cursor_x s < 80"
  shows "cursor_x s' < 80 \<and> cursor_y s' < 25 \<and>
    (\<exists>es. outs (senv s') = outs (senv s) @ es \<and> vga_cursor es = Some (cursor_pos s') \<and>
      cursor_pos s' < 2000)"
proof -
  obtain t where t: "kprintf_loop str args s = Inr t" "s' = MoveCursor (ScrollScreen t)"
    using assms(1) by (auto simp: kprintf_def res_bind_eq_Inr)
  note c = kprintf_loop_cursor [OF t(1) assms(2)]
  have y: "cursor_x s' < 80 \<and> cursor_y s' < 25"
    using c by (simp add: t(2) not_le)
  then have "unat (cursor_x s') < 80" "unat (cursor_y s') < 25"
    by (simp_all add: word_less_nat_alt)
  then have p: "cursor_pos s' < 2000" by (simp add: cursor_pos_def)
  have same: "cursor_pos (ScrollScreen t) = cursor_pos s'"
    by (simp add: cursor_pos_def t(2))
  have "unat (of_nat (cursor_pos s') :: u16) = cursor_pos s'"
    using p by (simp add: unat_of_nat_small)
  then show ?thesis
    using y p c by (simp add: t(2) MoveCursor_outs [of "ScrollScreen t"] same [unfolded t(2)] cursor_bytes del: MoveCursor_simps ScrollScreen_simps(4))
qed

text \<open>The arguments a format asks for: a number for every conversion but \<^verbatim>\<open>%s\<close>, which takes a string that fits
  the buffer; \<^verbatim>\<open>%d\<close> cannot print the least \<^verbatim>\<open>int\<close>. Arguments may be left over.\<close>

fun args_fit :: "string \<Rightarrow> karg list \<Rightarrow> bool" where
  "args_fit [] args = True"
| "args_fit (c # str) args =
     (if c = CHR ''%'' then
        (case str of [] \<Rightarrow> True
         | d # rest \<Rightarrow>
             if is_conversion d
             then (case args of [] \<Rightarrow> False
               | ArgInt v # args \<Rightarrow> d \<noteq> CHR ''s'' \<and> (d = CHR ''d'' \<longrightarrow> v \<noteq> 0x80000000) \<and> args_fit rest args
               | ArgStr t # args \<Rightarrow> d = CHR ''s'' \<and> length t < 20 \<and> args_fit rest args)
             else args_fit (d # rest) args)
      else args_fit str args)"

lemma sint_least: "sint (v :: u32) = c_int_min \<longleftrightarrow> v = 0x80000000"
proof -
  have "sint (0x80000000 :: u32) = c_int_min" by (simp add: c_int_defs)
  then show ?thesis by (metis signed_word_eqI)
qed

lemma itoa_buffer_runs: "(\<exists>b. itoa_buffer v base = Inr b) \<longleftrightarrow> \<not> (base = 10 \<and> v = 0x80000000)"
proof -
  have "(\<exists>m. itoa (\<lambda>_. 0) (sint v) 0 base = Inr m) \<longleftrightarrow> \<not> (base = 10 \<and> sint v = c_int_min)"
    using sint_greater_eq [of v]
    by (auto simp: itoa_def Let_def split_beta neg_int_def c_int_defs res_bind_eq_Inr)
  then show ?thesis by (auto simp: itoa_buffer_def res_bind_eq_Inr sint_least)
qed

lemma convert_runs:
  assumes "is_conversion d"
  shows "(\<exists>s'. convert d args s = Inr (args', s')) \<longleftrightarrow> (case args of [] \<Rightarrow> False
    | ArgInt v # rest \<Rightarrow> d \<noteq> CHR ''s'' \<and> (d = CHR ''d'' \<longrightarrow> v \<noteq> 0x80000000) \<and> args' = rest
    | ArgStr t # rest \<Rightarrow> d = CHR ''s'' \<and> length t < 20 \<and> args' = rest)"
  using assms itoa_buffer_runs
  by (auto simp: convert_def is_conversion_def res_bind_eq_Inr split: list.splits karg.splits)

lemma kprintf_loop_runs: "(\<exists>s'. kprintf_loop str args s = Inr s') \<longleftrightarrow> args_fit str args"
proof (induction str args s rule: kprintf_loop.induct)
  case (2 c str args s)
  show ?case
  proof (cases "c = CHR ''%''")
    case pct: True
    show ?thesis
    proof (cases str)
      case (Cons d rest)
      show ?thesis
      proof (cases "is_conversion d")
        case conv: True
        have "(\<exists>s'. kprintf_loop (c # str) args s = Inr s') \<longleftrightarrow>
            (\<exists>args' t. convert d args s = Inr (args', t) \<and> args_fit rest args')"
          using "2.IH"(4) [OF _ _ pct Cons conv] pct Cons conv by (auto simp: res_bind_eq_Inr) (metis+)
        also have "\<dots> \<longleftrightarrow> args_fit (c # str) args"
          using convert_runs [OF conv, of args s] pct Cons conv
          by (auto split: list.splits karg.splits)
        finally show ?thesis .
      next
        case False
        then show ?thesis using "2.IH"(5) [OF _ _ pct Cons False] pct Cons by simp
      qed
    qed (use pct in simp)
  next
    case False
    then show ?thesis using "2.IH"(1,2,6) by auto
  qed
qed simp

text \<open>
  C29. \<open>kprintf\<close> prints whatever its arguments fit, and only that: a missing argument, one of another kind than its
  conversion, a string that overruns the buffer and \<^verbatim>\<open>%d\<close> with the least \<^verbatim>\<open>int\<close> are its only faults. It leaves the
  cursor on the screen, in a column below 80 and a row below 25, and the hardware cursor at that very place.
\<close>
theorem kprintf_prints_what_fits:
  assumes "cursor_x s < 80"
  shows "case kprintf str args s of
      Inl _ \<Rightarrow> \<not> args_fit str args
    | Inr s' \<Rightarrow> args_fit str args \<and> cursor_x s' < 80 \<and> cursor_y s' < 25 \<and>
        (\<exists>es. outs (senv s') = outs (senv s) @ es \<and> vga_cursor es = Some (cursor_pos s') \<and> cursor_pos s' < 2000)"
proof -
  have "(\<exists>s'. kprintf str args s = Inr s') \<longleftrightarrow> args_fit str args"
    using kprintf_loop_runs [of str args s] by (auto simp: kprintf_def res_bind_eq_Inr)
  then show ?thesis
    using kprintf_cursor [OF _ assms, of str args] by (auto split: sum.split)
qed

text \<open>A screen for the witnesses: the cursor in the last columns of the last row.\<close>

definition corner_screen :: screen where
  "corner_screen = \<lparr>cells = (\<lambda>_. 0), cursor_x = 78, cursor_y = 24, attr = 7,
     senv = \<lparr>in_stream = (\<lambda>_ _. 0), in_count = (\<lambda>_. 0), outs = [], klog = []\<rparr>\<rparr>"

theorem kprintf_prints_what_fits_witness:
  "(\<exists>s'. kprintf ''%d: %s\<newline>'' [ArgInt 7, ArgStr ''a''] corner_screen = Inr s' \<and> cursor_y s' < 25) \<and>
    (\<exists>f. kprintf ''%d'' [ArgStr ''a''] corner_screen = Inl f)"
proof -
  have "cursor_x corner_screen < 80" by (simp add: corner_screen_def)
  note prints = kprintf_prints_what_fits [OF this]
  have "args_fit ''%d: %s\<newline>'' [ArgInt 7, ArgStr ''a'']" "\<not> args_fit ''%d'' [ArgStr ''a'']"
    by (simp_all add: is_conversion_def)
  then show ?thesis
    using prints [of "''%d: %s\<newline>''" "[ArgInt 7, ArgStr ''a'']"] prints [of "''%d''" "[ArgStr ''a'']"]
    by (auto split: sum.splits)
qed

section \<open>Printing text\<close>

definition plain :: "char \<Rightarrow> bool" where
  "plain c \<longleftrightarrow> c \<noteq> CHR 0x0A \<and> c \<noteq> CHR 0x09 \<and> c \<noteq> CHR 0x25"

lemma kprintf_loop_plain:
  assumes "list_all plain str" "cursor_x s < 80" "cursor_pos s + length str < 2000"
  shows "\<exists>x y. kprintf_loop str args s = Inr (s\<lparr>cells := (\<lambda>i.
      if cursor_pos s \<le> i \<and> i < cursor_pos s + length str
      then cell_of (of_char (str ! (i - cursor_pos s))) (attr s) else cells s i),
      cursor_x := x, cursor_y := y\<rparr>) \<and> x < 80 \<and>
      unat y * 80 + unat x = cursor_pos s + length str"
  using assms
proof (induction str arbitrary: s)
  case Nil
  then show ?case
    by (rule_tac exI [of _ "cursor_x s"], rule_tac exI [of _ "cursor_y s"])
      (auto simp: cursor_pos_def fun_eq_iff intro!: screen.equality)
next
  case (Cons c str)
  let ?t = "wrap_line (put_char (of_char c) s)"
  have x: "unat (cursor_x s) < 80" using Cons.prems by (simp add: word_less_nat_alt)
  have y: "unat (cursor_y s) < 25" using Cons.prems by (simp add: cursor_pos_def)
  have x1: "unat (cursor_x s + 1) = unat (cursor_x s) + 1"
    using x by (simp add: unat_word_ariths)
  have y1: "unat (cursor_y s + 1) = unat (cursor_y s) + 1"
    using y by (simp add: unat_word_ariths)
  have t: "cursor_pos ?t = cursor_pos s + 1" "attr ?t = attr s"
      "cells ?t = (cells s)(cursor_pos s := cell_of (of_char c) (attr s))"
    using x x1 y1 by (auto simp: wrap_line_def cursor_pos_def word_le_nat_alt not_le)
  obtain x' y' where r: "kprintf_loop str args ?t = Inr (?t\<lparr>cells := (\<lambda>i.
      if cursor_pos ?t \<le> i \<and> i < cursor_pos ?t + length str
      then cell_of (of_char (str ! (i - cursor_pos ?t))) (attr ?t) else cells ?t i),
      cursor_x := x', cursor_y := y'\<rparr>)" "x' < 80" "unat y' * 80 + unat x' = cursor_pos ?t + length str"
    using Cons.IH [of ?t] Cons.prems t wrap_line_cursor_x by auto
  have "?t\<lparr>cells := f, cursor_x := x', cursor_y := y'\<rparr> = s\<lparr>cells := f, cursor_x := x', cursor_y := y'\<rparr>" for f
    by (simp add: wrap_line_def put_char_def set_cell_def Let_def)
  moreover have "(\<lambda>i. if cursor_pos ?t \<le> i \<and> i < cursor_pos ?t + length str
      then cell_of (of_char (str ! (i - cursor_pos ?t))) (attr ?t) else cells ?t i) =
    (\<lambda>i. if cursor_pos s \<le> i \<and> i < cursor_pos s + length (c # str)
      then cell_of (of_char ((c # str) ! (i - cursor_pos s))) (attr s) else cells s i)"
    unfolding t by (rule ext) (auto simp: nth_Cons' le_Suc_eq)
  moreover have "kprintf_loop (c # str) args s = kprintf_loop str args ?t"
    using Cons.prems by (simp add: plain_def)
  ultimately show ?case
    using r t by (rule_tac exI [of _ x'], rule_tac exI [of _ y']) simp
qed

text \<open>
  C28. A text without newlines, tabs and percent signs, that ends before the last cell of the
  screen, is written into the cells from the cursor on in the current attribute, running on from
  row to row; every other cell is kept and the cursor stands behind the text. A character from 128
  on is negative as a \<^verbatim>\<open>char\<close>, so its cell has the attribute \<open>0xFF\<close> instead.
\<close>
theorem kprintf_writes_plain_text:
  assumes "list_all plain str" "cursor_x s < 80" "cursor_pos s + length str < 2000"
  shows "\<exists>s'. kprintf str args s = Inr s' \<and> cursor_pos s' = cursor_pos s + length str \<and>
    attr s' = attr s \<and>
    (\<forall>i. cells s' i = (if cursor_pos s \<le> i \<and> i < cursor_pos s + length str
        then cell_of (of_char (str ! (i - cursor_pos s))) (attr s) else cells s i))"
proof -
  obtain x y where r: "kprintf_loop str args s = Inr (s\<lparr>cells := (\<lambda>i.
      if cursor_pos s \<le> i \<and> i < cursor_pos s + length str
      then cell_of (of_char (str ! (i - cursor_pos s))) (attr s) else cells s i),
      cursor_x := x, cursor_y := y\<rparr>)" "x < 80" "unat y * 80 + unat x = cursor_pos s + length str"
    using kprintf_loop_plain [OF assms, of args] by blast
  have "unat y < 25" using r(3) assms(3) by linarith
  then have "\<not> 25 \<le> y" by (simp add: word_le_nat_alt)
  then show ?thesis
    using r by (simp add: kprintf_def ScrollScreen_def cursor_pos_def)
qed

theorem kprintf_writes_plain_text_witness:
  "\<exists>s'. kprintf ''x'' [] corner_screen = Inr s' \<and> cursor_pos s' = 1999 \<and>
    cells s' 1998 = cell_of 0x78 7"
proof -
  have "list_all plain ''x''" "cursor_x corner_screen < 80" "cursor_pos corner_screen + length ''x'' < 2000"
    by (simp_all add: plain_def corner_screen_def cursor_pos_def)
  from kprintf_writes_plain_text [OF this, of "[]"] show ?thesis
    by (auto simp: corner_screen_def cursor_pos_def of_char_def)
qed

section \<open>The report of a panic\<close>

lemma kprintf_loop_no_percent:
  "CHR 0x25 \<notin> set str \<Longrightarrow> \<exists>s'. kprintf_loop str args s = Inr s'"
  by (induction str arbitrary: s) auto

lemma kprintf_no_percent: "CHR 0x25 \<notin> set str \<Longrightarrow> \<exists>s'. kprintf str args s = Inr s'"
  using kprintf_loop_no_percent [of str args s] by (auto simp: kprintf_def)

lemma kprintf_exception:
  "kprintf ''%s Exception'' [ArgStr t] s = Inl Out_of_bounds \<longleftrightarrow> 20 \<le> length t"
proof (cases "length t < 20")
  case True
  obtain s' where "kprintf_loop '' Exception'' [] (wrap_line (put_buffer (bytes_of t) s)) = Inr s'"
    using kprintf_loop_no_percent [of "'' Exception''" "[]" "wrap_line (put_buffer (bytes_of t) s)"]
    by auto
  with True show ?thesis
    by (simp add: kprintf_def is_conversion_def convert_def)
qed (simp add: kprintf_def is_conversion_def convert_def)

lemma kprintf_exception_fault:
  "(\<exists>s'. kprintf ''%s Exception'' [ArgStr t] s = Inr s') \<or> kprintf ''%s Exception'' [ArgStr t] s = Inl Out_of_bounds"
  using kprintf_loop_no_percent [of "'' Exception''" "[]" "wrap_line (put_buffer (bytes_of t) s)"]
  by (auto simp: kprintf_def is_conversion_def convert_def)

text \<open>The prints before the one that carries the message cannot fail.\<close>

lemma panic_prefix_runs:
  "\<exists>s'. run_calls [Set_color 4,
      Kprintf ''A system error has occured and system has been halted\<newline>'' [],
      Kprintf ''to prevent damage to your computer. Error information:\<newline>'' [], Kprintf fmt args] s =
    kprintf fmt args s'"
proof -
  obtain t where "kprintf ''A system error has occured and system has been halted\<newline>'' [] (SetColor 4 s) = Inr t"
    using kprintf_no_percent by fastforce
  moreover obtain u where "kprintf ''to prevent damage to your computer. Error information:\<newline>'' [] t = Inr u"
    using kprintf_no_percent by fastforce
  ultimately show ?thesis
    by (intro exI [of _ u]) (cases "kprintf fmt args u"; simp)
qed

lemma long_exception_messages:
  "v < 32 \<Longrightarrow> 20 \<le> length (exception_messages ! v) \<longleftrightarrow> v \<in> {2, 4, 9, 13}"
  by (simp add: exception_messages_def less_Suc_eq numeral_eq_Suc) (elim disjE; simp)

abbreviation exception_report :: "nat \<Rightarrow> screen_call list" where
  "exception_report v \<equiv> [Set_color 4,
      Kprintf ''A system error has occured and system has been halted\<newline>'' [],
      Kprintf ''to prevent damage to your computer. Error information:\<newline>'' [],
      Kprintf ''%s Exception'' [ArgStr (exception_messages ! v)]]"

lemma exception_report_runs:
  assumes "v < 32"
  shows "(\<exists>s'. run_calls (exception_report v) s = Inr s') \<longleftrightarrow> v \<notin> {2, 4, 9, 13}"
    "v \<in> {2, 4, 9, 13} \<Longrightarrow> run_calls (exception_report v) s = Inl Out_of_bounds"
proof -
  obtain s' where s': "run_calls (exception_report v) s = kprintf ''%s Exception'' [ArgStr (exception_messages ! v)] s'"
    using panic_prefix_runs by blast
  have fault: "run_calls (exception_report v) s = Inl Out_of_bounds \<longleftrightarrow> v \<in> {2, 4, 9, 13}"
    unfolding s' kprintf_exception using long_exception_messages [OF assms] by simp
  have "(\<exists>s''. run_calls (exception_report v) s = Inr s'') \<longleftrightarrow> run_calls (exception_report v) s \<noteq> Inl Out_of_bounds"
    unfolding s' using kprintf_exception_fault [of "exception_messages ! v" s'] by auto
  then show "(\<exists>s'. run_calls (exception_report v) s = Inr s') \<longleftrightarrow> v \<notin> {2, 4, 9, 13}"
    "v \<in> {2, 4, 9, 13} \<Longrightarrow> run_calls (exception_report v) s = Inl Out_of_bounds"
    using fault by blast+
qed

text \<open>
  C32. The report of an exception, run on the screen, overruns the 20 bytes of \<open>kprintf\<close>'s
  buffer for the vectors 2, 4, 9 and 13, whose messages are 20 characters or longer, and
  prints without a fault for every other vector of the table.
\<close>
theorem exception_report_overruns_buffer:
  assumes "unat (int_no regs) < 32"
  shows "\<exists>e calls. isr_handler run hs regs (env0, st) = Inr (Stopped (e, st)) \<and>
    klog e = klog env0 @ calls \<and>
    ((\<exists>s'. run_calls calls s = Inr s') \<longleftrightarrow> int_no regs \<notin> {2, 4, 9, 13}) \<and>
    (int_no regs \<in> {2, 4, 9, 13} \<longrightarrow> run_calls calls s = Inl Out_of_bounds)"
proof -
  let ?v = "unat (int_no regs)"
  have "length exception_messages = 32" by (simp add: exception_messages_def)
  then have "\<exists>e. isr_handler run hs regs (env0, st) = Inr (Stopped (e, st)) \<and> klog e = klog env0 @ exception_report ?v"
    using assms by (simp add: isr_handler_def kpanic_def kprintf_call_def set_color_call_def Let_def)
  moreover have "int_no regs \<in> {2, 4, 9, 13} \<longleftrightarrow> ?v \<in> {2, 4, 9, 13}"
    by (auto simp: word_unat_eq_iff)
  ultimately show ?thesis using exception_report_runs [OF assms, of s] by metis
qed

text \<open>The general protection fault.\<close>

theorem exception_report_overruns_buffer_witness:
  "\<exists>e calls. isr_handler (\<lambda>h r st. Inr (Running st)) (no_handlers :: unit handlers)
      \<lparr>ds = 16, edi = 0, esi = 0, ebp = 0, useless = 0, ebx = 0, edx = 0, ecx = 0, eax = 0,
       int_no = 13, err_code = 0, eip = 0x100000, cs = 8, eflags = 0x202, esp = 0, ss = 0\<rparr>
      (senv corner_screen, ()) = Inr (Stopped (e, ())) \<and>
    klog e = calls \<and> run_calls calls corner_screen = Inl Out_of_bounds"
  using exception_report_overruns_buffer [of
      "\<lparr>ds = 16, edi = 0, esi = 0, ebp = 0, useless = 0, ebx = 0, edx = 0, ecx = 0, eax = 0,
       int_no = 13, err_code = 0, eip = 0x100000, cs = 8, eflags = 0x202, esp = 0, ss = 0\<rparr>"
      "\<lambda>h r st. Inr (Running st)" "no_handlers :: unit handlers" "senv corner_screen" "()" corner_screen]
  by (auto simp: corner_screen_def)

end
