(* ===== verification/Graphics.thy ===== *)
theory Graphics
  imports Video
begin

text \<open>
  The graphics adaptor, \<^verbatim>\<open>kernel/vbe.c\<close>: its registers, pixels, rectangles and lines. The
  frame buffer at \<^verbatim>\<open>0xFD000000\<close> is part of the byte memory, so a coordinate beyond the screen
  hits whatever address the arithmetic of the code gives. Every store succeeds here: that the page tables map
  the frame buffer is an assumption of this theory and of \<open>Gui\<close>, which the kernel as it boots does not meet
  (\<open>kmain_leaves_frame_buffer_unmapped\<close> of \<open>Kernel\<close>). Coordinates of lines are \<^verbatim>\<open>int\<close> and
  leave their range with a fault.
\<close>

section \<open>The adaptor\<close>

definition VBE_Write :: "u16 \<Rightarrow> u16 \<Rightarrow> env \<Rightarrow> env" where
  "VBE_Write idx val e = outportw 0x01CF val (outportw 0x01CE idx e)"

definition VBE_SetVideoMode :: "u16 \<Rightarrow> u16 \<Rightarrow> u16 \<Rightarrow> env \<Rightarrow> env" where
  "VBE_SetVideoMode width height bpp e =
     (let e = kprintf_call ''Setting Bochs Graphics Adaptor video mode...\<newline>'' [] e;
          e = VBE_Write 4 0x00 e;
          e = VBE_Write 1 width e;
          e = VBE_Write 2 height e;
          e = VBE_Write 3 bpp e;
          e = VBE_Write 4 (0x01 OR 0x40) e
      in e)"

definition vbeBuffer :: u32 where
  "vbeBuffer = 0xFD000000"

text \<open>\<^verbatim>\<open>SCREEN_WIDTH\<close> is 800, \<^verbatim>\<open>SCREEN_HEIGHT\<close> 600.\<close>

definition VBE_DrawPixel :: "u32 \<Rightarrow> u32 \<Rightarrow> u32 \<Rightarrow> mem \<Rightarrow> mem" where
  "VBE_DrawPixel x y rgbColor m = (let pos = y * 800 + x in store32 m (vbeBuffer + 4 * pos) rgbColor)"

function rect_row :: "u32 \<Rightarrow> u32 \<Rightarrow> u32 \<Rightarrow> u32 \<Rightarrow> mem \<Rightarrow> mem" where
  "rect_row tx x2 ty rgbColor m =
     (if tx < x2 then rect_row (tx + 1) x2 ty rgbColor (VBE_DrawPixel tx ty rgbColor m) else m)"
  by pat_completeness auto
termination
  by (relation "measure (\<lambda>(tx, x2, ty, rgbColor, m). unat x2 - unat tx)")
    (auto intro: word_less_Suc_measure)

function rect_rows :: "u32 \<Rightarrow> u32 \<Rightarrow> u32 \<Rightarrow> u32 \<Rightarrow> u32 \<Rightarrow> mem \<Rightarrow> mem" where
  "rect_rows x ty x2 y2 rgbColor m =
     (if ty < y2 then rect_rows x (ty + 1) x2 y2 rgbColor (rect_row x x2 ty rgbColor m) else m)"
  by pat_completeness auto
termination
  by (relation "measure (\<lambda>(x, ty, x2, y2, rgbColor, m). unat y2 - unat ty)")
    (auto intro: word_less_Suc_measure)

declare rect_row.simps [simp del] rect_rows.simps [simp del]

definition VBE_DrawRect :: "u32 \<Rightarrow> u32 \<Rightarrow> u32 \<Rightarrow> u32 \<Rightarrow> u32 \<Rightarrow> mem \<Rightarrow> mem" where
  "VBE_DrawRect x y x2 y2 rgbColor m = rect_rows x y x2 y2 rgbColor m"

section \<open>Lines\<close>

definition c_add :: "int \<Rightarrow> int \<Rightarrow> int res" where
  "c_add a b = (if c_int_ok (a + b) then Inr (a + b) else Inl Signed_overflow)"

definition c_sgn :: "int \<Rightarrow> int" where
  "c_sgn s = (if s > 0 then 1 else if s < 0 then - 1 else 0)"

text \<open>\<open>cnt\<close> is the counter of \<^verbatim>\<open>while(cnt--)\<close>.\<close>

fun line_loop :: "nat \<Rightarrow> int \<times> int \<Rightarrow> int \<times> int \<Rightarrow> int \<Rightarrow> int \<Rightarrow> int \<Rightarrow> int \<Rightarrow> int \<Rightarrow> u32 \<Rightarrow> mem \<Rightarrow> mem res" where
  "line_loop 0 d1 d2 mm n k x y rgbColor m = Inr m"
| "line_loop (Suc cnt) (dx1, dy1) (dx2, dy2) mm n k x y rgbColor m =
     (let m = VBE_DrawPixel (of_int x) (of_int y) rgbColor m
      in res_bind (c_add k n) (\<lambda>k.
        if k < mm
        then res_bind (c_add x dx2) (\<lambda>x. res_bind (c_add y dy2) (\<lambda>y.
          line_loop cnt (dx1, dy1) (dx2, dy2) mm n k x y rgbColor m))
        else res_bind (c_add k (- mm)) (\<lambda>k.
          res_bind (c_add x dx1) (\<lambda>x. res_bind (c_add y dy1) (\<lambda>y.
            line_loop cnt (dx1, dy1) (dx2, dy2) mm n k x y rgbColor m)))))"

text \<open>
  The declarations and the loop. The unsigned differences become \<^verbatim>\<open>int\<close> by two's complement.
\<close>

definition VBE_DrawLine :: "u32 \<Rightarrow> u32 \<Rightarrow> u32 \<Rightarrow> u32 \<Rightarrow> u32 \<Rightarrow> mem \<Rightarrow> mem res" where
  "VBE_DrawLine x1 y1 x2 y2 rgbColor m =
     (let sx = sint (x2 - x1);
          sy = sint (y2 - y1);
          dx1 = c_sgn sx;
          dy1 = c_sgn sy
      in res_bind (abs_c sx) (\<lambda>mm.
         res_bind (abs_c sy) (\<lambda>n.
         let (mm, n, dx2, dy2) = (if mm < n then (n, mm, 0, dy1) else (mm, n, dx1, 0))
         in res_bind (c_add mm 1) (\<lambda>cnt.
           line_loop (nat cnt) (dx1, dy1) (dx2, dy2) mm n 0 (sint x1) (sint y1) rgbColor m))))"

section \<open>Pixels\<close>

definition pixel_at :: "u32 \<Rightarrow> u32 \<Rightarrow> u32" where
  "pixel_at x y = vbeBuffer + 4 * (y * 800 + x)"

lemma VBE_DrawPixel_store: "VBE_DrawPixel x y c m = store32 m (pixel_at x y) c"
  by (simp add: VBE_DrawPixel_def pixel_at_def)

lemma aligned4_pixel: "aligned4 (pixel_at x y)"
proof -
  have "aligned4 vbeBuffer" by (simp add: aligned4_def vbeBuffer_def)
  then show ?thesis unfolding pixel_at_def by (intro aligned4_add aligned4_mult)
qed

lemma unat_pixel_offset:
  assumes "x < 800" "y < 600"
  shows "unat (4 * (y * 800 + x) :: u32) = 4 * (unat y * 800 + unat x)"
proof -
  have "unat x < 800" "unat y < 600" using assms by (simp_all add: word_less_nat_alt)
  then show ?thesis by (simp add: unat_word_ariths)
qed

lemma pixel_at_eq_iff:
  assumes "x < 800" "y < 600" "x' < 800" "y' < 600"
  shows "pixel_at x y = pixel_at x' y' \<longleftrightarrow> x = x' \<and> y = y'"
proof
  assume "pixel_at x y = pixel_at x' y'"
  then have "4 * (y * 800 + x) = (4 * (y' * 800 + x') :: u32)"
    by (simp add: pixel_at_def)
  then have e: "unat y * 800 + unat x = unat y' * 800 + unat x'"
    using unat_pixel_offset [OF assms(1,2)] unat_pixel_offset [OF assms(3,4)] by simp
  have s: "unat x < 800" "unat x' < 800" using assms by (simp_all add: word_less_nat_alt)
  then have "unat y = unat y'"
    using e by (metis div_mult_self3 div_less add.right_neutral zero_neq_numeral)
  then show "x = x' \<and> y = y'" using e by (simp add: word_unat_eq_iff)
qed simp

lemma load_DrawPixel:
  assumes "x < 800" "y < 600" "px < 800" "py < 600"
  shows "load32 (VBE_DrawPixel x y c m) (pixel_at px py) =
    (if px = x \<and> py = y then c else load32 m (pixel_at px py))"
  using pixel_at_eq_iff [OF assms(1,2) assms(3,4)]
  by (auto simp: VBE_DrawPixel_store load32_store32_aligned aligned4_pixel)

lemma DrawPixel_outside:
  assumes "x < 800" "y < 600" "800 * 600 * 4 \<le> unat (a - vbeBuffer)"
  shows "VBE_DrawPixel x y c m a = m a"
  unfolding VBE_DrawPixel_store
proof (rule store32_other)
  let ?o = "4 * (y * 800 + x) :: u32" and ?d = "a - vbeBuffer"
  have "unat x < 800" "unat y < 600" using assms by (simp_all add: word_less_nat_alt)
  then have "4 * (unat y * 800 + unat x) + 4 \<le> 800 * 600 * 4"
    by simp
  then have "unat ?o + 4 \<le> unat ?d"
    unfolding unat_pixel_offset [OF assms(1,2)] by (rule order_trans [OF _ assms(3)])
  then have "4 \<le> unat (?d - ?o)" by (simp add: unat_sub word_le_nat_alt)
  moreover have d: "a - pixel_at x y = ?d - ?o" by (simp add: pixel_at_def)
  ultimately show "\<not> in_range (pixel_at x y) 4 a" by (simp only: in_range_def d not_less)
qed

section \<open>Rectangles\<close>

lemma word_step_iff:
  fixes i n p :: "'a::len word"
  assumes "i < n"
  shows "i \<le> p \<longleftrightarrow> p = i \<or> i + 1 \<le> p"
  using unat_Suc_less [OF assms] by (auto simp: word_le_nat_alt word_unat_eq_iff)

lemma rect_row_spec:
  assumes "x2 \<le> 800" "ty < 600"
  shows "px < 800 \<Longrightarrow> py < 600 \<Longrightarrow> load32 (rect_row tx x2 ty c m) (pixel_at px py) =
      (if tx \<le> px \<and> px < x2 \<and> py = ty then c else load32 m (pixel_at px py))"
    and "800 * 600 * 4 \<le> unat (a - vbeBuffer) \<Longrightarrow> rect_row tx x2 ty c m a = m a"
  using assms
proof (induction tx x2 ty c m rule: rect_row.induct)
  case (1 tx x2 ty c m)
  { case 1
    show ?case
    proof (cases "tx < x2")
      case True
      moreover have "tx < 800" using True 1 by auto
      moreover have "tx \<le> px \<longleftrightarrow> px = tx \<or> tx + 1 \<le> px" by (rule word_step_iff [OF True])
      ultimately show ?thesis
        using 1 "1.IH"(1) [OF True] by (subst rect_row.simps) (auto simp: load_DrawPixel)
    qed (subst rect_row.simps, auto)
  next
    case 2
    show ?case
    proof (cases "tx < x2")
      case True
      moreover have "tx < 800" using True 2 by auto
      ultimately show ?thesis
        using 2 "1.IH"(2) [OF True] by (subst rect_row.simps) (simp add: DrawPixel_outside)
    qed (subst rect_row.simps, simp)
  }
qed

lemma rect_rows_spec:
  assumes "x2 \<le> 800" "y2 \<le> 600"
  shows "px < 800 \<Longrightarrow> py < 600 \<Longrightarrow> load32 (rect_rows x ty x2 y2 c m) (pixel_at px py) =
      (if x \<le> px \<and> px < x2 \<and> ty \<le> py \<and> py < y2 then c else load32 m (pixel_at px py))"
    and "800 * 600 * 4 \<le> unat (a - vbeBuffer) \<Longrightarrow> rect_rows x ty x2 y2 c m a = m a"
  using assms
proof (induction x ty x2 y2 c m rule: rect_rows.induct)
  case (1 x ty x2 y2 c m)
  { case 1
    show ?case
    proof (cases "ty < y2")
      case True
      moreover have "ty < 600" using True 1 by auto
      moreover have "ty \<le> py \<longleftrightarrow> py = ty \<or> ty + 1 \<le> py" by (rule word_step_iff [OF True])
      ultimately show ?thesis
        using 1 "1.IH"(1) [OF True] by (subst rect_rows.simps) (auto simp: rect_row_spec)
    qed (subst rect_rows.simps, auto)
  next
    case 2
    show ?case
    proof (cases "ty < y2")
      case True
      moreover have "ty < 600" using True 2 by auto
      ultimately show ?thesis
        using 2 "1.IH"(2) [OF True] by (subst rect_rows.simps) (simp add: rect_row_spec)
    qed (subst rect_rows.simps, simp)
  }
qed

text \<open>
  A rectangle within the screen, given by its upper left corner and the corner below and to
  the right of its last pixel, is filled: of the pixels of the screen exactly those inside take
  the colour, and no byte outside the frame buffer changes.
\<close>
theorem VBE_DrawRect_fills:
  assumes "x2 \<le> 800" "y2 \<le> 600"
  shows "(\<forall>px py. px < 800 \<and> py < 600 \<longrightarrow>
      load32 (VBE_DrawRect x y x2 y2 c m) (pixel_at px py) =
        (if x \<le> px \<and> px < x2 \<and> y \<le> py \<and> py < y2 then c else load32 m (pixel_at px py))) \<and>
    (\<forall>a. 800 * 600 * 4 \<le> unat (a - vbeBuffer) \<longrightarrow> VBE_DrawRect x y x2 y2 c m a = m a)"
  using rect_rows_spec [OF assms] by (simp add: VBE_DrawRect_def)

theorem VBE_DrawRect_fills_witness:
  "load32 (VBE_DrawRect 160 160 480 380 0xD8D8D8 (\<lambda>_. 0)) (pixel_at 479 379) = 0xD8D8D8 \<and>
   load32 (VBE_DrawRect 160 160 480 380 0xD8D8D8 (\<lambda>_. 0)) (pixel_at 480 379) = 0"
  using VBE_DrawRect_fills [of 480 380 160 160 "0xD8D8D8" "\<lambda>_. 0"] by (simp add: load32_def)

section \<open>Lines in closed form\<close>

text \<open>
  Point \<open>i\<close> of a line: along the longer axis it is \<open>i\<close> steps on, along the shorter one
  \<open>i * n div m\<close>, for \<open>m\<close> the longer and \<open>n\<close> the shorter distance.
\<close>

definition line_point :: "int \<Rightarrow> int \<Rightarrow> int \<Rightarrow> int \<Rightarrow> nat \<Rightarrow> int \<times> int" where
  "line_point x1 y1 sx sy i =
     (let mm = max \<bar>sx\<bar> \<bar>sy\<bar>
      in (x1 + c_sgn sx * (int i * \<bar>sx\<bar> div mm), y1 + c_sgn sy * (int i * \<bar>sy\<bar> div mm)))"

definition plot :: "u32 \<Rightarrow> int \<times> int \<Rightarrow> mem \<Rightarrow> mem" where
  "plot c p m = VBE_DrawPixel (of_int (fst p)) (of_int (snd p)) c m"

definition c_small :: "int \<Rightarrow> bool" where
  "c_small a \<longleftrightarrow> - (2 ^ 28) \<le> a \<and> a < 2 ^ 28"

text \<open>How the quotient moves from one point to the next.\<close>

lemma div_step:
  fixes q n mm :: int
  assumes "0 \<le> n" "n \<le> mm" "0 < mm"
  shows "(q + n) div mm = (if q mod mm + n < mm then q div mm else q div mm + 1)"
    "(q + n) mod mm = (if q mod mm + n < mm then q mod mm + n else q mod mm + n - mm)"
proof -
  have r: "0 \<le> q mod mm" "q mod mm < mm" using assms by simp_all
  have "q + n = mm * (q div mm) + (q mod mm + n)"
    "q + n = mm * (q div mm + 1) + (q mod mm + n - mm)" by (simp_all add: algebra_simps)
  note e = int_div_pos_eq [OF this(1)] int_div_pos_eq [OF this(2)]
    int_mod_pos_eq [OF this(1)] int_mod_pos_eq [OF this(2)]
  show "(q + n) div mm = (if q mod mm + n < mm then q div mm else q div mm + 1)"
    "(q + n) mod mm = (if q mod mm + n < mm then q mod mm + n else q mod mm + n - mm)"
    using assms r e by simp_all
qed

text \<open>
  The loop from point \<open>i\<close> on, for the shorter distance \<open>n\<close> and the longer one \<open>mm\<close>: \<open>(ax, ay)\<close>
  is the step along the longer axis, \<open>(bx, b)\<close> the one along the shorter axis.
\<close>

lemma c_add_ok: "\<bar>a + b\<bar> < 2 ^ 31 \<Longrightarrow> c_add a b = Inr (a + b)"
  by (simp add: c_add_def c_int_defs abs_less_iff)

lemma unit_mult_le:
  fixes a q :: int
  assumes "\<bar>a\<bar> \<le> 1"
  shows "\<bar>q * a\<bar> \<le> \<bar>q\<bar>"
  using mult_left_mono [OF assms, of "\<bar>q\<bar>"] by (simp add: abs_mult)

lemma abs_sum_less:
  fixes x u v :: int
  shows "\<bar>x\<bar> \<le> k \<Longrightarrow> \<bar>u\<bar> \<le> l \<Longrightarrow> \<bar>v\<bar> \<le> l \<Longrightarrow> k + 2 * l < z \<Longrightarrow> \<bar>x + u + v\<bar> < z"
  by linarith

lemma line_coordinate_bound:
  fixes mm n :: int
  assumes "0 \<le> n" "n \<le> mm" "0 < mm" "mm < 2 ^ 29" "\<bar>x1\<bar> \<le> 2 ^ 28" "\<bar>a\<bar> \<le> 1" "\<bar>b\<bar> \<le> 1" "int j \<le> mm + 1"
  shows "\<bar>x1 + int j * a + int j * n div mm * b\<bar> < 2 ^ 31"
proof -
  have "int j * n div mm \<le> int j"
    using zdiv_mono1 [of "int j * n" "int j * mm" mm] assms by (simp add: mult_left_mono)
  moreover have "0 \<le> int j * n div mm" using assms by (simp add: pos_imp_zdiv_nonneg_iff)
  ultimately have "\<bar>int j * n div mm\<bar> \<le> int j" by simp
  moreover have "\<bar>int j\<bar> = int j" "int j \<le> 2 ^ 29" using assms(4,8) by simp_all
  ultimately have "\<bar>int j * a\<bar> \<le> 2 ^ 29" "\<bar>int j * n div mm * b\<bar> \<le> 2 ^ 29"
    using unit_mult_le [OF assms(6), of "int j"] unit_mult_le [OF assms(7), of "int j * n div mm"]
    by linarith+
  then show ?thesis
    by (rule abs_sum_less [OF assms(5)]) simp
qed

lemma line_loop_points:
  fixes mm n :: int
  assumes n: "0 \<le> n" "n \<le> mm" "0 < mm" "mm < 2 ^ 29"
    and steps: "\<bar>ax\<bar> \<le> 1" "\<bar>ay\<bar> \<le> 1" "\<bar>bx\<bar> \<le> 1" "\<bar>b\<bar> \<le> 1"
    and start: "\<bar>x1\<bar> \<le> 2 ^ 28" "\<bar>y1\<bar> \<le> 2 ^ 28" and "int i + int cnt \<le> mm + 1"
  defines "pt j \<equiv> (x1 + int j * ax + int j * n div mm * bx, y1 + int j * ay + int j * n div mm * b)"
  shows "line_loop cnt (ax + bx, ay + b) (ax, ay) mm n (int i * n mod mm) (fst (pt i)) (snd (pt i)) c m =
    Inr (fold (\<lambda>j. plot c (pt j)) [i..<i + cnt] m)"
  using assms(11)
proof (induction cnt arbitrary: i m)
  case (Suc cnt)
  let ?k = "int i * n mod mm"
  have IH: "line_loop cnt (ax + bx, ay + b) (ax, ay) mm n (int (Suc i) * n mod mm) (fst (pt (Suc i)))
      (snd (pt (Suc i))) c (plot c (pt i) m) = Inr (fold (\<lambda>j. plot c (pt j)) [Suc i..<Suc i + cnt] (plot c (pt i) m))"
    using Suc.prems by (intro Suc.IH) simp
  have fold: "fold (\<lambda>j. plot c (pt j)) [i..<i + Suc cnt] m =
      fold (\<lambda>j. plot c (pt j)) [Suc i..<Suc i + cnt] (plot c (pt i) m)"
    using upt_conv_Cons [of i "i + Suc cnt"] by simp
  have e: "int (Suc i) * n = int i * n + n" by (simp add: algebra_simps)
  have k: "0 \<le> ?k" "?k < mm" using n by simp_all
  have kn: "\<bar>?k + n\<bar> < 2 ^ 31" "\<bar>?k + n + - mm\<bar> < 2 ^ 31"
  proof -
    have "0 \<le> ?k + n" "?k + n < 2 * mm" using k n by linarith+
    then show "\<bar>?k + n\<bar> < 2 ^ 31" "\<bar>?k + n + - mm\<bar> < 2 ^ 31"
      using n(3,4) by (simp_all add: abs_less_iff)
  qed
  have j: "int (Suc i) \<le> mm + 1" using Suc.prems by simp
  have b: "\<bar>fst (pt (Suc i))\<bar> < 2 ^ 31" "\<bar>snd (pt (Suc i))\<bar> < 2 ^ 31"
    using line_coordinate_bound [OF n start(1) steps(1,3) j]
      line_coordinate_bound [OF n start(2) steps(2,4) j] by (simp_all add: pt_def)
  show ?case
  proof (cases "?k + n < mm")
    case True
    then have s: "int (Suc i) * n div mm = int i * n div mm" "int (Suc i) * n mod mm = ?k + n"
      unfolding e using div_step [OF n(1-3), of "int i * n"] by simp_all
    have p: "fst (pt i) + ax = fst (pt (Suc i))" "snd (pt i) + ay = snd (pt (Suc i))"
      unfolding pt_def s by (simp_all add: algebra_simps)
    have "c_add ?k n = Inr (?k + n)" by (rule c_add_ok [OF kn(1)])
    moreover have "c_add (fst (pt i)) ax = Inr (fst (pt (Suc i)))" "c_add (snd (pt i)) ay = Inr (snd (pt (Suc i)))"
      using b p by (simp_all add: c_add_ok)
    ultimately show ?thesis
      using True IH unfolding fold s by (simp add: plot_def)
  next
    case False
    then have s: "int (Suc i) * n div mm = int i * n div mm + 1" "int (Suc i) * n mod mm = ?k + n - mm"
      unfolding e using div_step [OF n(1-3), of "int i * n"] by simp_all
    have p: "fst (pt i) + (ax + bx) = fst (pt (Suc i))" "snd (pt i) + (ay + b) = snd (pt (Suc i))"
      unfolding pt_def s by (simp_all add: algebra_simps)
    have "c_add ?k n = Inr (?k + n)" "c_add (?k + n) (- mm) = Inr (?k + n - mm)"
      using c_add_ok [OF kn(1)] c_add_ok [OF kn(2)] by simp_all
    moreover have "c_add (fst (pt i)) (ax + bx) = Inr (fst (pt (Suc i)))"
      "c_add (snd (pt i)) (ay + b) = Inr (snd (pt (Suc i)))"
      using b p by (simp_all add: c_add_ok)
    ultimately show ?thesis
      using False IH unfolding fold s by (simp add: plot_def)
  qed
qed simp

lemma c_sgn_unit: "\<bar>c_sgn s\<bar> \<le> 1"
  by (simp add: c_sgn_def)

lemma abs_c_small: "\<bar>s\<bar> < 2 ^ 31 \<Longrightarrow> abs_c s = Inr \<bar>s\<bar>"
  by (auto simp: abs_c_def neg_int_def c_int_defs)

lemma sint_diff_small:
  fixes a b :: u32
  assumes "c_small (sint a)" "c_small (sint b)"
  shows "sint (a - b) = sint a - sint b"
proof -
  have "sint (a - b) = signed_take_bit 31 (sint a - sint b)"
    by (simp add: sint_word_ariths)
  also have "\<dots> = sint a - sint b"
    using assms by (intro signed_take_bit_int_eq_self) (auto simp: c_small_def)
  finally show ?thesis .
qed

lemma VBE_DrawLine_closed_form:
  assumes "c_small (sint x1)" "c_small (sint y1)" "c_small (sint x2)" "c_small (sint y2)"
  defines "sx \<equiv> sint x2 - sint x1" and "sy \<equiv> sint y2 - sint y1"
  shows "VBE_DrawLine x1 y1 x2 y2 c m =
    Inr (fold (\<lambda>i. plot c (line_point (sint x1) (sint y1) sx sy i)) [0..<nat (max \<bar>sx\<bar> \<bar>sy\<bar>) + 1] m)"
proof -
  have d: "sint (x2 - x1) = sx" "sint (y2 - y1) = sy"
    using assms by (simp_all add: sint_diff_small)
  have b: "\<bar>sx\<bar> < 2 ^ 29" "\<bar>sy\<bar> < 2 ^ 29" "\<bar>sint x1\<bar> \<le> 2 ^ 28" "\<bar>sint y1\<bar> \<le> 2 ^ 28"
    using assms by (auto simp: c_small_def)
  have a: "abs_c sx = Inr \<bar>sx\<bar>" "abs_c sy = Inr \<bar>sy\<bar>"
    using b by (simp_all add: abs_c_small)
  consider "sx = 0 \<and> sy = 0" | "\<bar>sx\<bar> < \<bar>sy\<bar>" | "\<bar>sy\<bar> \<le> \<bar>sx\<bar>" "sx \<noteq> 0" by linarith
  then show ?thesis
  proof cases
    case 1
    have "\<bar>sint x1\<bar> < 2 ^ 31" "\<bar>sint y1\<bar> < 2 ^ 31" using b by auto
    then have "c_add (sint x1) 0 = Inr (sint x1)" "c_add (sint y1) 0 = Inr (sint y1)"
      using c_add_ok [of "sint x1" 0] c_add_ok [of "sint y1" 0] by simp_all
    with 1 show ?thesis
      using a by (simp add: VBE_DrawLine_def d c_add_def c_int_defs c_sgn_def line_point_def plot_def)
  next
    case 2
    let ?p = "line_point (sint x1) (sint y1) sx sy"
    have p: "?p = (\<lambda>i. (sint x1 + int i * 0 + int i * \<bar>sx\<bar> div \<bar>sy\<bar> * c_sgn sx,
        sint y1 + int i * c_sgn sy + int i * \<bar>sx\<bar> div \<bar>sy\<bar> * 0))"
      using 2 by (simp add: line_point_def max_absorb2 fun_eq_iff)
    have cnt: "c_add \<bar>sy\<bar> 1 = Inr (\<bar>sy\<bar> + 1)" "nat (\<bar>sy\<bar> + 1) = nat \<bar>sy\<bar> + 1" "max \<bar>sx\<bar> \<bar>sy\<bar> = \<bar>sy\<bar>"
      using 2 b by (simp_all add: c_add_ok)
    have "line_loop (nat \<bar>sy\<bar> + 1) (0 + c_sgn sx, c_sgn sy + 0) (0, c_sgn sy) \<bar>sy\<bar> \<bar>sx\<bar> (int 0 * \<bar>sx\<bar> mod \<bar>sy\<bar>)
        (fst (?p 0)) (snd (?p 0)) c m = Inr (fold (\<lambda>i. plot c (?p i)) [0..<0 + (nat \<bar>sy\<bar> + 1)] m)"
      unfolding p by (rule line_loop_points [OF _ _ _ b(2) _ c_sgn_unit c_sgn_unit _ b(3,4)]) (use 2 in simp_all)
    then have loop: "line_loop (nat \<bar>sy\<bar> + 1) (c_sgn sx, c_sgn sy) (0, c_sgn sy) \<bar>sy\<bar> \<bar>sx\<bar> 0
        (sint x1) (sint y1) c m = Inr (fold (\<lambda>i. plot c (?p i)) [0..<nat \<bar>sy\<bar> + 1] m)"
      by (simp add: line_point_def del: line_loop.simps upt_Suc)
    show ?thesis
      unfolding VBE_DrawLine_def d a Let_def cnt(3) using 2
      by (simp add: cnt loop del: line_loop.simps upt_Suc Suc_eq_plus1 add_Suc_right One_nat_def)
  next
    case 3
    let ?p = "line_point (sint x1) (sint y1) sx sy"
    have p: "?p = (\<lambda>i. (sint x1 + int i * c_sgn sx + int i * \<bar>sy\<bar> div \<bar>sx\<bar> * 0,
        sint y1 + int i * 0 + int i * \<bar>sy\<bar> div \<bar>sx\<bar> * c_sgn sy))"
      using 3 by (simp add: line_point_def max_absorb1 fun_eq_iff)
    have cnt: "c_add \<bar>sx\<bar> 1 = Inr (\<bar>sx\<bar> + 1)" "nat (\<bar>sx\<bar> + 1) = nat \<bar>sx\<bar> + 1" "max \<bar>sx\<bar> \<bar>sy\<bar> = \<bar>sx\<bar>"
      using 3 b by (simp_all add: c_add_ok)
    have "line_loop (nat \<bar>sx\<bar> + 1) (c_sgn sx + 0, 0 + c_sgn sy) (c_sgn sx, 0) \<bar>sx\<bar> \<bar>sy\<bar> (int 0 * \<bar>sy\<bar> mod \<bar>sx\<bar>)
        (fst (?p 0)) (snd (?p 0)) c m = Inr (fold (\<lambda>i. plot c (?p i)) [0..<0 + (nat \<bar>sx\<bar> + 1)] m)"
      unfolding p by (rule line_loop_points [OF _ _ _ b(1) c_sgn_unit _ _ c_sgn_unit b(3,4)]) (use 3 in simp_all)
    then have loop: "line_loop (nat \<bar>sx\<bar> + 1) (c_sgn sx, c_sgn sy) (c_sgn sx, 0) \<bar>sx\<bar> \<bar>sy\<bar> 0
        (sint x1) (sint y1) c m = Inr (fold (\<lambda>i. plot c (?p i)) [0..<nat \<bar>sx\<bar> + 1] m)"
      by (simp add: line_point_def del: line_loop.simps upt_Suc)
    show ?thesis
      unfolding VBE_DrawLine_def d a Let_def cnt(3) using 3
      by (simp add: cnt loop del: line_loop.simps upt_Suc Suc_eq_plus1 add_Suc_right One_nat_def)
  qed
qed

lemma line_point_ends:
  "line_point x1 y1 sx sy 0 = (x1, y1)"
  "line_point x1 y1 sx sy (nat (max \<bar>sx\<bar> \<bar>sy\<bar>)) = (x1 + sx, y1 + sy)"
proof -
  have s: "c_sgn z * \<bar>z\<bar> = z" for z by (simp add: c_sgn_def)
  have "int (nat (max \<bar>sx\<bar> \<bar>sy\<bar>)) = max \<bar>sx\<bar> \<bar>sy\<bar>" by (simp add: le_max_iff_disj)
  then show "line_point x1 y1 sx sy (nat (max \<bar>sx\<bar> \<bar>sy\<bar>)) = (x1 + sx, y1 + sy)"
    unfolding line_point_def Let_def by (cases "max \<bar>sx\<bar> \<bar>sy\<bar> = 0") (simp_all add: s)
qed (simp add: line_point_def)

text \<open>
  C17. A line between any two points whose coordinates, read as \<^verbatim>\<open>int\<close>, lie within 28 bits
  never overflows. With \<open>m\<close> the longer of the two distances it plots \<open>m + 1\<close> points: point \<open>i\<close> is
  \<open>i\<close> steps along the longer axis and \<open>i * n div m\<close> along the shorter one, rounded towards the
  start; the first is the start and the last is the end point.
\<close>
theorem VBE_DrawLine_plots_points:
  assumes "c_small (sint x1)" "c_small (sint y1)" "c_small (sint x2)" "c_small (sint y2)"
  shows "\<exists>ps mm. mm = nat (max \<bar>sint x2 - sint x1\<bar> \<bar>sint y2 - sint y1\<bar>) \<and>
    VBE_DrawLine x1 y1 x2 y2 c m = Inr (fold (plot c) ps m) \<and>
    ps = map (line_point (sint x1) (sint y1) (sint x2 - sint x1) (sint y2 - sint y1)) [0..<mm + 1] \<and>
    hd ps = (sint x1, sint y1) \<and> last ps = (sint x2, sint y2)"
proof -
  let ?p = "line_point (sint x1) (sint y1) (sint x2 - sint x1) (sint y2 - sint y1)"
  let ?m = "nat (max \<bar>sint x2 - sint x1\<bar> \<bar>sint y2 - sint y1\<bar>)"
  have "hd (map ?p [0..<?m + 1]) = (sint x1, sint y1)"
    by (simp add: hd_map line_point_ends(1) del: upt_Suc)
  moreover have "last (map ?p [0..<?m + 1]) = (sint x2, sint y2)"
    by (simp add: last_map line_point_ends(2))
  ultimately show ?thesis
    using VBE_DrawLine_closed_form [OF assms, of c m]
    by (intro exI [of _ "map ?p [0..<?m + 1]"] exI [of _ ?m]) (simp add: fold_map comp_def del: upt_Suc)
qed

text \<open>A line of slope one half: its second point is rounded down.\<close>

theorem VBE_DrawLine_plots_points_witness:
  "VBE_DrawLine 10 10 14 12 7 (\<lambda>_. 0) =
    Inr (fold (plot 7) [(10, 10), (11, 10), (12, 11), (13, 11), (14, 12)] (\<lambda>_. 0))"
  using VBE_DrawLine_plots_points [of 10 10 14 12 7 "\<lambda>_. 0"]
  by (simp add: c_small_def line_point_def c_sgn_def upt_rec)

section \<open>The video mode\<close>

text \<open>
  The register file of the adaptor, from its documentation: port \<open>0x1CE\<close> selects a register,
  port \<open>0x1CF\<close> writes it, and the resolution and depth (registers 1 to 3) can only be written
  while bit 0 of the enable register 4 is clear.
\<close>

fun bga_after :: "io_event list \<Rightarrow> u16 \<times> (u16 \<Rightarrow> u16) \<Rightarrow> u16 \<times> (u16 \<Rightarrow> u16)" where
  "bga_after [] st = st"
| "bga_after (OutB p d # es) st = bga_after es st"
| "bga_after (OutW p v # es) (sel, regs) = bga_after es
     (if p = 0x1CE then (v, regs)
      else if p = 0x1CF \<and> \<not> (sel \<in> {1, 2, 3} \<and> bit (regs 4) 0) then (sel, regs(sel := v))
      else (sel, regs))"

text \<open>
  Whatever mode the adaptor was in, \<open>VBE_SetVideoMode\<close> leaves it with the width, height and
  depth asked for, enabled, with the linear frame buffer on.
\<close>
theorem VBE_SetVideoMode_programs_adaptor:
  "\<exists>es sel' regs'. outs (VBE_SetVideoMode width height bpp e) = outs e @ es \<and>
    bga_after es (sel, regs) = (sel', regs') \<and>
    regs' 1 = width \<and> regs' 2 = height \<and> regs' 3 = bpp \<and> bit (regs' 4) 0 \<and> bit (regs' 4) 6"
proof -
  have b: "bit (0x41 :: u16) 0" "bit (0x41 :: u16) 6" by simp_all
  show ?thesis by (simp add: VBE_SetVideoMode_def VBE_Write_def Let_def b)
qed

end
