(* ===== verification/Gui.thy ===== *)
theory Gui
  imports Graphics
begin

text \<open>
  The window system, \<^verbatim>\<open>kernel/gui.c\<close>: the table of windows and the drawing of a frame. The
  table is the C array of 100 windows, and an index beyond it is a fault. The endless loop of
  \<^verbatim>\<open>GUI_Init\<close> is its body \<open>GUI_frame\<close>. The frame buffer is memory that can be stored to, and the table of
  windows is kept apart from it; windows that lie on the screen are drawn inside the frame buffer,
  so for them the two do not touch. The picture of a frame is specified as layers of points with colours.
\<close>

section \<open>Windows\<close>

text \<open>The title is never stored and is left out.\<close>

record window_t =
  win_x :: u16
  win_y :: u16
  win_w :: u16
  win_h :: u16
  win_id :: u16
  active :: bool

record gui =
  window :: "window_t list"
  next_id :: int
  fb :: mem
  genv :: env

abbreviation max_windows :: nat where
  "max_windows \<equiv> 100"

definition null_window :: window_t where
  "null_window = \<lparr>win_x = 0, win_y = 0, win_w = 0, win_h = 0, win_id = 0, active = False\<rparr>"

text \<open>The globals as they start: \<^verbatim>\<open>window\<close> is zero, the static \<^verbatim>\<open>id\<close> is 1.\<close>

definition gui_start :: "mem \<Rightarrow> env \<Rightarrow> gui" where
  "gui_start m e = \<lparr>window = replicate max_windows null_window, next_id = 1, fb = m, genv = e\<rparr>"

fun free_window_from :: "nat \<Rightarrow> window_t list \<Rightarrow> nat" where
  "free_window_from i [] = i"
| "free_window_from i (w # ws) = (if win_id w = 0 then i else free_window_from (Suc i) ws)"

definition GUI_CreateWindow :: "int \<Rightarrow> int \<Rightarrow> int \<Rightarrow> int \<Rightarrow> gui \<Rightarrow> (int \<times> gui) res" where
  "GUI_CreateWindow x y w h g =
     (let i = free_window_from 0 (window g)
      in if i < length (window g)
         then
           let ws = (window g)[i := (window g ! i)\<lparr>win_id := of_int (next_id g), win_x := of_int x,
                       win_y := of_int y, win_w := of_int w, win_h := of_int h\<rparr>];
               ws = map (\<lambda>v. v\<lparr>active := False\<rparr>) ws;
               ws = ws[i := (ws ! i)\<lparr>active := True\<rparr>]
           in res_bind (c_add (next_id g) 1) (\<lambda>id.
             Inr (next_id g, g\<lparr>window := ws, next_id := id\<rparr>))
         else Inl Out_of_bounds)"

definition GUI_DrawDesktop :: "mem \<Rightarrow> mem" where
  "GUI_DrawDesktop m = VBE_DrawRect 0 0 800 600 0x5C788C m"

definition GUI_DrawTaskBar :: "mem \<Rightarrow> mem" where
  "GUI_DrawTaskBar m = VBE_DrawRect 0 0 800 25 0xBDBDBD m"

text \<open>The body of the loop for a window in use. A \<^verbatim>\<open>uint16_t\<close> widens to \<^verbatim>\<open>int\<close>.\<close>

definition draw_window :: "window_t \<Rightarrow> mem \<Rightarrow> mem res" where
  "draw_window win m =
     (let x = ucast (win_x win) :: u32;
          y = ucast (win_y win) :: u32;
          w = ucast (win_w win) :: u32;
          h = ucast (win_h win) :: u32;
          m = VBE_DrawRect x y w h 0xD8D8D8 m;
          m = VBE_DrawRect x y w (y + 22) (if active win then 0x004C5D else 0xBBC2C2) m
      in res_bind (VBE_DrawLine x (y + 22) x h 0xC4C5C5 m) (\<lambda>m.
         res_bind (VBE_DrawLine (w - 1) (y + 22) (w - 1) h 0xC4C5C5 m) (\<lambda>m.
         VBE_DrawLine x h (w - 1) h 0xC4C5C5 m)))"

fun GUI_DrawWindows :: "window_t list \<Rightarrow> mem \<Rightarrow> mem res" where
  "GUI_DrawWindows [] m = Inr m"
| "GUI_DrawWindows (w # ws) m =
     (if win_id w \<noteq> 0 then res_bind (draw_window w m) (GUI_DrawWindows ws) else GUI_DrawWindows ws m)"

text \<open>The lines of the literal are joined by a space before and five after each line splice.\<close>

definition mouse_t :: string where
  "mouse_t =
     ''##00000000\<newline>      '' @ ''#1#0000000\<newline>      '' @ ''#11#000000\<newline>      '' @
     ''#111#00000\<newline>      '' @ ''#1111#0000\<newline>      '' @ ''#11111#000\<newline>      '' @
     ''#111111#00\<newline>      '' @ ''#1111111#0\<newline>      '' @ ''#11111111#\<newline>      '' @
     ''#11111####\<newline>      '' @ ''#11#11#000\<newline>      '' @ ''#1#0#11#00\<newline>      '' @
     ''##00#11#00\<newline>      '' @ ''00000#11#0\<newline>      '' @ ''00000#11#0\<newline>      '' @
     ''000000##00\<newline>''"

fun draw_mouse_from :: "string \<Rightarrow> u32 \<Rightarrow> u32 \<Rightarrow> mem \<Rightarrow> mem" where
  "draw_mouse_from [] x y m = m"
| "draw_mouse_from (c # str) x y m =
     (if c = CHR ''1'' then draw_mouse_from str (x + 1) y (VBE_DrawPixel (x + 80) (y + 80) 0x000000 m)
      else if c = CHR ''#'' then draw_mouse_from str (x + 1) y (VBE_DrawPixel (x + 80) (y + 80) 0xFFFFFF m)
      else if c = CHR ''0'' then draw_mouse_from str (x + 1) y m
      else if c = CHR ''\<newline>'' then draw_mouse_from str 1 (y + 1) m
      else draw_mouse_from str x y m)"

definition GUI_DrawMouse :: "mem \<Rightarrow> mem" where
  "GUI_DrawMouse m = draw_mouse_from mouse_t 1 1 m"

text \<open>One turn of the endless loop of \<^verbatim>\<open>GUI_Init\<close>, and what comes before the loop.\<close>

definition GUI_frame :: "gui \<Rightarrow> gui res" where
  "GUI_frame g =
     (let m = GUI_DrawTaskBar (GUI_DrawDesktop (fb g))
      in res_bind (GUI_DrawWindows (window g) m) (\<lambda>m. Inr (g\<lparr>fb := GUI_DrawMouse m\<rparr>)))"

definition GUI_Init :: "gui \<Rightarrow> gui res" where
  "GUI_Init g =
     (let g = g\<lparr>genv := VBE_SetVideoMode 800 600 32 (genv g)\<rparr>;
          g = g\<lparr>window := map (\<lambda>w. w\<lparr>win_id := 0\<rparr>) (window g)\<rparr>
      in res_bind (GUI_CreateWindow 160 160 480 380 g) (\<lambda>(i, g).
         res_bind (GUI_CreateWindow 200 200 520 420 g) (\<lambda>(i, g). Inr g)))"

section \<open>The table of windows\<close>

lemma free_window_from_takeWhile:
  "free_window_from k ws = k + length (takeWhile (\<lambda>w. win_id w \<noteq> 0) ws)"
  by (induction ws arbitrary: k) auto

text \<open>The table after \<open>n\<close> windows were made: they have the ids \<open>1..n\<close> and the last is active.\<close>

definition gui_wf :: "nat \<Rightarrow> gui \<Rightarrow> bool" where
  "gui_wf n g \<longleftrightarrow> length (window g) = max_windows \<and> n \<le> max_windows \<and> next_id g = int n + 1 \<and>
     (\<forall>i<max_windows. win_id (window g ! i) = (if i < n then of_nat (i + 1) else 0) \<and>
        (active (window g ! i) \<longleftrightarrow> Suc i = n))"

definition geometry :: "window_t \<Rightarrow> u16 \<times> u16 \<times> u16 \<times> u16" where
  "geometry w = (win_x w, win_y w, win_w w, win_h w)"

lemma gui_wf_start: "gui_wf 0 (gui_start m e)"
  by (simp add: gui_wf_def gui_start_def null_window_def)

lemma gui_wf_free:
  assumes "gui_wf n g"
  shows "free_window_from 0 (window g) = n"
proof -
  let ?P = "\<lambda>w. win_id w \<noteq> 0"
  have len: "length (window g) = 100" "n \<le> 100" using assms by (simp_all add: gui_wf_def)
  have id: "?P (window g ! i) \<longleftrightarrow> i < n" if "i < 100" for i
  proof -
    have "unat (of_nat (i + 1) :: u16) = i + 1" by (rule unat_of_nat_small) (use that in simp)
    then have "(of_nat (i + 1) :: u16) \<noteq> 0" by (metis unat_0 Suc_eq_plus1 nat.distinct(1))
    then show ?thesis using assms that unfolding gui_wf_def by (auto simp del: of_nat_add)
  qed
  have "takeWhile ?P (window g) = take n (window g)"
  proof (cases "n < length (window g)")
    case True
    then show ?thesis
      using takeWhile_eq_take_P_nth [of n "window g" ?P] id len by simp
  next
    case False
    then have "\<forall>w \<in> set (window g). ?P w" using id len by (auto simp: in_set_conv_nth)
    then show ?thesis using False by (simp add: takeWhile_eq_all_conv [THEN iffD2])
  qed
  then show ?thesis using len by (simp add: free_window_from_takeWhile)
qed

lemma GUI_CreateWindow_wf:
  assumes "gui_wf n g" "n < max_windows"
  shows "\<exists>g'. GUI_CreateWindow x y w h g = Inr (int n + 1, g') \<and> gui_wf (Suc n) g' \<and>
    (\<forall>i<max_windows. geometry (window g' ! i) =
      (if i = n then (of_int x, of_int y, of_int w, of_int h) else geometry (window g ! i)))"
proof -
  have len: "length (window g) = 100" "next_id g = int n + 1" using assms by (simp_all add: gui_wf_def)
  have "c_add (int n + 1) 1 = Inr (int n + 2)" using assms(2) by (simp add: c_add_def c_int_defs)
  then show ?thesis
    using assms len
    by (simp add: GUI_CreateWindow_def gui_wf_free [OF assms(1)] gui_wf_def geometry_def Let_def nth_list_update
        add.commute [of 1] less_Suc_eq)
qed

fun create_all :: "(int \<times> int \<times> int \<times> int) list \<Rightarrow> gui \<Rightarrow> gui res" where
  "create_all [] g = Inr g"
| "create_all ((x, y, w, h) # rs) g = res_bind (GUI_CreateWindow x y w h g) (\<lambda>(i, g). create_all rs g)"

fun words_of :: "int \<times> int \<times> int \<times> int \<Rightarrow> u16 \<times> u16 \<times> u16 \<times> u16" where
  "words_of (x, y, w, h) = (of_int x, of_int y, of_int w, of_int h)"

lemma create_all_wf:
  assumes "gui_wf n g"
  shows "if n + length rs \<le> max_windows
    then \<exists>g'. create_all rs g = Inr g' \<and> gui_wf (n + length rs) g' \<and>
      (\<forall>i<max_windows. geometry (window g' ! i) =
        (if n \<le> i \<and> i < n + length rs then words_of (rs ! (i - n)) else geometry (window g ! i)))
    else create_all rs g = Inl Out_of_bounds"
  using assms
proof (induction rs arbitrary: n g)
  case Nil
  then show ?case by (auto simp: gui_wf_def)
next
  case (Cons r rs)
  obtain x y w h where r: "r = (x, y, w, h)" by (cases r) auto
  show ?case
  proof (cases "n < max_windows")
    case True
    obtain g' where g': "GUI_CreateWindow x y w h g = Inr (int n + 1, g')" "gui_wf (Suc n) g'"
      "\<forall>i<max_windows. geometry (window g' ! i) =
        (if i = n then (of_int x, of_int y, of_int w, of_int h) else geometry (window g ! i))"
      using GUI_CreateWindow_wf [OF Cons.prems True, of x y w h] by blast
    have all: "create_all (r # rs) g = create_all rs g'" using g'(1) by (simp add: r)
    show ?thesis
    proof (cases "Suc n + length rs \<le> max_windows")
      case True
      then obtain g'' where g'': "create_all rs g' = Inr g''" "gui_wf (Suc n + length rs) g''"
        "\<forall>i<max_windows. geometry (window g'' ! i) =
          (if Suc n \<le> i \<and> i < Suc n + length rs then words_of (rs ! (i - Suc n)) else geometry (window g' ! i))"
        using Cons.IH [OF g'(2)] by auto
      have "geometry (window g'' ! i) =
        (if n \<le> i \<and> i < n + length (r # rs) then words_of ((r # rs) ! (i - n)) else geometry (window g ! i))"
        if "i < max_windows" for i
        using g''(3) g'(3) that by (cases "i = n") (auto simp: r nth_Cons')
      then show ?thesis using True g'' all by simp
    next
      case False
      then show ?thesis using Cons.IH [OF g'(2)] all by simp
    qed
  next
    case False
    then have "length (window g) = n" using Cons.prems by (simp add: gui_wf_def)
    then show ?thesis
      using False gui_wf_free [OF Cons.prems] by (simp add: r GUI_CreateWindow_def Let_def)
  qed
qed

text \<open>
  C39. Up to 100 windows can be created: the \<open>i\<close>-th gets the id \<open>i\<close> and its place and size cut to
  16 bits, and exactly the last one is active. The 101st is written behind the table.
\<close>
theorem GUI_CreateWindow_fills_table:
  "(length rs \<le> 100 \<longrightarrow> (\<exists>g. create_all rs (gui_start m e) = Inr g \<and>
      map win_id (window g) = map of_nat [1..<length rs + 1] @ replicate (100 - length rs) 0 \<and>
      (\<forall>i<100. active (window g ! i) \<longleftrightarrow> i + 1 = length rs) \<and>
      (\<forall>i<length rs. geometry (window g ! i) = words_of (rs ! i)))) \<and>
   (100 < length rs \<longrightarrow> create_all rs (gui_start m e) = Inl Out_of_bounds)"
proof -
  note all = create_all_wf [OF gui_wf_start, of rs m e]
  show ?thesis
  proof (intro conjI impI)
    assume "length rs \<le> 100"
    then obtain g where g: "create_all rs (gui_start m e) = Inr g" "gui_wf (length rs) g"
      "\<forall>i<length rs. geometry (window g ! i) = words_of (rs ! i)"
      using all by auto
    have "map win_id (window g) = map of_nat [1..<length rs + 1] @ replicate (100 - length rs) 0"
      using g(2) by (intro nth_equalityI) (auto simp: gui_wf_def nth_append add.commute simp del: upt_Suc)
    then show "\<exists>g. create_all rs (gui_start m e) = Inr g \<and>
      map win_id (window g) = map of_nat [1..<length rs + 1] @ replicate (100 - length rs) 0 \<and>
      (\<forall>i<100. active (window g ! i) \<longleftrightarrow> i + 1 = length rs) \<and>
      (\<forall>i<length rs. geometry (window g ! i) = words_of (rs ! i))"
      using g by (auto simp: gui_wf_def)
  next
    assume "100 < length rs"
    then show "create_all rs (gui_start m e) = Inl Out_of_bounds"
      using all by simp
  qed
qed

theorem GUI_CreateWindow_fills_table_witness:
  "(\<exists>g. create_all [(160, 160, 480, 380), (200, 200, 520, 420)] (gui_start (\<lambda>_. 0) (senv corner_screen)) = Inr g \<and>
      (\<forall>i<100. active (window g ! i) \<longleftrightarrow> i + 1 = 2)) \<and>
   create_all (replicate 101 (0, 0, 0, 0)) (gui_start (\<lambda>_. 0) (senv corner_screen)) = Inl Out_of_bounds"
proof
  let ?rs = "[(160, 160, 480, 380), (200, 200, 520, 420)] :: (int \<times> int \<times> int \<times> int) list"
  have n: "length ?rs = 2" by simp
  have le: "2 \<le> (100 :: nat)" by simp
  note all = GUI_CreateWindow_fills_table [of ?rs "\<lambda>_. 0" "senv corner_screen", unfolded n,
      THEN conjunct1, THEN mp, OF le]
  then obtain g where "create_all ?rs (gui_start (\<lambda>_. 0) (senv corner_screen)) = Inr g"
    "\<forall>i<100. active (window g ! i) \<longleftrightarrow> i + 1 = 2"
    by (elim conjE exE) (rule that)
  then show "\<exists>g. create_all ?rs (gui_start (\<lambda>_. 0) (senv corner_screen)) = Inr g \<and>
      (\<forall>i<100. active (window g ! i) \<longleftrightarrow> i + 1 = 2)"
    by (intro exI [of _ g] conjI)
  show "create_all (replicate 101 (0, 0, 0, 0)) (gui_start (\<lambda>_. 0) (senv corner_screen)) = Inl Out_of_bounds"
    using GUI_CreateWindow_fills_table [of "replicate 101 (0, 0, 0, 0)"] by simp
qed

section \<open>Pictures\<close>

text \<open>
  A layer is a partial map from the points of the screen to colours; \<open>L ++ K\<close> lays \<open>K\<close> on top of
  \<open>L\<close>. A routine draws a layer when it gives the points of the layer their colour, keeps every
  other point of the screen, and writes no byte outside the frame buffer.
\<close>

type_synonym layer = "nat \<times> nat \<Rightarrow> u32 option"

definition pixel :: "mem \<Rightarrow> nat \<times> nat \<Rightarrow> u32" where
  "pixel m = (\<lambda>(px, py). load32 m (pixel_at (of_nat px) (of_nat py)))"

definition on_screen :: "nat \<times> nat \<Rightarrow> bool" where
  "on_screen = (\<lambda>(px, py). px < 800 \<and> py < 600)"

definition draws :: "layer \<Rightarrow> (mem \<Rightarrow> mem) \<Rightarrow> bool" where
  "draws L f \<longleftrightarrow> (\<forall>m. (\<forall>p. on_screen p \<longrightarrow> pixel (f m) p = (case L p of None \<Rightarrow> pixel m p | Some c \<Rightarrow> c)) \<and>
     (\<forall>a. 800 * 600 * 4 \<le> unat (a - vbeBuffer) \<longrightarrow> f m a = m a))"

lemma draws_nothing: "draws Map.empty (\<lambda>m. m)"
  by (simp add: draws_def)

lemma draws_comp:
  assumes "draws L f" "draws K g"
  shows "draws (L ++ K) (\<lambda>m. g (f m))"
  using assms by (simp add: draws_def map_add_def split: option.split)

lemma draws_cong:
  assumes "draws L f" "\<And>p. on_screen p \<Longrightarrow> L p = K p"
  shows "draws K f"
  using assms by (simp add: draws_def)

lemma screen_word:
  assumes "x < 800" "y < 600"
  shows "(of_nat x :: u32) < 800" "(of_nat y :: u32) < 600" "unat (of_nat x :: u32) = x" "unat (of_nat y :: u32) = y"
proof -
  show "unat (of_nat x :: u32) = x" "unat (of_nat y :: u32) = y"
    using assms by (simp_all add: unat_of_nat_small)
  then show "(of_nat x :: u32) < 800" "(of_nat y :: u32) < 600"
    using assms by (simp_all add: word_less_nat_alt)
qed

lemma draws_pixel:
  assumes "x < 800" "y < 600"
  shows "draws [(x, y) \<mapsto> c] (VBE_DrawPixel (of_nat x) (of_nat y) c)"
proof -
  have eq: "(of_nat px = (of_nat x :: u32) \<and> of_nat py = (of_nat y :: u32)) = (px = x \<and> py = y)"
    if "px < 800" "py < 600" for px py
    using screen_word [OF assms] screen_word [OF that] by metis
  have "pixel (VBE_DrawPixel (of_nat x) (of_nat y) c m) p =
      (case [(x, y) \<mapsto> c] p of None \<Rightarrow> pixel m p | Some c \<Rightarrow> c)" if s: "on_screen p" for m p
  proof (cases p)
    case (Pair px py)
    then have b: "px < 800" "py < 600" using s by (simp_all add: on_screen_def)
    show ?thesis
      using load_DrawPixel [OF screen_word(1,2) [OF assms] screen_word(1,2) [OF b], of c m] eq [OF b]
      by (simp add: pixel_def Pair)
  qed
  then show ?thesis
    using DrawPixel_outside [OF screen_word(1,2) [OF assms]] by (simp add: draws_def)
qed

text \<open>Rectangles: the corner \<open>(x2, y2)\<close> is the first point outside.\<close>

definition rect_layer :: "nat \<Rightarrow> nat \<Rightarrow> nat \<Rightarrow> nat \<Rightarrow> u32 \<Rightarrow> layer" where
  "rect_layer x y x2 y2 c = (\<lambda>(px, py). if x \<le> px \<and> px < x2 \<and> y \<le> py \<and> py < y2 then Some c else None)"

lemma draws_rect:
  assumes "unat x2 \<le> 800" "unat y2 \<le> 600"
  shows "draws (rect_layer (unat x) (unat y) (unat x2) (unat y2) c) (VBE_DrawRect x y x2 y2 c)"
proof -
  have w: "x2 \<le> 800" "y2 \<le> 600" using assms by (simp_all add: word_le_nat_alt)
  have "pixel (VBE_DrawRect x y x2 y2 c m) p =
      (case rect_layer (unat x) (unat y) (unat x2) (unat y2) c p of None \<Rightarrow> pixel m p | Some c \<Rightarrow> c)"
    if s: "on_screen p" for m p
  proof (cases p)
    case (Pair px py)
    then have b: "px < 800" "py < 600" using s by (simp_all add: on_screen_def)
    note v = screen_word [OF b]
    show ?thesis
      using rect_rows_spec(1) [OF w v(1,2), of x y c m] v(3,4)
      by (simp add: pixel_def Pair rect_layer_def VBE_DrawRect_def word_le_nat_alt word_less_nat_alt)
  qed
  then show ?thesis
    using rect_rows_spec(2) [OF w] by (simp add: draws_def VBE_DrawRect_def)
qed

lemma draws_rect_of_nat:
  assumes "x \<le> 800" "y \<le> 600" "x2 \<le> 800" "y2 \<le> 600"
  shows "draws (rect_layer x y x2 y2 c) (VBE_DrawRect (of_nat x) (of_nat y) (of_nat x2) (of_nat y2) c)"
proof -
  have "unat (of_nat n :: u32) = n" if "n \<le> 800" for n using that by (simp add: unat_of_nat_small)
  then have "unat (of_nat x :: u32) = x" "unat (of_nat y :: u32) = y"
    "unat (of_nat x2 :: u32) = x2" "unat (of_nat y2 :: u32) = y2" using assms by simp_all
  with draws_rect [of "of_nat x2" "of_nat y2" "of_nat x" "of_nat y" c] assms show ?thesis by simp
qed

text \<open>Lines: a row of points, one drawn after the other.\<close>

lemma draws_points:
  assumes "\<And>i. i \<in> set is \<Longrightarrow> fst (f i) < 800 \<and> snd (f i) < 600"
  shows "draws (\<lambda>p. if p \<in> f ` set is then Some c else None)
    (fold (\<lambda>i. VBE_DrawPixel (of_nat (fst (f i))) (of_nat (snd (f i))) c) is)"
  using assms
proof (induction "is")
  case Nil
  show ?case using draws_nothing by (simp add: id_def)
next
  case (Cons i js)
  have "draws [(fst (f i), snd (f i)) \<mapsto> c] (VBE_DrawPixel (of_nat (fst (f i))) (of_nat (snd (f i))) c)"
    using Cons.prems [of i] by (intro draws_pixel) auto
  then have "draws ([f i \<mapsto> c] ++ (\<lambda>p. if p \<in> f ` set js then Some c else None))
    (\<lambda>m. fold (\<lambda>i. VBE_DrawPixel (of_nat (fst (f i))) (of_nat (snd (f i))) c) js
       (VBE_DrawPixel (of_nat (fst (f i))) (of_nat (snd (f i))) c m))"
    using draws_comp Cons by simp
  then show ?case
    unfolding fold_Cons comp_def by (rule draws_cong) (simp add: map_add_def)
qed


definition draws_ok :: "layer \<Rightarrow> (mem \<Rightarrow> mem res) \<Rightarrow> bool" where
  "draws_ok L f \<longleftrightarrow> (\<exists>g. draws L g \<and> (\<forall>m. f m = Inr (g m)))"

lemma draws_okI: "draws L g \<Longrightarrow> draws_ok L (\<lambda>m. Inr (g m))"
  by (auto simp: draws_ok_def)

lemma draws_ok_bind:
  assumes "draws_ok L f" "draws_ok K g"
  shows "draws_ok (L ++ K) (\<lambda>m. res_bind (f m) g)"
  using assms by (auto simp: draws_ok_def intro: draws_comp)

lemma draws_ok_after:
  assumes "draws L f" "draws_ok K g"
  shows "draws_ok (L ++ K) (\<lambda>m. g (f m))"
  using assms by (auto simp: draws_ok_def intro: draws_comp)

lemma draws_ok_cong:
  assumes "draws_ok L f" "\<And>p. on_screen p \<Longrightarrow> L p = K p"
  shows "draws_ok K f"
proof -
  obtain g where g: "draws L g" "\<forall>m. f m = Inr (g m)" using assms(1) by (auto simp: draws_ok_def)
  have "draws K g" by (rule draws_cong [OF g(1) assms(2)])
  then show ?thesis using g(2) by (auto simp: draws_ok_def)
qed

lemma sint_small:
  assumes "n < 1000"
  shows "sint (of_nat n :: u32) = int n" "c_small (sint (of_nat n :: u32))"
proof -
  have "signed_take_bit 31 (int n) = int n"
    using assms by (intro signed_take_bit_int_eq_self) simp_all
  then show "sint (of_nat n :: u32) = int n" by (simp add: signed_of_nat)
  then show "c_small (sint (of_nat n :: u32))" using assms by (simp add: c_small_def)
qed

text \<open>A line along an axis is the rectangle of width one between its ends, both drawn.\<close>

lemma draws_line:
  assumes "x \<le> x2" "y \<le> y2" "x = x2 \<or> y = y2" "x2 < 800" "y2 < 600"
  shows "draws_ok (rect_layer x y (x2 + 1) (y2 + 1) c) (VBE_DrawLine (of_nat x) (of_nat y) (of_nat x2) (of_nat y2) c)"
proof -
  let ?n = "max (x2 - x) (y2 - y)"
  let ?f = "\<lambda>i. (if x = x2 then x else x + i, if y = y2 then y else y + i)"
  let ?draw = "\<lambda>i. VBE_DrawPixel (of_nat (fst (?f i))) (of_nat (snd (?f i))) c"
  have b: "x < 1000" "y < 1000" "x2 < 1000" "y2 < 1000" using assms by simp_all
  note s = sint_small [OF b(1)] sint_small [OF b(2)] sint_small [OF b(3)] sint_small [OF b(4)]
  have len: "nat (max \<bar>int x2 - int x\<bar> \<bar>int y2 - int y\<bar>) = ?n" using assms(1,2) by auto
  have pt: "plot c (line_point (int x) (int y) (int x2 - int x) (int y2 - int y) i) = ?draw i"
    if "i \<in> set [0..<?n + 1]" for i
    using assms that by (intro ext) (auto simp: plot_def line_point_def c_sgn_def)
  have fold: "VBE_DrawLine (of_nat x) (of_nat y) (of_nat x2) (of_nat y2) c m = Inr (fold ?draw [0..<?n + 1] m)" for m
  proof -
    have "fold (\<lambda>i. plot c (line_point (int x) (int y) (int x2 - int x) (int y2 - int y) i)) [0..<?n + 1] m =
        fold ?draw [0..<?n + 1] m"
      by (intro fold_cong refl pt)
    then show ?thesis
      using VBE_DrawLine_closed_form [OF s(2,4,6,8), of c m] unfolding s(1,3,5,7) len by (simp only:)
  qed
  have drawn: "draws (\<lambda>p. if p \<in> ?f ` set [0..<?n + 1] then Some c else None) (fold ?draw [0..<?n + 1])"
    by (rule draws_points) (use assms in auto)
  have points: "p \<in> ?f ` set [0..<?n + 1] \<longleftrightarrow> x \<le> fst p \<and> fst p < x2 + 1 \<and> y \<le> snd p \<and> snd p < y2 + 1" for p
  proof
    assume p: "x \<le> fst p \<and> fst p < x2 + 1 \<and> y \<le> snd p \<and> snd p < y2 + 1"
    then have "p = ?f (if x = x2 then snd p - y else fst p - x)"
      using assms by (cases p) auto
    then show "p \<in> ?f ` set [0..<?n + 1]"
      by (rule image_eqI) (use p assms in auto)
  qed (use assms in auto)
  have "draws (rect_layer x y (x2 + 1) (y2 + 1) c) (fold ?draw [0..<?n + 1])"
    by (rule draws_cong [OF drawn]) (simp only: points rect_layer_def split_def)
  then show ?thesis unfolding draws_ok_def using fold by blast
qed

section \<open>The picture of a window\<close>

text \<open>
  A window whose lower right corner \<open>(w, h)\<close> lies on the screen, right of and at least 22 rows
  below its upper left corner: it covers the points up to and with row \<open>h\<close>, where the border is.
\<close>

definition fits :: "window_t \<Rightarrow> bool" where
  "fits v \<longleftrightarrow> win_x v < win_w v \<and> unat (win_y v) + 22 \<le> unat (win_h v) \<and> win_w v \<le> 800 \<and> win_h v < 600"

definition covers :: "window_t \<Rightarrow> nat \<times> nat \<Rightarrow> bool" where
  "covers v = (\<lambda>(px, py). unat (win_x v) \<le> px \<and> px < unat (win_w v) \<and> unat (win_y v) \<le> py \<and> py \<le> unat (win_h v))"

definition window_colour :: "window_t \<Rightarrow> nat \<times> nat \<Rightarrow> u32" where
  "window_colour v = (\<lambda>(px, py).
     if py < unat (win_y v) + 22 then (if active v then 0x004C5D else 0xBBC2C2)
     else if py = unat (win_h v) \<or> px = unat (win_x v) \<or> px + 1 = unat (win_w v) then 0xC4C5C5
     else 0xD8D8D8)"

definition window_layer :: "window_t \<Rightarrow> layer" where
  "window_layer v p = (if covers v p then Some (window_colour v p) else None)"

lemma window_layers:
  fixes x y w h :: nat
  assumes "x < w" "y + 22 \<le> h"
  shows "((rect_layer x y w h body ++ rect_layer x y w (y + 22) title) ++
      (rect_layer x (y + 22) (x + 1) (h + 1) border ++
        (rect_layer (w - 1) (y + 22) (w - 1 + 1) (h + 1) border ++ rect_layer x h (w - 1 + 1) (h + 1) border))) (px, py) =
    (if x \<le> px \<and> px < w \<and> y \<le> py \<and> py \<le> h
     then Some (if py < y + 22 then title else if py = h \<or> px = x \<or> px + 1 = w then border else body) else None)"
proof -
  have w: "w - 1 + 1 = w" using assms by simp
  consider "\<not> (x \<le> px \<and> px < w)" | "py < y \<or> h < py" | "x \<le> px" "px < w" "py = h"
    | "x \<le> px" "px < w" "y \<le> py" "py < y + 22" "py \<noteq> h"
    | "x \<le> px" "px < w" "y + 22 \<le> py" "py < h" by linarith
  then show ?thesis
    unfolding w map_add_def rect_layer_def using assms by cases auto
qed

lemma draws_window:
  assumes "fits v"
  shows "draws_ok (window_layer v) (draw_window v)"
proof -
  define x y w h where n: "x = unat (win_x v)" "y = unat (win_y v)" "w = unat (win_w v)" "h = unat (win_h v)"
  define title :: u32 where "title = (if active v then 0x004C5D else 0xBBC2C2)"
  have b: "x < w" "y + 22 \<le> h" "w \<le> 800" "h < 600"
    using assms by (simp_all add: fits_def n word_less_nat_alt word_le_nat_alt)
  have words: "ucast (win_x v) = (of_nat x :: u32)" "ucast (win_y v) = (of_nat y :: u32)"
    "ucast (win_w v) = (of_nat w :: u32)" "ucast (win_h v) = (of_nat h :: u32)"
    by (simp_all add: n)
  have sums: "(of_nat y :: u32) + 22 = of_nat (y + 22)" "(of_nat w :: u32) - 1 = of_nat (w - 1)"
    using b(1) by (simp_all add: of_nat_diff)
  have body: "draws (rect_layer x y w h 0xD8D8D8) (VBE_DrawRect (of_nat x) (of_nat y) (of_nat w) (of_nat h) 0xD8D8D8)"
    and bar: "draws (rect_layer x y w (y + 22) title)
      (VBE_DrawRect (of_nat x) (of_nat y) (of_nat w) (of_nat (y + 22)) title)"
    by (rule draws_rect_of_nat; use b in simp)+
  have left: "draws_ok (rect_layer x (y + 22) (x + 1) (h + 1) 0xC4C5C5)
      (VBE_DrawLine (of_nat x) (of_nat (y + 22)) (of_nat x) (of_nat h) 0xC4C5C5)"
    and right: "draws_ok (rect_layer (w - 1) (y + 22) (w - 1 + 1) (h + 1) 0xC4C5C5)
      (VBE_DrawLine (of_nat (w - 1)) (of_nat (y + 22)) (of_nat (w - 1)) (of_nat h) 0xC4C5C5)"
    and bottom: "draws_ok (rect_layer x h (w - 1 + 1) (h + 1) 0xC4C5C5)
      (VBE_DrawLine (of_nat x) (of_nat h) (of_nat (w - 1)) (of_nat h) 0xC4C5C5)"
    by (rule draws_line; use b in simp)+
  note all = draws_ok_after [OF draws_comp [OF body bar] draws_ok_bind [OF left draws_ok_bind [OF right bottom]]]
  show ?thesis
    unfolding draw_window_def words sums Let_def title_def [symmetric]
  proof (rule draws_ok_cong [OF all])
    fix p :: "nat \<times> nat"
    obtain px py where p: "p = (px, py)" by fastforce
    have "window_layer v (px, py) =
      (if x \<le> px \<and> px < w \<and> y \<le> py \<and> py \<le> h
       then Some (if py < y + 22 then title else if py = h \<or> px = x \<or> px + 1 = w then 0xC4C5C5 else 0xD8D8D8) else None)"
      by (simp only: window_layer_def covers_def window_colour_def title_def n prod.case)
    then show "((rect_layer x y w h 0xD8D8D8 ++ rect_layer x y w (y + 22) title) ++
      (rect_layer x (y + 22) (x + 1) (h + 1) 0xC4C5C5 ++
        (rect_layer (w - 1) (y + 22) (w - 1 + 1) (h + 1) 0xC4C5C5 ++ rect_layer x h (w - 1 + 1) (h + 1) 0xC4C5C5))) p =
      window_layer v p"
      unfolding p window_layers [OF b(1,2)] by (rule sym)
  qed
qed

text \<open>The window on top at a point is the last of the table, among those in use, that covers it.\<close>

definition top_window :: "window_t list \<Rightarrow> nat \<times> nat \<Rightarrow> window_t option" where
  "top_window ws p = find (\<lambda>v. win_id v \<noteq> 0 \<and> covers v p) (rev ws)"

lemma find_append: "find P (xs @ ys) = (case find P xs of None \<Rightarrow> find P ys | Some z \<Rightarrow> Some z)"
  by (induction xs) auto

lemma draws_windows:
  assumes "\<forall>v \<in> set ws. win_id v \<noteq> 0 \<longrightarrow> fits v"
  shows "draws_ok (\<lambda>p. map_option (\<lambda>v. window_colour v p) (top_window ws p)) (GUI_DrawWindows ws)"
  using assms
proof (induction ws)
  case Nil
  show ?case using draws_okI [OF draws_nothing] by (simp add: top_window_def)
next
  case (Cons v ws)
  let ?top = "\<lambda>ws p. map_option (\<lambda>v. window_colour v p) (top_window ws p)"
  have IH: "draws_ok (?top ws) (GUI_DrawWindows ws)" using Cons by simp
  have top: "?top (v # ws) p = (case ?top ws p of
      None \<Rightarrow> if win_id v \<noteq> 0 then window_layer v p else None | Some c \<Rightarrow> Some c)" for p
    by (simp add: top_window_def find_append window_layer_def split: option.split)
  show ?case
  proof (cases "win_id v = 0")
    case True
    then have "?top (v # ws) = ?top ws" unfolding top by (auto split: option.split)
    then show ?thesis using True IH by simp
  next
    case False
    then have "draws_ok (window_layer v) (draw_window v)" using Cons.prems by (simp add: draws_window)
    from draws_ok_bind [OF this IH] have "draws_ok (?top (v # ws)) (\<lambda>m. res_bind (draw_window v m) (GUI_DrawWindows ws))"
      by (rule draws_ok_cong) (use False in \<open>simp add: top map_add_def\<close>)
    then show ?thesis using False by simp
  qed
qed

section \<open>The picture of a frame\<close>

text \<open>The pointer: its 16 rows of ten points, of which \<^verbatim>\<open>0\<close> is transparent, from point (81, 81) on.\<close>

definition mouse_picture :: "string list" where
  "mouse_picture =
    [''##00000000'', ''#1#0000000'', ''#11#000000'', ''#111#00000'',
     ''#1111#0000'', ''#11111#000'', ''#111111#00'', ''#1111111#0'',
     ''#11111111#'', ''#11111####'', ''#11#11#000'', ''#1#0#11#00'',
     ''##00#11#00'', ''00000#11#0'', ''00000#11#0'', ''000000##00'']"

definition ink :: "char \<Rightarrow> u32 option" where
  "ink ch = (if ch = CHR ''1'' then Some 0x000000 else if ch = CHR ''#'' then Some 0xFFFFFF else None)"

definition mouse_colour :: layer where
  "mouse_colour = (\<lambda>(px, py).
     if 81 \<le> px \<and> px < 91 \<and> 81 \<le> py \<and> py < 97 then ink (mouse_picture ! (py - 81) ! (px - 81)) else None)"

text \<open>A point shows the pointer, else the window on top, else the task bar of 25 rows, else the desktop.\<close>

definition frame_colour :: "window_t list \<Rightarrow> nat \<times> nat \<Rightarrow> u32" where
  "frame_colour ws p =
     (case mouse_colour p of
        Some c \<Rightarrow> c
      | None \<Rightarrow> (case top_window ws p of
          Some v \<Rightarrow> window_colour v p
        | None \<Rightarrow> if snd p < 25 then 0xBDBDBD else 0x5C788C))"

lemma draw_mouse_blanks:
  "draw_mouse_from (filter (\<lambda>ch. ch \<in> {CHR ''1'', CHR ''#'', CHR ''0'', CHR ''\<newline>''}) str) x y m =
    draw_mouse_from str x y m"
  by (induction str arbitrary: x y m) auto

definition row_layer :: "string \<Rightarrow> nat \<Rightarrow> nat \<Rightarrow> layer" where
  "row_layer r x y = (\<lambda>(px, py). if py = y + 80 \<and> x + 80 \<le> px \<and> px < x + 80 + length r
     then ink (r ! (px - (x + 80))) else None)"

lemma row_layer_Cons:
  "row_layer (ch # r) x y = (\<lambda>p. if p = (x + 80, y + 80) then ink ch else None) ++ row_layer r (Suc x) y"
proof (rule ext)
  fix p :: "nat \<times> nat"
  obtain px py where p: "p = (px, py)" by fastforce
  consider "px < x + 80" | "px = x + 80" | i where "px = Suc x + 80 + i"
    using le_Suc_ex [of "Suc x + 80" px] by force
  then show "row_layer (ch # r) x y p =
      ((\<lambda>p. if p = (x + 80, y + 80) then ink ch else None) ++ row_layer r (Suc x) y) p"
    unfolding p by cases (auto simp: row_layer_def map_add_def split: option.split)
qed

lemma draws_mouse_row:
  assumes "set r \<subseteq> {CHR ''1'', CHR ''#'', CHR ''0''}" "x + 80 + length r \<le> 800" "y + 80 < 600"
  shows "\<exists>f. draws (row_layer r x y) f \<and>
    (\<forall>rest m. draw_mouse_from (r @ rest) (of_nat x) (of_nat y) m =
      draw_mouse_from rest (of_nat (x + length r)) (of_nat y) (f m))"
  using assms
proof (induction r arbitrary: x)
  case Nil
  have "draws (row_layer [] x y) (\<lambda>m. m)"
    by (rule draws_cong [OF draws_nothing]) (auto simp: row_layer_def)
  then show ?case by (intro exI [of _ "\<lambda>m. m"]) simp
next
  case (Cons ch r)
  define g where "g = (case ink ch of None \<Rightarrow> (\<lambda>m. m) |
    Some c \<Rightarrow> VBE_DrawPixel (of_nat (x + 80)) (of_nat (y + 80)) c)"
  have "set r \<subseteq> {CHR ''1'', CHR ''#'', CHR ''0''}" "Suc x + 80 + length r \<le> 800"
    using Cons.prems by auto
  from Cons.IH [OF this Cons.prems(3)] obtain f where f: "draws (row_layer r (Suc x) y) f"
    "\<And>rest m. draw_mouse_from (r @ rest) (of_nat (Suc x)) (of_nat y) m =
      draw_mouse_from rest (of_nat (Suc x + length r)) (of_nat y) (f m)" by metis
  have g: "draws (\<lambda>p. if p = (x + 80, y + 80) then ink ch else None) g"
  proof (cases "ink ch")
    case None
    then show ?thesis unfolding g_def by (auto intro: draws_cong [OF draws_nothing])
  next
    case (Some c)
    have "draws [(x + 80, y + 80) \<mapsto> c] (VBE_DrawPixel (of_nat (x + 80)) (of_nat (y + 80)) c)"
      using Cons.prems by (intro draws_pixel) simp_all
    then show ?thesis unfolding g_def Some option.case by (rule draws_cong) simp
  qed
  have "draws (row_layer (ch # r) x y) (\<lambda>m. f (g m))"
    unfolding row_layer_Cons by (rule draws_comp [OF g f(1)])
  moreover have "draw_mouse_from ((ch # r) @ rest) (of_nat x) (of_nat y) m =
      draw_mouse_from rest (of_nat (x + length (ch # r))) (of_nat y) (f (g m))" for rest m
  proof -
    have w: "(of_nat x :: u32) + 80 = of_nat (x + 80)" "(of_nat y :: u32) + 80 = of_nat (y + 80)"
      "(of_nat x :: u32) + 1 = of_nat (Suc x)" "x + length (ch # r) = Suc x + length r" by simp_all
    have "draw_mouse_from ((ch # r) @ rest) (of_nat x) (of_nat y) m =
        draw_mouse_from (r @ rest) (of_nat (Suc x)) (of_nat y) (g m)"
      using Cons.prems(1) unfolding append_Cons draw_mouse_from.simps w g_def ink_def by auto
    then show ?thesis unfolding f(2) w(4) .
  qed
  ultimately show ?case by blast
qed

definition rows_layer :: "string list \<Rightarrow> nat \<Rightarrow> layer" where
  "rows_layer rs y = (\<lambda>(px, py). if 81 \<le> px \<and> px < 91 \<and> y + 80 \<le> py \<and> py < y + 80 + length rs
     then ink (rs ! (py - (y + 80)) ! (px - 81)) else None)"

lemma rows_layer_Cons:
  assumes "length r = 10"
  shows "rows_layer (r # rs) y = row_layer r 1 y ++ rows_layer rs (Suc y)"
proof (rule ext)
  fix p :: "nat \<times> nat"
  obtain px py where p: "p = (px, py)" by fastforce
  consider "py < y + 80" | "py = y + 80" | i where "py = Suc y + 80 + i"
    using le_Suc_ex [of "Suc y + 80" py] by force
  then show "rows_layer (r # rs) y p = (row_layer r 1 y ++ rows_layer rs (Suc y)) p"
    unfolding p by cases (auto simp: row_layer_def rows_layer_def assms map_add_def split: option.split)
qed

lemma draws_mouse_rows:
  assumes "\<forall>r \<in> set rs. length r = 10 \<and> set r \<subseteq> {CHR ''1'', CHR ''#'', CHR ''0''}" "y + length rs \<le> 500"
  shows "draws (rows_layer rs y) (draw_mouse_from (concat (map (\<lambda>r. r @ ''\<newline>'') rs)) 1 (of_nat y))"
  using assms
proof (induction rs arbitrary: y)
  case Nil
  have "draws (rows_layer [] y) (\<lambda>m. m)"
    by (rule draws_cong [OF draws_nothing]) (auto simp: rows_layer_def)
  moreover have "draw_mouse_from [] 1 (of_nat y) = (\<lambda>m. m)" by (rule ext) simp
  ultimately show ?case by simp
next
  case (Cons r rs)
  let ?rest = "concat (map (\<lambda>r. r @ ''\<newline>'') rs)"
  have r: "set r \<subseteq> {CHR ''1'', CHR ''#'', CHR ''0''}" "1 + 80 + length r \<le> 800" "y + 80 < 600" "length r = 10"
    using Cons.prems by auto
  from draws_mouse_row [OF r(1-3)] obtain f where f: "draws (row_layer r 1 y) f"
    "\<And>rest m. draw_mouse_from (r @ rest) (of_nat 1) (of_nat y) m =
      draw_mouse_from rest (of_nat (1 + length r)) (of_nat y) (f m)" by metis
  have IH: "draws (rows_layer rs (Suc y)) (draw_mouse_from ?rest 1 (of_nat (Suc y)))"
    by (rule Cons.IH) (use Cons.prems in auto)
  have "(of_nat y :: u32) + 1 = of_nat (Suc y)" "(of_nat 1 :: u32) = 1" by simp_all
  then have "draw_mouse_from (concat (map (\<lambda>r. r @ ''\<newline>'') (r # rs))) 1 (of_nat y) =
      (\<lambda>m. draw_mouse_from ?rest 1 (of_nat (Suc y)) (f m))"
    using f(2) [of "''\<newline>'' @ ?rest"] by (intro ext) (simp del: of_nat_Suc of_nat_1)
  then show ?case
    unfolding rows_layer_Cons [OF r(4)] using draws_comp [OF f(1) IH] by (simp only:)
qed

lemma draws_mouse: "draws mouse_colour GUI_DrawMouse"
proof -
  have ink_only: "filter (\<lambda>ch. ch \<in> {CHR ''1'', CHR ''#'', CHR ''0'', CHR ''\<newline>''}) mouse_t =
      concat (map (\<lambda>r. r @ ''\<newline>'') mouse_picture)"
    by (simp add: mouse_t_def mouse_picture_def)
  have "GUI_DrawMouse = draw_mouse_from (concat (map (\<lambda>r. r @ ''\<newline>'') mouse_picture)) 1 (of_nat 1)"
    unfolding ink_only [symmetric] by (intro ext) (simp only: GUI_DrawMouse_def draw_mouse_blanks of_nat_1)
  moreover have "length mouse_picture = 16"
    "\<forall>r \<in> set mouse_picture. length r = 10 \<and> set r \<subseteq> {CHR ''1'', CHR ''#'', CHR ''0''}"
    by (simp_all add: mouse_picture_def)
  moreover have "mouse_colour = rows_layer mouse_picture 1"
  proof -
    have n: "1 + 80 = (81 :: nat)" "81 + 16 = (97 :: nat)" by simp_all
    show ?thesis by (simp only: mouse_colour_def rows_layer_def calculation(2) n)
  qed
  ultimately show ?thesis using draws_mouse_rows [of mouse_picture 1] by simp
qed

text \<open>The desktop with the task bar.\<close>

lemma draws_ground:
  "draws (\<lambda>p. Some (if snd p < 25 then 0xBDBDBD else 0x5C788C)) (\<lambda>m. GUI_DrawTaskBar (GUI_DrawDesktop m))"
proof -
  have "draws (rect_layer 0 0 800 600 0x5C788C) GUI_DrawDesktop" "draws (rect_layer 0 0 800 25 0xBDBDBD) GUI_DrawTaskBar"
    using draws_rect_of_nat [of 0 0 800 600 "0x5C788C"] draws_rect_of_nat [of 0 0 800 25 "0xBDBDBD"]
    by (simp_all add: GUI_DrawDesktop_def [abs_def] GUI_DrawTaskBar_def [abs_def])
  from draws_comp [OF this] show ?thesis
    by (rule draws_cong) (auto simp: rect_layer_def on_screen_def map_add_def)
qed

text \<open>
  C40. The picture on the screen. For a table whose windows in use lie on the screen, with the lower right
  corner to the right of the upper left one and at least 22 rows, the title bar, below it, and with the frame
  buffer mapped at its address, one turn of the loop of \<open>GUI_Init\<close> gives every one of the 800 by 600 points
  the colour of what is on top there: the pointer, else the last window of the table that covers it (title
  bar, dark for the active window and light for the others, border or body), else the task bar, else
  the desktop. What the screen showed before does not matter, and no byte outside the frame buffer, so
  not the table of windows either, is written.
\<close>
theorem GUI_frame_picture:
  assumes "\<forall>v \<in> set (window g). win_id v \<noteq> 0 \<longrightarrow> fits v"
  shows "\<exists>m'. GUI_frame g = Inr (g\<lparr>fb := m'\<rparr>) \<and>
    (\<forall>px py. px < 800 \<and> py < 600 \<longrightarrow>
      load32 m' (pixel_at (of_nat px) (of_nat py)) = frame_colour (window g) (px, py)) \<and>
    (\<forall>a. 800 * 600 * 4 \<le> unat (a - vbeBuffer) \<longrightarrow> m' a = fb g a)"
proof -
  obtain f where f: "draws (\<lambda>p. map_option (\<lambda>v. window_colour v p) (top_window (window g) p)) f"
    "\<And>m. GUI_DrawWindows (window g) m = Inr (f m)"
    using draws_windows [OF assms] by (auto simp: draws_ok_def)
  let ?draw = "\<lambda>m. GUI_DrawMouse (f (GUI_DrawTaskBar (GUI_DrawDesktop m)))"
  have "draws (\<lambda>p. Some (frame_colour (window g) p)) ?draw"
    by (rule draws_cong [OF draws_comp [OF draws_comp [OF draws_ground f(1)] draws_mouse]])
      (simp add: frame_colour_def map_add_def split: option.split)
  moreover have "GUI_frame g = Inr (g\<lparr>fb := ?draw (fb g)\<rparr>)"
    by (simp add: GUI_frame_def f(2))
  ultimately show ?thesis
    by (intro exI [of _ "?draw (fb g)"]) (simp add: draws_def pixel_def on_screen_def)
qed

text \<open>The two windows of \<open>GUI_Init\<close>, of which the second is active and hides part of the first.\<close>

lemma GUI_Init_table:
  "\<exists>g. GUI_Init (gui_start m e) = Inr g \<and> window g =
    [\<lparr>win_x = 160, win_y = 160, win_w = 480, win_h = 380, win_id = 1, active = False\<rparr>,
     \<lparr>win_x = 200, win_y = 200, win_w = 520, win_h = 420, win_id = 2, active = True\<rparr>] @ replicate 98 null_window"
proof -
  have n: "replicate 100 null_window = null_window # null_window # replicate 98 null_window"
    by (simp add: numeral_eq_Suc)
  show ?thesis
    unfolding GUI_Init_def gui_start_def n
    by (simp add: GUI_CreateWindow_def null_window_def c_add_def c_int_defs Let_def)
qed

theorem GUI_frame_picture_witness:
  "\<exists>g m'. GUI_Init (gui_start (\<lambda>_. 0) (senv corner_screen)) = Inr g \<and> GUI_frame g = Inr (g\<lparr>fb := m'\<rparr>) \<and>
    load32 m' (pixel_at 170 170) = 0xBBC2C2 \<and> load32 m' (pixel_at 210 210) = 0x004C5D \<and>
    load32 m' (pixel_at 300 379) = 0xD8D8D8 \<and> load32 m' (pixel_at 300 420) = 0xC4C5C5 \<and>
    load32 m' (pixel_at 82 82) = 0 \<and> load32 m' (pixel_at 799 24) = 0xBDBDBD \<and>
    load32 m' (pixel_at 799 25) = 0x5C788C"
proof -
  obtain g where g: "GUI_Init (gui_start (\<lambda>_. 0) (senv corner_screen)) = Inr g" "window g =
    [\<lparr>win_x = 160, win_y = 160, win_w = 480, win_h = 380, win_id = 1, active = False\<rparr>,
     \<lparr>win_x = 200, win_y = 200, win_w = 520, win_h = 420, win_id = 2, active = True\<rparr>] @ replicate 98 null_window"
    using GUI_Init_table by blast
  have "\<forall>v \<in> set (window g). win_id v \<noteq> 0 \<longrightarrow> fits v"
    by (simp add: g(2) null_window_def fits_def)
  from GUI_frame_picture [OF this] obtain m' where m': "GUI_frame g = Inr (g\<lparr>fb := m'\<rparr>)"
    "\<And>px py. px < 800 \<Longrightarrow> py < 600 \<Longrightarrow>
      load32 m' (pixel_at (of_nat px) (of_nat py)) = frame_colour (window g) (px, py)" by blast
  have none: "find (\<lambda>v. win_id v \<noteq> 0 \<and> covers v p) (replicate n null_window) = None" for n p
    by (induction n) (simp_all add: null_window_def)
  have top: "top_window (window g) p =
      (if covers (window g ! 1) p then Some (window g ! 1) else if covers (window g ! 0) p then Some (window g ! 0) else None)" for p
    by (simp add: g(2) top_window_def find_append none)
  have two: "window g ! 0 = \<lparr>win_x = 160, win_y = 160, win_w = 480, win_h = 380, win_id = 1, active = False\<rparr>"
    "window g ! 1 = \<lparr>win_x = 200, win_y = 200, win_w = 520, win_h = 420, win_id = 2, active = True\<rparr>"
    by (simp_all add: g(2))
  have points: "frame_colour (window g) (170, 170) = 0xBBC2C2" "frame_colour (window g) (210, 210) = 0x004C5D"
    "frame_colour (window g) (300, 379) = 0xD8D8D8" "frame_colour (window g) (300, 420) = 0xC4C5C5"
    "frame_colour (window g) (82, 82) = 0" "frame_colour (window g) (799, 24) = 0xBDBDBD"
    "frame_colour (window g) (799, 25) = 0x5C788C"
    by (simp_all add: frame_colour_def top [unfolded two] mouse_colour_def mouse_picture_def ink_def covers_def window_colour_def)
  show ?thesis
    using g(1) m'(1) m'(2) [of 170 170] m'(2) [of 210 210] m'(2) [of 300 379] m'(2) [of 300 420] m'(2) [of 82 82]
      m'(2) [of 799 24] m'(2) [of 799 25]
    by (intro exI [of _ g] exI [of _ m'] conjI) (simp_all only: points of_nat_numeral less_numeral_simps simp_thms if_True, simp_all)
qed

end
