(* ===== verification/Shell.thy ===== *)
theory Shell
  imports Keyboard Gui
begin

text \<open>
  The command shell, \<^verbatim>\<open>kernel/shell.c\<close>. A turn of its endless loop is \<open>lsh_step\<close>. The line
  buffer \<^verbatim>\<open>cli\<close> is the C array of 256 bytes, an index beyond it is a fault. A command can
  end the loop: \<^verbatim>\<open>halt\<close> stops the processor with interrupts off, and \<^verbatim>\<open>gui\<close> enters the
  endless loop of \<^verbatim>\<open>GUI_Init\<close>. What the \<^verbatim>\<open>dump\<close> command finds in the processor's registers is a parameter.
\<close>

section \<open>Comparing with a command\<close>

text \<open>\<^verbatim>\<open>strcmp\<close> of two arrays; reading behind an array is a fault.\<close>

fun strcmp_bytes :: "u8 list \<Rightarrow> u8 list \<Rightarrow> int res" where
  "strcmp_bytes (x # xs) (y # ys) =
     (if x \<noteq> 0 \<and> y \<noteq> 0 \<and> x = y then strcmp_bytes xs ys else Inr (sint x - sint y))"
| "strcmp_bytes xs ys = Inl Out_of_bounds"

text \<open>It is the \<^verbatim>\<open>strcmp\<close> of the C library on any memory that holds the arrays.\<close>

lemma strcmp_bytes_strcmp:
  assumes "strcmp_bytes xs ys = Inr d"
    "\<And>i. i < length xs \<Longrightarrow> m (p + of_nat i) = xs ! i" "\<And>i. i < length ys \<Longrightarrow> m (q + of_nat i) = ys ! i"
  shows "strcmp m p q = Some d"
  using assms
proof (induction xs ys arbitrary: p q rule: strcmp_bytes.induct)
  case (1 x xs y ys)
  have h: "m p = x" "m q = y" using "1.prems"(2) [of 0] "1.prems"(3) [of 0] by simp_all
  show ?case
  proof (cases "x \<noteq> 0 \<and> y \<noteq> 0 \<and> x = y")
    case True
    have "m (p + 1 + of_nat i) = xs ! i" if "i < length xs" for i
      using "1.prems"(2) [of "Suc i"] that by (simp add: add.assoc)
    moreover have "m (q + 1 + of_nat i) = ys ! i" if "i < length ys" for i
      using "1.prems"(3) [of "Suc i"] that by (simp add: add.assoc)
    ultimately have "strcmp m (p + 1) (q + 1) = Some d"
      using "1.IH" "1.prems"(1) True by simp
    then show ?thesis using True h by (subst strcmp.simps) simp
  next
    case False
    then show ?thesis using h "1.prems"(1) by (subst strcmp.simps) auto
  qed
qed simp_all

section \<open>The shell\<close>

record shell =
  cli :: "u8 list"
  cli_len :: int
  skbd :: kbd
  skenv :: env
  sgui :: gui

definition say :: "string \<Rightarrow> karg list \<Rightarrow> shell \<Rightarrow> shell" where
  "say fmt args sh = sh\<lparr>skenv := kprintf_call fmt args (skenv sh)\<rparr>"

definition set_cli :: "int \<Rightarrow> u8 \<Rightarrow> shell \<Rightarrow> shell res" where
  "set_cli i c sh =
     (if 0 \<le> i \<and> nat i < length (cli sh) then Inr (sh\<lparr>cli := (cli sh)[nat i := c]\<rparr>)
      else Inl Out_of_bounds)"

definition show_cmdline :: "shell \<Rightarrow> shell res" where
  "show_cmdline sh =
     res_bind (set_cli 0 0 (sh\<lparr>cli_len := 0\<rparr>)) (\<lambda>sh.
       let sh = sh\<lparr>skenv := set_color_call 2 (skenv sh)\<rparr>;
           sh = say ''[root]# '' [] sh
       in Inr (sh\<lparr>skenv := set_color_call 7 (skenv sh)\<rparr>))"

datatype parse_result = Returned int | Cpu_halted | In_gui

text \<open>The test \<^verbatim>\<open>(!strcmp(cli, "..")) && (cli_len == n)\<close> and an \<^verbatim>\<open>if\<close> on it.\<close>

definition cmd_is :: "string \<Rightarrow> int \<Rightarrow> shell \<Rightarrow> bool res" where
  "cmd_is cmd n sh =
     res_bind (strcmp_bytes (cli sh) (bytes_of cmd @ [0])) (\<lambda>d. Inr (d = 0 \<and> cli_len sh = n))"

definition on_cmd :: "string \<Rightarrow> int \<Rightarrow> (shell \<Rightarrow> (parse_result \<times> shell) res) \<Rightarrow>
    (shell \<Rightarrow> (parse_result \<times> shell) res) \<Rightarrow> shell \<Rightarrow> (parse_result \<times> shell) res" where
  "on_cmd cmd n body rest sh = res_bind (cmd_is cmd n sh) (\<lambda>b. if b then body sh else rest sh)"

definition say_all :: "string list \<Rightarrow> shell \<Rightarrow> shell" where
  "say_all fmts sh = fold (\<lambda>f. say f []) fmts sh"

definition return_1 :: "string list \<Rightarrow> shell \<Rightarrow> (parse_result \<times> shell) res" where
  "return_1 fmts sh = Inr (Returned 1, say_all fmts sh)"

definition help_text :: "string list" where
  "help_text =
     [CHR ''\<newline>'' # CHR 0x09 # CHR 0x09 # CHR 0x09 # ''Available commands:\<newline>'',
      CHR 0x09 # ''cls '' @ CHR 0x09 # ''halt '' @ CHR 0x09 # ''help '' @ CHR 0x09 # ''info '' @
        CHR 0x09 # ''kill '' @ CHR 0x09 # ''list '' @ CHR 0x09 # ''ls\<newline>'',
      CHR 0x09 # ''mem '' @ CHR 0x09 # ''reboot '' @ CHR 0x09 # ''task '' @ CHR 0x09 # ''tasks '' @
        CHR 0x09 # ''time '' @ CHR 0x09 # ''top '' @ CHR 0x09 # ''uptime\<newline>'',
      CHR 0x09 # ''ver\<newline>'',
      ''Other commands can only be executed if they are in the bin directory\<newline>\<newline>'']"

text \<open>The registers in the order \<^verbatim>\<open>eax, ebx, ecx, edx, edi, esi, ebp, esp\<close>.\<close>

definition say_dump :: "u32 list \<Rightarrow> shell \<Rightarrow> shell" where
  "say_dump rs sh =
     say (CHR 0x09 # ''EDI=%08X   ESI=%08X   EBP=%08X   ESP=%08X\<newline>'') (map ArgInt (drop 4 rs))
       (say (CHR 0x09 # ''EAX=%08X   EBX=%08X   ECX=%08X   EDX=%08X\<newline>'') (map ArgInt (take 4 rs)) sh)"

text \<open>\<^verbatim>\<open>cli\<close> and \<^verbatim>\<open>hlt\<close> between and after the messages: nothing runs any more.\<close>

definition do_halt :: "shell \<Rightarrow> (parse_result \<times> shell) res" where
  "do_halt sh = Inr (Cpu_halted, say_all [''stopping interrupts...'', ''Ok.\<newline>'', ''system halted!\<newline>''] sh)"

definition do_gui :: "shell \<Rightarrow> (parse_result \<times> shell) res" where
  "do_gui sh = res_bind (GUI_Init ((sgui sh)\<lparr>genv := skenv sh\<rparr>)) (\<lambda>g.
     Inr (In_gui, sh\<lparr>sgui := g, skenv := genv g\<rparr>))"

definition parse_cli :: "u32 list \<Rightarrow> shell \<Rightarrow> (parse_result \<times> shell) res" where
  "parse_cli rs sh = res_bind (set_cli (cli_len sh) 0 sh)
    (on_cmd ''help'' 4 (return_1 help_text)
    (on_cmd ''list'' 4 (return_1 [''Usage: list <group>\<newline>''])
    (on_cmd ''list pci'' 8 (return_1 [])
    (on_cmd ''time'' 4 (return_1 [])
    (on_cmd ''uptime'' 6 (return_1 [])
    (on_cmd ''mem'' 3 (return_1 [])
    (\<lambda>sh. res_bind (cmd_is ''dump'' 4 sh) (\<lambda>b.
    (on_cmd ''cpuinfo'' 7 (return_1 [])
    (on_cmd ''cls'' 3 (return_1 [])
    (on_cmd ''halt'' 4 do_halt
    (on_cmd ''reboot'' 6 (return_1 [])
    (on_cmd ''shutdown'' 8 (return_1 [])
    (on_cmd ''gui'' 3 do_gui
    (on_cmd ''ls'' 2 (return_1 [])
    (on_cmd ''task'' 4 (return_1 [''Add a demo task.\<newline>Usage: task <pid>\<newline>''])
    (on_cmd ''kill'' 4 (return_1 [''Usage: kill <pid>\<newline>''])
    (on_cmd ''top'' 3 (return_1 [])
    (on_cmd ''ver'' 3 (return_1 [])
    (\<lambda>sh. Inr (Returned 0, sh))))))))))))) (if b then say_dump rs sh else sh)))))))))"

text \<open>
  A turn of the loop of \<^verbatim>\<open>lsh_loop\<close>. \<open>Running\<close> goes on with the next turn, \<open>Stopped\<close> does
  not: the processor is halted, or the window system runs.
\<close>

definition lsh_step :: "u32 list \<Rightarrow> shell \<Rightarrow> shell outcome res" where
  "lsh_step rs sh =
     (if kbd_keys_available (skbd sh) \<noteq> 0 then Inr (Running sh)
      else res_bind (kbd_get_key (skbd sh)) (\<lambda>(key, k).
        let sh = sh\<lparr>skbd := k\<rparr>
        in if key = 0 then Inr (Running sh)
           else if key = 8 then
             (if cli_len sh \<noteq> 0
              then let sh = sh\<lparr>cli_len := cli_len sh - 1\<rparr>;
                       sh = say ''%c'' [ArgInt (ucast key)] sh;
                       sh = say '' '' [] sh
                   in Inr (Running (say ''%c'' [ArgInt (ucast key)] sh))
              else Inr (Running sh))
           else if key = 10 then
             res_bind (parse_cli rs (say ''\<newline>'' [] sh)) (\<lambda>(r, sh).
               case r of
                 Returned v \<Rightarrow> res_bind (show_cmdline sh) (\<lambda>sh. Inr (Running sh))
               | Cpu_halted \<Rightarrow> Inr (Stopped sh)
               | In_gui \<Rightarrow> Inr (Stopped sh))
           else if key = 9 then Inr (Running sh)
           else
             let sh = say ''%c'' [ArgInt (ucast key)] sh
             in res_bind (set_cli (cli_len sh) key sh) (\<lambda>sh.
               Inr (Running (sh\<lparr>cli_len := cli_len sh + 1\<rparr>)))))"

fun lsh_turns :: "nat \<Rightarrow> u32 list \<Rightarrow> shell \<Rightarrow> shell outcome res" where
  "lsh_turns 0 rs sh = Inr (Running sh)"
| "lsh_turns (Suc n) rs sh = res_bind (lsh_step rs sh) (\<lambda>r.
     case r of Running sh \<Rightarrow> lsh_turns n rs sh | Stopped sh \<Rightarrow> Inr (Stopped sh))"

text \<open>\<^verbatim>\<open>lsh_loop\<close>: the prompt, then turns.\<close>

definition lsh_loop :: "nat \<Rightarrow> u32 list \<Rightarrow> shell \<Rightarrow> shell outcome res" where
  "lsh_loop n rs sh = res_bind (show_cmdline sh) (lsh_turns n rs)"

section \<open>Specification: a table of commands\<close>

datatype command = Print "string list" | Dump | Halt_processor | Start_gui

definition command_table :: "(string \<times> command) list" where
  "command_table =
     [(''help'', Print help_text), (''list'', Print [''Usage: list <group>\<newline>'']), (''list pci'', Print []),
      (''time'', Print []), (''uptime'', Print []), (''mem'', Print []), (''dump'', Dump),
      (''cpuinfo'', Print []), (''cls'', Print []), (''halt'', Halt_processor), (''reboot'', Print []),
      (''shutdown'', Print []), (''gui'', Start_gui), (''ls'', Print []),
      (''task'', Print [''Add a demo task.\<newline>Usage: task <pid>\<newline>'']),
      (''kill'', Print [''Usage: kill <pid>\<newline>'']), (''top'', Print []), (''ver'', Print [])]"

definition command_of :: "u8 list \<Rightarrow> command option" where
  "command_of t = map_of (map (\<lambda>(name, c). (bytes_of name, c)) command_table) t"

fun exec_command :: "u32 list \<Rightarrow> command option \<Rightarrow> shell \<Rightarrow> (parse_result \<times> shell) res" where
  "exec_command rs None sh = Inr (Returned 0, sh)"
| "exec_command rs (Some (Print fmts)) sh = return_1 fmts sh"
| "exec_command rs (Some Dump) sh = Inr (Returned 0, say_dump rs sh)"
| "exec_command rs (Some Halt_processor) sh = do_halt sh"
| "exec_command rs (Some Start_gui) sh = do_gui sh"

definition line :: "shell \<Rightarrow> u8 list" where
  "line sh = take (nat (cli_len sh)) (cli sh)"

definition queue :: "shell \<Rightarrow> u8 list" where
  "queue sh = fifo_list (kbd_buffer (skbd sh))"

definition shell_wf :: "shell \<Rightarrow> bool" where
  "shell_wf sh \<longleftrightarrow> length (cli sh) = 256 \<and> 0 \<le> cli_len sh \<and> cli_len sh \<le> 256 \<and>
     0 \<notin> set (line sh) \<and> kbd_wf (skbd sh) \<and> (\<exists>m e. sgui sh = gui_start m e)"

lemma say_simps [simp]:
  "cli (say f as sh) = cli sh" "cli_len (say f as sh) = cli_len sh" "skbd (say f as sh) = skbd sh"
  "sgui (say f as sh) = sgui sh"
  by (simp_all add: say_def)

lemma say_all_simps [simp]:
  "cli (say_all fs sh) = cli sh" "cli_len (say_all fs sh) = cli_len sh" "skbd (say_all fs sh) = skbd sh"
  "sgui (say_all fs sh) = sgui sh"
  unfolding say_all_def by (induction fs arbitrary: sh) simp_all

lemma say_dump_simps [simp]:
  "cli (say_dump rs sh) = cli sh" "cli_len (say_dump rs sh) = cli_len sh" "skbd (say_dump rs sh) = skbd sh"
  "sgui (say_dump rs sh) = sgui sh"
  by (simp_all add: say_dump_def)

lemmas shell_views = line_def queue_def shell_wf_def

lemma length_line: "shell_wf sh \<Longrightarrow> int (length (line sh)) = cli_len sh"
  by (auto simp: shell_views min_def)

section \<open>Dispatch\<close>

lemma strcmp_bytes_zero:
  "0 \<notin> set l \<Longrightarrow> 0 \<notin> set t \<Longrightarrow> \<exists>d. strcmp_bytes (l @ 0 # r) (t @ [0]) = Inr d \<and> (d = 0 \<longleftrightarrow> l = t)"
proof (induction l arbitrary: t)
  case Nil
  then show ?case by (cases t) (auto simp: signed_eq_0_iff)
next
  case (Cons x l)
  then show ?case by (cases t) (auto simp: signed_eq_0_iff dest: signed_word_eqI)
qed

text \<open>The line has its terminating zero.\<close>

definition closed_line :: "shell \<Rightarrow> u8 list \<Rightarrow> bool" where
  "closed_line sh t \<longleftrightarrow> 0 \<notin> set t \<and> cli_len sh = int (length t) \<and> (\<exists>r. cli sh = t @ 0 # r)"

lemma cmd_is_closed:
  assumes "closed_line sh t" "n = int (length cmd)" "0 \<notin> set (bytes_of cmd)"
  shows "cmd_is cmd n sh = Inr (t = bytes_of cmd)"
proof -
  obtain r where r: "cli sh = t @ 0 # r" "0 \<notin> set t" "cli_len sh = int (length t)"
    using assms(1) by (auto simp: closed_line_def)
  obtain d where "strcmp_bytes (cli sh) (bytes_of cmd @ [0]) = Inr d" "d = 0 \<longleftrightarrow> t = bytes_of cmd"
    using strcmp_bytes_zero [OF r(2) assms(3)] r(1) by auto
  then show ?thesis using r(3) assms(2) by (auto simp: cmd_is_def bytes_of_def)
qed

lemma on_cmd_closed:
  assumes "closed_line sh t" "n = int (length cmd)" "0 \<notin> set (bytes_of cmd)"
  shows "on_cmd cmd n body rest sh = (if t = bytes_of cmd then body sh else rest sh)"
  by (simp add: on_cmd_def cmd_is_closed [OF assms])

lemma bytes_of_commands:
  "bytes_of ''help'' = [104, 101, 108, 112]" "bytes_of ''list'' = [108, 105, 115, 116]"
  "bytes_of ''list pci'' = [108, 105, 115, 116, 32, 112, 99, 105]" "bytes_of ''time'' = [116, 105, 109, 101]"
  "bytes_of ''uptime'' = [117, 112, 116, 105, 109, 101]" "bytes_of ''mem'' = [109, 101, 109]"
  "bytes_of ''dump'' = [100, 117, 109, 112]" "bytes_of ''cpuinfo'' = [99, 112, 117, 105, 110, 102, 111]"
  "bytes_of ''cls'' = [99, 108, 115]" "bytes_of ''halt'' = [104, 97, 108, 116]"
  "bytes_of ''reboot'' = [114, 101, 98, 111, 111, 116]"
  "bytes_of ''shutdown'' = [115, 104, 117, 116, 100, 111, 119, 110]" "bytes_of ''gui'' = [103, 117, 105]"
  "bytes_of ''ls'' = [108, 115]" "bytes_of ''task'' = [116, 97, 115, 107]"
  "bytes_of ''kill'' = [107, 105, 108, 108]" "bytes_of ''top'' = [116, 111, 112]"
  "bytes_of ''ver'' = [118, 101, 114]"
  by (simp_all add: bytes_of_def of_char_def)

lemma closed_line_dump: "closed_line sh t \<Longrightarrow> closed_line (if b then say_dump rs sh else sh) t"
  by (simp add: closed_line_def)

lemma parse_cli_closed:
  assumes "set_cli (cli_len sh) 0 sh = Inr sh'" "closed_line sh' t"
  shows "parse_cli rs sh = exec_command rs (command_of t) sh'"
proof -
  note c = on_cmd_closed [OF assms(2)] cmd_is_closed [OF assms(2)]
    on_cmd_closed [OF closed_line_dump [OF assms(2)]]
  show ?thesis
    unfolding parse_cli_def assms(1) command_of_def command_table_def
    by (simp add: c bytes_of_commands)
qed

lemma set_cli_terminates:
  assumes "shell_wf sh"
  shows "if length (line sh) < 256
    then set_cli (cli_len sh) 0 sh = Inr (sh\<lparr>cli := (cli sh)[length (line sh) := 0]\<rparr>) \<and>
      closed_line (sh\<lparr>cli := (cli sh)[length (line sh) := 0]\<rparr>) (line sh)
    else set_cli (cli_len sh) 0 sh = Inl Out_of_bounds"
proof -
  have len: "length (cli sh) = 256" "0 \<notin> set (line sh)" using assms by (simp_all add: shell_wf_def)
  have n: "cli_len sh = int (length (line sh))" using length_line [OF assms] by simp
  have l: "line sh = take (length (line sh)) (cli sh)" by (simp add: line_def min_def)
  show ?thesis
  proof (cases "length (line sh) < 256")
    case True
    have "(cli sh)[length (line sh) := 0] = line sh @ 0 # drop (Suc (length (line sh))) (cli sh)"
      using True len(1) l by (metis upd_conv_take_nth_drop)
    then show ?thesis using True len n by (auto simp: set_cli_def closed_line_def)
  next
    case False
    then show ?thesis using len n by (simp add: set_cli_def)
  qed
qed

section \<open>A shell after boot\<close>

text \<open>A shell at its prompt with the keys of a word and Enter waiting.\<close>

definition waiting_kbd :: "u8 list \<Rightarrow> kbd" where
  "waiting_kbd ks = kbd_initial\<lparr>kbd_buffer :=
     (case insert_all fifo_insert (declare_fifo_queue 64) ks of Inr q \<Rightarrow> q | Inl f \<Rightarrow> declare_fifo_queue 64)\<rparr>"

definition waiting_shell :: "u8 list \<Rightarrow> shell" where
  "waiting_shell ks = \<lparr>cli = replicate 256 0, cli_len = 0, skbd = waiting_kbd ks,
     skenv = senv corner_screen, sgui = gui_start (\<lambda>_. 0) (senv corner_screen)\<rparr>"

lemma waiting_kbd_facts:
  assumes "length ks \<le> 63"
  shows "kbd_wf (waiting_kbd ks)" "fifo_list (kbd_buffer (waiting_kbd ks)) = ks"
proof -
  have d: "fifo_wf (declare_fifo_queue 64)" "fifo_list (declare_fifo_queue 64) = []"
    "fifo_capacity (declare_fifo_queue 64) = 63"
    by (simp_all add: declare_fifo_queue_facts c_int_defs)
  from kq.insert_all_take [OF d(1), of ks] obtain q where q: "insert_all fifo_insert (declare_fifo_queue 64) ks = Inr q"
    "fifo_list q = ks" "fifo_capacity q = 63" "fifo_wf q"
    using d assms by auto
  then have "fsize q = 64" by (simp add: fifo_capacity_def)
  with q show "kbd_wf (waiting_kbd ks)" "fifo_list (kbd_buffer (waiting_kbd ks)) = ks"
    by (simp_all add: waiting_kbd_def kbd_wf_def kbd_initial_def)
qed

lemma waiting_shell_facts:
  assumes "length ks \<le> 63"
  shows "shell_wf (waiting_shell ks)" "line (waiting_shell ks) = []" "queue (waiting_shell ks) = ks"
  using waiting_kbd_facts [OF assms] by (auto simp: waiting_shell_def shell_views)

text \<open>
  C26. Enter runs the typed line as a command: the chain of comparisons of \<open>parse_cli\<close> is one
  look-up of the line in the table of commands, which returns 1 for the commands that print
  their text and 0 for \<^verbatim>\<open>dump\<close> and for every line that is no command. A line that fills
  \<^verbatim>\<open>cli\<close> has its terminating zero written behind the buffer.
\<close>
theorem parse_cli_looks_up_command:
  assumes "shell_wf sh"
  shows "parse_cli rs sh =
    (if length (line sh) < 256
     then exec_command rs (command_of (line sh)) (sh\<lparr>cli := (cli sh)[length (line sh) := 0]\<rparr>)
     else Inl Out_of_bounds)"
  using set_cli_terminates [OF assms] parse_cli_closed [of sh _ "line sh" rs]
  by (auto simp: parse_cli_def split: if_splits)

text \<open>Enter on an empty line: no command, nothing happens.\<close>

theorem parse_cli_looks_up_command_witness:
  "\<exists>sh'. parse_cli [] (waiting_shell []) = Inr (Returned 0, sh') \<and> cli_len sh' = 0"
proof -
  have "command_of [] = None" by (simp add: command_of_def command_table_def bytes_of_commands)
  then show ?thesis
    using parse_cli_looks_up_command [OF waiting_shell_facts(1), of "[]" "[]"] waiting_shell_facts [of "[]"]
    by (simp add: waiting_shell_def)
qed

section \<open>Turns of the loop\<close>

lemma next_key:
  assumes "shell_wf sh" "queue sh = x # rest"
  shows "\<exists>k. kbd_keys_available (skbd sh) = 0 \<and> kbd_get_key (skbd sh) = Inr (x, k) \<and> kbd_wf k \<and>
    fifo_list (kbd_buffer k) = rest"
proof -
  have k: "kbd_wf (skbd sh)" "fifo_list (kbd_buffer (skbd sh)) = x # rest"
    using assms by (simp_all add: shell_views)
  then have wf: "fifo_wf (kbd_buffer (skbd sh))" by (simp add: kbd_wf_def)
  have a: "kbd_keys_available (skbd sh) = 0"
    using kq.is_empty_iff [OF wf] k by (simp add: kbd_keys_available_def)
  obtain q where "fifo_get (kbd_buffer (skbd sh)) 0 = Inr (0, x, q)"
    using kq.get_first [OF wf k(2), of 0] by blast
  then have "kbd_get_key (skbd sh) = Inr (x, (skbd sh)\<lparr>kbd_buffer := q\<rparr>)" by (simp add: kbd_get_key_def)
  then show ?thesis using kbd_get_key_spec [OF k(1) a] a k(2) by auto
qed

lemma empty_queue_idles:
  assumes "shell_wf sh" "queue sh = []"
  shows "lsh_step rs sh = Inr (Running sh)"
proof -
  have "fifo_wf (kbd_buffer (skbd sh))" "fifo_list (kbd_buffer (skbd sh)) = []"
    using assms by (simp_all add: shell_views kbd_wf_def)
  then have "kbd_keys_available (skbd sh) = 1"
    using kq.is_empty_iff by (simp add: kbd_keys_available_def)
  then show ?thesis by (simp add: lsh_step_def)
qed

text \<open>The line editor the loop is meant to be: backspace, tab and every other key but Enter.\<close>

definition edit :: "u8 \<Rightarrow> u8 list \<Rightarrow> u8 list" where
  "edit x l = (if x = 8 then butlast l else if x = 9 then l else l @ [x])"

lemma butlast_line: "0 < cli_len sh \<Longrightarrow> cli_len sh \<le> int (length (cli sh)) \<Longrightarrow>
    butlast (line sh) = take (nat (cli_len sh - 1)) (cli sh)"
  by (simp add: line_def butlast_take nat_diff_distrib')

lemma step_edits:
  assumes "shell_wf sh" "queue sh = x # rest" "x \<notin> {0, 10}"
  shows "if length (edit x (line sh)) \<le> 256
    then \<exists>sh'. lsh_step rs sh = Inr (Running sh') \<and> shell_wf sh' \<and> line sh' = edit x (line sh) \<and> queue sh' = rest
    else lsh_step rs sh = Inl Out_of_bounds"
proof -
  obtain k where k: "kbd_keys_available (skbd sh) = 0" "kbd_get_key (skbd sh) = Inr (x, k)" "kbd_wf k"
    "fifo_list (kbd_buffer k) = rest"
    using next_key [OF assms(1,2)] by blast
  have wf: "length (cli sh) = 256" "0 \<le> cli_len sh" "cli_len sh \<le> 256" "0 \<notin> set (line sh)"
    "\<exists>m e. sgui sh = gui_start m e"
    using assms(1) by (simp_all add: shell_wf_def)
  have n: "int (length (line sh)) = cli_len sh" by (rule length_line [OF assms(1)])
  consider "x = 8" | "x = 9" | "x \<notin> {0, 8, 9, 10}" using assms(3) by blast
  then show ?thesis
  proof cases
    case 1
    show ?thesis
    proof (cases "cli_len sh = 0")
      case True
      then show ?thesis using 1 k wf n by (simp add: lsh_step_def edit_def shell_views)
    next
      case False
      have "0 \<notin> set (butlast (line sh))" using wf(4) in_set_butlastD by fastforce
      moreover have "butlast (line sh) = take (nat (cli_len sh - 1)) (cli sh)"
        using False wf by (intro butlast_line) auto
      ultimately show ?thesis
        using 1 k wf False by (auto simp: lsh_step_def edit_def shell_views)
    qed
  next
    case 2
    then show ?thesis using k wf by (auto simp: lsh_step_def edit_def shell_views)
  next
    case 3
    show ?thesis
    proof (cases "length (line sh) < 256")
      case True
      have Suc: "nat (cli_len sh + 1) = Suc (nat (cli_len sh))" using wf(2) by simp
      from True have "take (nat (cli_len sh + 1)) ((cli sh)[nat (cli_len sh) := x]) = line sh @ [x]"
        using wf n Suc by (simp add: line_def take_Suc_conv_app_nth)
      moreover have "cli_len sh < 256" using True n by linarith
      ultimately show ?thesis
        using 3 k wf by (simp add: lsh_step_def set_cli_def edit_def shell_views Let_def)
    next
      case False
      then have "\<not> nat (cli_len sh) < 256" using n by linarith
      then show ?thesis
        using False 3 k wf by (simp add: lsh_step_def set_cli_def edit_def Let_def)
    qed
  qed
qed

lemma show_cmdline_wf:
  assumes "length (cli sh) = 256" "kbd_wf (skbd sh)" "sgui sh = gui_start m e"
  shows "\<exists>sh'. show_cmdline sh = Inr sh' \<and> shell_wf sh' \<and> line sh' = [] \<and> skbd sh' = skbd sh"
  using assms by (auto simp: show_cmdline_def set_cli_def Let_def shell_views)

lemma step_enter:
  assumes "shell_wf sh" "queue sh = 10 # rest"
  shows "if length (line sh) < 256
    then \<exists>sh1. closed_line sh1 (line sh) \<and> length (cli sh1) = 256 \<and> kbd_wf (skbd sh1) \<and> queue sh1 = rest \<and>
      sgui sh1 = sgui sh \<and> klog (skenv sh1) = klog (skenv sh) @ [Kprintf ''\<newline>'' []] \<and>
      lsh_step rs sh = res_bind (exec_command rs (command_of (line sh)) sh1) (\<lambda>(r, sh'). case r of
        Returned v \<Rightarrow> res_bind (show_cmdline sh') (\<lambda>sh'. Inr (Running sh'))
      | Cpu_halted \<Rightarrow> Inr (Stopped sh') | In_gui \<Rightarrow> Inr (Stopped sh'))
    else lsh_step rs sh = Inl Out_of_bounds"
proof -
  obtain k where k: "kbd_keys_available (skbd sh) = 0" "kbd_get_key (skbd sh) = Inr (10, k)" "kbd_wf k"
    "fifo_list (kbd_buffer k) = rest"
    using next_key [OF assms] by blast
  let ?sh = "say ''\<newline>'' [] (sh\<lparr>skbd := k\<rparr>)"
  have wf: "shell_wf ?sh" and l: "line ?sh = line sh"
    using assms(1) k(3) by (simp_all add: shell_views)
  have step: "lsh_step rs sh = res_bind (parse_cli rs ?sh) (\<lambda>(r, sh'). case r of
        Returned v \<Rightarrow> res_bind (show_cmdline sh') (\<lambda>sh'. Inr (Running sh'))
      | Cpu_halted \<Rightarrow> Inr (Stopped sh') | In_gui \<Rightarrow> Inr (Stopped sh'))"
    using k by (simp add: lsh_step_def)
  show ?thesis
  proof (cases "length (line sh) < 256")
    case True
    let ?sh1 = "?sh\<lparr>cli := (cli ?sh)[length (line sh) := 0]\<rparr>"
    have t: "set_cli (cli_len ?sh) 0 ?sh = Inr ?sh1" "closed_line ?sh1 (line sh)"
      using set_cli_terminates [OF wf] True l by (simp_all del: say_simps)
    have "lsh_step rs sh = res_bind (exec_command rs (command_of (line sh)) ?sh1) (\<lambda>(r, sh'). case r of
        Returned v \<Rightarrow> res_bind (show_cmdline sh') (\<lambda>sh'. Inr (Running sh'))
      | Cpu_halted \<Rightarrow> Inr (Stopped sh') | In_gui \<Rightarrow> Inr (Stopped sh'))"
      unfolding step parse_cli_closed [OF t] ..
    moreover have "length (cli ?sh1) = 256" "kbd_wf (skbd ?sh1)" "queue ?sh1 = rest" "sgui ?sh1 = sgui sh"
      "klog (skenv ?sh1) = klog (skenv sh) @ [Kprintf ''\<newline>'' []]"
      using wf k by (simp_all add: shell_views say_def kprintf_call_def)
    ultimately show ?thesis using t(2) True by (auto intro!: exI [of _ ?sh1])
  next
    case False
    then have "set_cli (cli_len ?sh) 0 ?sh = Inl Out_of_bounds"
      using set_cli_terminates [OF wf] l by (simp del: say_simps)
    then show ?thesis using False by (simp add: step parse_cli_def)
  qed
qed

text \<open>What a command leaves: the loop goes on with an empty line, or has ended.\<close>

lemma gui_init_from_start: "\<exists>g. GUI_Init ((gui_start m e)\<lparr>genv := e'\<rparr>) = Inr g"
proof -
  let ?g = "(gui_start m e)\<lparr>genv := VBE_SetVideoMode 800 600 32 e'\<rparr>"
  have clear: "?g\<lparr>window := map (\<lambda>w. w\<lparr>win_id := 0\<rparr>) (window ?g)\<rparr> = ?g"
    by (simp add: gui_start_def null_window_def)
  have "gui_wf 0 ?g" using gui_wf_start [of m e] by (simp add: gui_wf_def)
  then obtain g1 where g1: "GUI_CreateWindow 160 160 480 380 ?g = Inr (1, g1)" "gui_wf 1 g1"
    using GUI_CreateWindow_wf [of 0 ?g 160 160 480 380] by auto
  then obtain g2 where "GUI_CreateWindow 200 200 520 420 g1 = Inr (2, g2)"
    using GUI_CreateWindow_wf [of 1 g1 200 200 520 420] by auto
  then show ?thesis
    unfolding GUI_Init_def using g1 clear by (simp add: Let_def)
qed

lemma exec_command_total:
  assumes "length (cli sh) = 256" "kbd_wf (skbd sh)" "sgui sh = gui_start m e"
  shows "(\<exists>v sh' sh''. exec_command rs c sh = Inr (Returned v, sh') \<and> show_cmdline sh' = Inr sh'' \<and>
      shell_wf sh'' \<and> line sh'' = [] \<and> queue sh'' = queue sh) \<or>
    (\<exists>sh'. c = Some Halt_processor \<and> exec_command rs c sh = Inr (Cpu_halted, sh')) \<or>
    (\<exists>sh'. c = Some Start_gui \<and> exec_command rs c sh = Inr (In_gui, sh'))"
proof -
  have ret: "\<exists>sh''. show_cmdline sh' = Inr sh'' \<and> shell_wf sh'' \<and> line sh'' = [] \<and> queue sh'' = queue sh"
    if "cli sh' = cli sh" "skbd sh' = skbd sh" "sgui sh' = sgui sh" for sh'
    using show_cmdline_wf [of sh' m e] that assms by (auto simp: queue_def)
  consider "c = None" | fs where "c = Some (Print fs)" | "c = Some Dump" | "c = Some Halt_processor"
    | "c = Some Start_gui"
    by (metis command.exhaust option.exhaust)
  then show ?thesis
  proof cases
    case 5
    obtain g where "GUI_Init ((sgui sh)\<lparr>genv := skenv sh\<rparr>) = Inr g"
      using gui_init_from_start assms(3) by metis
    then show ?thesis using 5 by (simp add: do_gui_def)
  qed (use ret in \<open>auto simp: return_1_def do_halt_def\<close>)
qed

lemma step_zero:
  assumes "shell_wf sh" "queue sh = 0 # rest"
  shows "\<exists>sh'. lsh_step rs sh = Inr (Running sh') \<and> shell_wf sh' \<and> line sh' = line sh \<and> queue sh' = rest"
proof -
  obtain k where "kbd_keys_available (skbd sh) = 0" "kbd_get_key (skbd sh) = Inr (0, k)" "kbd_wf k"
    "fifo_list (kbd_buffer k) = rest"
    using next_key [OF assms] by blast
  then show ?thesis using assms(1) by (auto simp: lsh_step_def shell_views)
qed

text \<open>Every turn of a whole shell keeps it whole, ends the loop, or overruns a full line.\<close>

lemma step_safe:
  assumes "shell_wf sh"
  shows "(\<exists>sh'. lsh_step rs sh = Inr (Running sh') \<and> shell_wf sh') \<or>
    (\<exists>sh'. lsh_step rs sh = Inr (Stopped sh') \<and> command_of (line sh) \<in> {Some Halt_processor, Some Start_gui}) \<or>
    (lsh_step rs sh = Inl Out_of_bounds \<and> length (line sh) = 256)"
proof -
  have n: "length (line sh) \<le> 256" using length_line [OF assms] assms by (simp add: shell_wf_def)
  consider "queue sh = []" | rest where "queue sh = 0 # rest" | rest where "queue sh = 10 # rest"
    | x rest where "queue sh = x # rest" "x \<notin> {0, 10}"
    by (metis insertE empty_iff neq_Nil_conv)
  then show ?thesis
  proof cases
    case 1
    then show ?thesis using empty_queue_idles [OF assms] assms by simp
  next
    case 2
    then show ?thesis using step_zero [OF assms] by blast
  next
    case 3
    show ?thesis
    proof (cases "length (line sh) < 256")
      case True
      obtain sh1 where sh1: "length (cli sh1) = 256" "kbd_wf (skbd sh1)" "sgui sh1 = sgui sh"
        "lsh_step rs sh = res_bind (exec_command rs (command_of (line sh)) sh1) (\<lambda>(r, sh'). case r of
          Returned v \<Rightarrow> res_bind (show_cmdline sh') (\<lambda>sh'. Inr (Running sh'))
        | Cpu_halted \<Rightarrow> Inr (Stopped sh') | In_gui \<Rightarrow> Inr (Stopped sh'))"
        using step_enter [OF assms 3, of rs] True by auto
      obtain m e where "sgui sh1 = gui_start m e" using sh1(3) assms by (auto simp: shell_wf_def)
      from exec_command_total [OF sh1(1,2) this, of rs "command_of (line sh)"] show ?thesis
        using sh1(4) by auto
    next
      case False
      then show ?thesis using step_enter [OF assms 3, of rs] n by simp
    qed
  next
    case 4
    have "length (edit x (line sh)) \<le> 256 \<or> length (line sh) = 256" using n by (auto simp: edit_def)
    then show ?thesis
      using step_edits [OF assms 4, of rs] n by (auto simp: edit_def split: if_splits)
  qed
qed

text \<open>
  C27. A key typed at the prompt edits the line: backspace drops the last byte, tab does nothing,
  Enter aside every other key is appended, and the rest of the keyboard queue waits. The one
  exception is a key typed into a line of 256 bytes, which is stored behind \<^verbatim>\<open>cli\<close>.
\<close>
theorem lsh_step_edits_line:
  assumes "shell_wf sh" "queue sh = x # rest" "x \<notin> {0, 10}"
  shows "if length (edit x (line sh)) \<le> 256
    then \<exists>sh'. lsh_step rs sh = Inr (Running sh') \<and> shell_wf sh' \<and> line sh' = edit x (line sh) \<and> queue sh' = rest
    else lsh_step rs sh = Inl Out_of_bounds"
  using assms by (rule step_edits)

theorem lsh_step_edits_line_witness:
  "\<exists>sh'. lsh_step [] (waiting_shell [97, 8]) = Inr (Running sh') \<and> line sh' = [97] \<and> queue sh' = [8]"
  using lsh_step_edits_line [of "waiting_shell [97, 8]" 97 "[8]" "[]"] waiting_shell_facts [of "[97, 8]"]
  by (auto simp: edit_def)

lemma turns_safe:
  assumes "shell_wf sh"
  shows "case lsh_turns n rs sh of
      Inr (Running sh') \<Rightarrow> shell_wf sh'
    | Inr (Stopped sh') \<Rightarrow> \<exists>k<n. \<exists>sh1. lsh_turns k rs sh = Inr (Running sh1) \<and>
        command_of (line sh1) \<in> {Some Halt_processor, Some Start_gui}
    | Inl f \<Rightarrow> f = Out_of_bounds \<and>
        (\<exists>k<n. \<exists>sh1. lsh_turns k rs sh = Inr (Running sh1) \<and> length (line sh1) = 256)"
  using assms
proof (induction n arbitrary: sh)
  case (Suc n)
  have first: "lsh_turns 0 rs sh = Inr (Running sh)" by simp
  consider sh' where "lsh_step rs sh = Inr (Running sh')" "shell_wf sh'"
    | sh' where "lsh_step rs sh = Inr (Stopped sh')" "command_of (line sh) \<in> {Some Halt_processor, Some Start_gui}"
    | "lsh_step rs sh = Inl Out_of_bounds" "length (line sh) = 256"
    using step_safe [OF Suc.prems] by blast
  then show ?case
  proof cases
    case 1
    have later: "lsh_turns (Suc k) rs sh = lsh_turns k rs sh'" for k using 1(1) by simp
    show ?thesis
      using Suc.IH [OF 1(2)] unfolding later
      by (auto split: sum.splits outcome.splits) (metis later Suc_less_eq)+
  next
    case 2
    then show ?thesis using first by (auto intro!: exI [of _ 0])
  next
    case 3
    then show ?thesis using first by (auto intro!: exI [of _ 0])
  qed
qed simp

text \<open>
  C25. From a whole shell, any number of turns of the loop of \<open>lsh_loop\<close> keeps the line within its
  buffer and the keyboard queue well-formed. The loop ends only by running \<^verbatim>\<open>halt\<close> or
  \<^verbatim>\<open>gui\<close>, and it faults only on a key typed into a line of 256 bytes.
\<close>
theorem lsh_turns_safe:
  assumes "shell_wf sh"
  shows "case lsh_turns n rs sh of
      Inr (Running sh') \<Rightarrow> shell_wf sh'
    | Inr (Stopped sh') \<Rightarrow> \<exists>k<n. \<exists>sh1. lsh_turns k rs sh = Inr (Running sh1) \<and>
        command_of (line sh1) \<in> {Some Halt_processor, Some Start_gui}
    | Inl f \<Rightarrow> f = Out_of_bounds \<and>
        (\<exists>k<n. \<exists>sh1. lsh_turns k rs sh = Inr (Running sh1) \<and> length (line sh1) = 256)"
  using assms by (rule turns_safe)

theorem lsh_turns_safe_witness:
  "case lsh_turns 7 [] (waiting_shell [108, 115, 10]) of
      Inr (Running sh') \<Rightarrow> shell_wf sh'
    | Inr (Stopped sh') \<Rightarrow> \<exists>k<7. \<exists>sh1. lsh_turns k [] (waiting_shell [108, 115, 10]) = Inr (Running sh1) \<and>
        command_of (line sh1) \<in> {Some Halt_processor, Some Start_gui}
    | Inl f \<Rightarrow> f = Out_of_bounds \<and> (\<exists>k<7. \<exists>sh1.
        lsh_turns k [] (waiting_shell [108, 115, 10]) = Inr (Running sh1) \<and> length (line sh1) = 256)"
  by (rule lsh_turns_safe) (simp add: waiting_shell_facts)

lemma turns_edit:
  assumes "shell_wf sh" "queue sh = t @ rest" "set t \<inter> {0, 8, 9, 10} = {}" "length (line sh) + length t \<le> 256"
  shows "\<exists>sh'. lsh_turns (length t) rs sh = Inr (Running sh') \<and> shell_wf sh' \<and> line sh' = line sh @ t \<and> queue sh' = rest"
  using assms
proof (induction t arbitrary: sh)
  case (Cons x t)
  have x: "x \<notin> {0, 10}" "edit x (line sh) = line sh @ [x]" using Cons.prems(3) by (auto simp: edit_def)
  obtain sh1 where sh1: "lsh_step rs sh = Inr (Running sh1)" "shell_wf sh1" "line sh1 = line sh @ [x]" "queue sh1 = t @ rest"
    using step_edits [OF Cons.prems(1) _ x(1), of "t @ rest" rs] Cons.prems x(2) by auto
  then show ?case using Cons.IH [OF sh1(2,4)] Cons.prems by auto
qed simp

lemma turns_append:
  "lsh_turns (a + b) rs sh = res_bind (lsh_turns a rs sh) (\<lambda>r.
     case r of Running sh' \<Rightarrow> lsh_turns b rs sh' | Stopped sh' \<Rightarrow> Inr (Stopped sh'))"
proof (induction a arbitrary: sh)
  case (Suc a)
  then show ?case by (cases "lsh_step rs sh") (auto split: outcome.split)
qed simp

text \<open>
  A command typed at an empty prompt, with Enter, that is waiting in the keyboard queue is
  executed as typed: after one turn per key the shell has run the command the table gives for
  that text, on its line, with the echo of Enter printed and nothing left in the queue.
\<close>
theorem typed_command_is_executed:
  assumes "shell_wf sh" "line sh = []" "queue sh = t @ [10]" "set t \<inter> {0, 8, 9, 10} = {}"
  shows "\<exists>sh1. closed_line sh1 t \<and> queue sh1 = [] \<and>
    lsh_turns (length t + 1) rs sh = res_bind (exec_command rs (command_of t) sh1) (\<lambda>(r, sh'). case r of
        Returned v \<Rightarrow> res_bind (show_cmdline sh') (\<lambda>sh'. Inr (Running sh'))
      | Cpu_halted \<Rightarrow> Inr (Stopped sh') | In_gui \<Rightarrow> Inr (Stopped sh'))"
proof -
  have "length (t @ [10]) \<le> 63"
    using assms(1) kq.length_le [of "kbd_buffer (skbd sh)"] unfolding assms(3) [symmetric]
    by (simp add: shell_wf_def kbd_wf_def queue_def fifo_capacity_def)
  then have len: "length t \<le> 62" by simp
  obtain sh' where sh': "lsh_turns (length t) rs sh = Inr (Running sh')" "shell_wf sh'" "line sh' = t" "queue sh' = [10]"
    using turns_edit [OF assms(1,3,4), of rs] assms(2) len by auto
  obtain sh1 where "closed_line sh1 t" "queue sh1 = []"
    "lsh_step rs sh' = res_bind (exec_command rs (command_of t) sh1) (\<lambda>(r, sh'). case r of
        Returned v \<Rightarrow> res_bind (show_cmdline sh') (\<lambda>sh'. Inr (Running sh'))
      | Cpu_halted \<Rightarrow> Inr (Stopped sh') | In_gui \<Rightarrow> Inr (Stopped sh'))"
    using step_enter [OF sh'(2,4), of rs] sh'(3) len by auto
  then show ?thesis
    unfolding turns_append [of "length t" 1] sh'(1)
    by (intro exI [of _ sh1]) (simp add: res_bind_def split: sum.split outcome.split prod.split)
qed

text \<open>Typing \<^verbatim>\<open>halt\<close> stops the machine.\<close>

theorem typed_command_is_executed_witness:
  "\<exists>sh'. lsh_turns 5 [] (waiting_shell [104, 97, 108, 116, 10]) = Inr (Stopped sh')"
proof -
  have "command_of [104, 97, 108, 116] = Some Halt_processor"
    by (simp add: command_of_def command_table_def bytes_of_commands)
  moreover have n: "length [104, 97, 108, 116 :: u8] + 1 = 5" by simp
  ultimately show ?thesis
    using typed_command_is_executed [of "waiting_shell [104, 97, 108, 116, 10]" "[104, 97, 108, 116]" "[]"]
      waiting_shell_facts [of "[104, 97, 108, 116, 10]"]
    unfolding n by (auto simp: do_halt_def)
qed

end
