(* ===== verification/Kernel.thy ===== *)
theory Kernel
  imports Heap_End Descriptors Keyboard Video Shell
begin

text \<open>
  \<^verbatim>\<open>kmain\<close> of \<^verbatim>\<open>kernel.c\<close>: the order in which the kernel brings up its parts, on the state of all of them.
  The values the compiler and the linker provide are in \<open>boot_info\<close>. No
  interrupt arrives before the shell runs. \<^verbatim>\<open>panic_assert\<close> of \<^verbatim>\<open>common.c\<close> is here too.
\<close>

section \<open>The state of the kernel\<close>

datatype handler = Page_fault | Timer_callback | Keyboard_callback

record boot_info =
  build_date :: string
  build_time :: string
  isr_stub :: "nat \<Rightarrow> u32"
  irq_stub :: "nat \<Rightarrow> u32"
  gdt_at :: u32
  idt_at :: u32
  end_at :: u32
  kheap_at :: u32

text \<open>
  What the boot loader leaves in memory (\<^verbatim>\<open>multiboot.h\<close>), of which \<^verbatim>\<open>kmain\<close> reads one field. Both
  alternatives of the union \<^verbatim>\<open>u\<close> are four words.
\<close>

record multiboot_info =
  flags :: u32
  mem_lower :: u32
  mem_upper :: u32
  boot_device :: u32
  cmdline :: u32
  mods_count :: u32
  mods_addr :: u32
  syms :: "u32 \<times> u32 \<times> u32 \<times> u32"
  mmap_length :: u32
  mmap_addr :: u32
  drives_length :: u32
  drives_addr :: u32
  config_table :: u32
  boot_loader_name :: u32
  apm_table :: u32
  vbe_control_info :: u32
  vbe_mode_info :: u32
  vbe_mode :: u16
  vbe_interface_seg :: u16
  vbe_interface_off :: u16
  vbe_interface_len :: u16

definition load16 :: "mem \<Rightarrow> u32 \<Rightarrow> u16" where
  "load16 m p = ucast (m p) OR push_bit 8 (ucast (m (p + 1)))"

definition multiboot_info_at :: "mem \<Rightarrow> u32 \<Rightarrow> multiboot_info" where
  "multiboot_info_at m p =
     \<lparr>flags = load32 m p, mem_lower = load32 m (p + 4), mem_upper = load32 m (p + 8),
      boot_device = load32 m (p + 12), cmdline = load32 m (p + 16), mods_count = load32 m (p + 20),
      mods_addr = load32 m (p + 24),
      syms = (load32 m (p + 28), load32 m (p + 32), load32 m (p + 36), load32 m (p + 40)),
      mmap_length = load32 m (p + 44), mmap_addr = load32 m (p + 48),
      drives_length = load32 m (p + 52), drives_addr = load32 m (p + 56),
      config_table = load32 m (p + 60), boot_loader_name = load32 m (p + 64), apm_table = load32 m (p + 68),
      vbe_control_info = load32 m (p + 72), vbe_mode_info = load32 m (p + 76),
      vbe_mode = load16 m (p + 80), vbe_interface_seg = load16 m (p + 82),
      vbe_interface_off = load16 m (p + 84), vbe_interface_len = load16 m (p + 86)\<rparr>"

record machine =
  vga :: screen
  cpu_state :: cpu
  gdt_table :: "gdt_entry list"
  idt_table :: "idt_entry list"
  handler_table :: "handler handlers"
  kstate :: kst
  interrupts :: bool

text \<open>A failed assertion: the report, then an endless loop.\<close>

definition panic_assert :: "string \<Rightarrow> u32 \<Rightarrow> string \<Rightarrow> env \<Rightarrow> env outcome" where
  "panic_assert file line_no desc e =
     (let e = kprintf_call ''ASSERTION FAILED('' [] e;
          e = kprintf_call ''%s'' [ArgStr desc] e;
          e = kprintf_call '') at '' [] e;
          e = kprintf_call ''%s'' [ArgStr file] e;
          e = kprintf_call '':'' [] e;
          e = kprintf_call ''%d'' [ArgInt line_no] e;
          e = kprintf_call ''OPERATING SYSTEM HALTED\<newline>'' [] e
      in Stopped e)"

text \<open>The line \<^verbatim>\<open>kmain\<close> prints three times about the heap.\<close>

definition report_heap :: "u32 \<Rightarrow> kst \<Rightarrow> kst res" where
  "report_heap kheap_addr st = with_heap st (\<lambda>h.
     Inr (klog_kst ''&kheap: %x kheap->start %x kheap->end %x\<newline>''
       [ArgInt kheap_addr, ArgInt (start_address h), ArgInt (end_address h)] st))"

text \<open>The test of the heap \<^verbatim>\<open>kmain\<close> makes: a block of 8 bytes on a page, and back.\<close>

definition heap_test :: "nat \<Rightarrow> boot_info \<Rightarrow> kst \<Rightarrow> kst res" where
  "heap_test fuel b st =
     (let st = klog_kst ''kernel ends at: %x\<newline>'' [ArgInt (end_at b)] st
      in res_bind (report_heap (kheap_at b) st) (\<lambda>st.
         res_bind (kmalloc_int fuel 8 1 False st) (\<lambda>(addr, ph, st).
         res_bind (report_heap (kheap_at b) st) (\<lambda>st.
         res_bind (kfree (kmalloc_ap fuel) addr st) (\<lambda>st.
         report_heap (kheap_at b) st)))))"

definition kmain_init :: "nat \<Rightarrow> boot_info \<Rightarrow> u32 \<Rightarrow> machine \<Rightarrow> machine res" where
  "kmain_init fuel b mbi m =
     res_bind (Video_Init (build_date b) (build_time b) (vga m)) (\<lambda>scr.
     res_bind (GDT_Init (gdt_at b) (kenv (kstate m)) (cpu_state m)) (\<lambda>(gdt, e, c).
     res_bind (IDT_Init (isr_stub b) (irq_stub b) (idt_at b) e c) (\<lambda>(idt, e, c).
     res_bind (paging_init fuel Page_fault (mem_upper (multiboot_info_at (kmem (kstate m)) mbi)) (handler_table m) ((kstate m)\<lparr>kenv := e\<rparr>)) (\<lambda>(hs, st).
     res_bind (heap_install fuel st) (\<lambda>st.
     res_bind (heap_test fuel b st) (\<lambda>st.
     let m = m\<lparr>interrupts := True\<rparr>
     in res_bind (timer_init Timer_callback 50 hs (kenv st)) (\<lambda>(hs, e).
     let (hs, e) = keyboard_init Keyboard_callback hs e
     in Inr (m\<lparr>vga := scr, cpu_state := c, gdt_table := gdt, idt_table := idt, handler_table := hs,
          kstate := st\<lparr>kenv := e\<rparr>\<rparr>))))))))"

text \<open>\<open>turns\<close> turns of the shell, whose variables are \<open>sh\<close>.\<close>

definition kmain :: "nat \<Rightarrow> nat \<Rightarrow> boot_info \<Rightarrow> u32 list \<Rightarrow> u32 \<Rightarrow> machine \<Rightarrow> shell \<Rightarrow> shell outcome res" where
  "kmain fuel turns b rs mbi m sh =
     res_bind (kmain_init fuel b mbi m) (\<lambda>m. lsh_loop turns rs (sh\<lparr>skenv := kenv (kstate m)\<rparr>))"

section \<open>The greeting\<close>

lemma kprintf_loop_step:
  assumes "\<And>s. \<exists>s'. kprintf_loop str args s = Inr s'" "c \<noteq> CHR ''%''"
  shows "\<exists>s'. kprintf_loop (c # str) args s = Inr s'"
  using assms by simp

lemma kprintf_loop_string:
  assumes "\<And>s. \<exists>s'. kprintf_loop str args s = Inr s'" "length t < 20"
  shows "\<exists>s'. kprintf_loop (CHR ''%'' # CHR ''s'' # str) (ArgStr t # args) s = Inr s'"
  using assms by (simp add: is_conversion_def convert_def)

lemma Video_Init_runs:
  assumes "length date < 20" "length time < 20"
  shows "\<exists>s'. Video_Init date time s = Inr s'"
proof -
  have "\<exists>s'. kprintf ''Starting GekonOS...\<newline>'' [] s = Inr s'" for s
    by (rule kprintf_no_percent) simp
  moreover have "\<exists>s'. kprintf ''Initializing Video Text Mode...\<newline>'' [] s = Inr s'" for s
    by (rule kprintf_no_percent) simp
  moreover have "\<exists>s'. kprintf_loop ''(build: %s %s)\<newline>\<newline>'' [ArgStr date, ArgStr time] s = Inr s'" for s
    by (intro kprintf_loop_step kprintf_loop_string assms)
      (simp_all add: kprintf_loop.simps(1))
  then have "\<exists>s'. kprintf ''(build: %s %s)\<newline>\<newline>'' [ArgStr date, ArgStr time] s = Inr s'" for s
    unfolding kprintf_def by (metis res_bind_Inr)
  ultimately show ?thesis
    unfolding Video_Init_def Let_def by (metis res_bind_Inr)
qed

section \<open>The test of the heap\<close>

lemma heap_area_klog: "heap_area N c st \<Longrightarrow> N \<le> 8192 \<Longrightarrow> heap_area N c (klog_kst f as st)"
  by (erule heap_area_keep) simp_all

text \<open>The block the test gets, on the heap at boot.\<close>

lemma test_block:
  assumes "heap_inv st [(True, 0x7F000)]" "kheap st = Some h" "heap_area N 256 st"
    and "start_address h = 0x01081000" "end_address h = 0x01100000" "array (index h) = 0x01000000"
    and "max_size (index h) = 0x20000" "N \<le> 8192"
  shows "\<exists>st' a. kmalloc_int (Suc (Suc f)) 8 1 False st = Inr (0x01082000, 0, st') \<and>
    heap_inv st' [(True, 4084), (False, 28), (True, 0x7DFF0)] \<and> kheap st' = Some (h\<lparr>index := a\<rparr>) \<and>
    array a = 0x01000000 \<and> heap_area N 256 st'"
proof -
  have inv: "heap_inv st ([] @ (True, 0x7F000) # [])" using assms(1) by simp
  have one: "oa_size (index h) = 1" "oa_list (index h) (kmem st) = [0x01081000]"
    using one_hole_index [OF assms(1,2), of "0x01081000"] assms(4) by simp_all
  have "hdr (kmem st) 0x01081000 True 0x7F000"
    using assms(1,2,4) tiles_block(4) [of "kmem st" "0x01081000" "[]" True "0x7F000" "[]"] by (auto elim!: heap_invE)
  then have "get_size (kmem st) (of_nat 0x01081000) = of_nat 0x7F000" by (simp add: hdr_def)
  from hole_fits_aligned [OF _ _ _ this, of 28] have "hole_fits 28 1 (kmem st) 0x01081000 = Inr True"
    by simp
  then have f: "find_smallest_hole 28 1 st = Inr 0"
    by (intro find_only_hole [OF assms(2) one(1)]) (simp_all add: one(2))
  have args: "find_smallest_hole (8 + 12 + 8) 1 st = Inr 0" "0 < oa_size (index h)"
    "oa_list (index h) (kmem st) ! unat (0 :: u32) = of_nat 0x01081000"
    "0x01081000 = unat (start_address h) + room []" "(4096 :: nat) \<le> 0x01081000" "0x01081000 < (2 :: nat) ^ 31"
    "0x01081000 mod 4096 \<le> (4064 :: nat)" "4084 = front 0x01081000"
    "28 = unat (8 :: u32) + 20" "4084 + 28 + 20 \<le> (0x7F000 :: nat)" "oa_size (index h) < max_size (index h)"
    using f by (simp_all add: assms(4,7) one front_def)
  from alloc_aligned_split [OF inv assms(2) args, of f] obtain st1 a where st1:
    "alloc (Suc f) 8 1 st = Inr (of_nat (0x01081000 + 4084 + 12), st1)"
    "heap_inv st1 ([] @ [(True, 4084), (False, 28), (True, 0x7F000 - 4084 - 28)] @ [])"
    "kheap st1 = Some (h\<lparr>index := a\<rparr>)" "array a = array (index h)"
    "st1 = st\<lparr>kmem := kmem st1, kheap := kheap st1\<rparr>"
    "same_on 0 (unat (array (index h))) (kmem st) (kmem st1)"
    by (elim exE conjE) (rule that)
  have "heap_area N 256 st1"
  proof (rule heap_area_keep [OF assms(3,8)])
    show "same_on 0 0x01000000 (kmem st) (kmem st1)" using st1(6) assms(6) by simp
  qed (subst st1(5), simp)+
  moreover have "kmalloc_int (Suc (Suc f)) 8 1 False st =
      Inr (0x01082000, 0, klog_kst ''kmalloc heap: %X\<newline>'' [ArgInt 0x01082000] st1)"
    using st1(1) by (simp add: assms(2) del: alloc.simps)
  ultimately show ?thesis
    using st1(2-4) assms(6,8)
    by (intro exI [of _ "klog_kst ''kmalloc heap: %X\<newline>'' [ArgInt 0x01082000] st1"] exI [of _ a])
      (simp add: heap_inv_klog heap_area_klog)
qed

lemma heap_test_runs:
  assumes "heap_inv st [(True, 0x7F000)]" "kheap st = Some h" "heap_area N 256 st"
    and "start_address h = 0x01081000" "end_address h = 0x01100000" "array (index h) = 0x01000000"
    and "max_size (index h) = 0x20000" "4628 \<le> N" "N \<le> 8192"
  shows "\<exists>st' h'. heap_test (Suc (Suc f)) b st = Inr st' \<and> heap_inv st' [(True, 0x70000)] \<and>
    heap_area N 242 st' \<and> kheap st' = Some h' \<and> start_address h' = 0x01081000 \<and> end_address h' = 0x010F1000"
proof -
  define st1 where "st1 = klog_kst ''kernel ends at: %x\<newline>'' [ArgInt (end_at b)] st"
  define rep where "rep = (\<lambda>e st. klog_kst ''&kheap: %x kheap->start %x kheap->end %x\<newline>''
       [ArgInt (kheap_at b), ArgInt 0x01081000, ArgInt e] st)"
  have report: "report_heap (kheap_at b) st = Inr (rep e st)"
    if "kheap st = Some h" "start_address h = 0x01081000" "end_address h = e" for st h e
    using that by (simp add: report_heap_def with_heap_def rep_def)
  have rep: "kheap (rep e st) = kheap st" "heap_inv (rep e st) bs = heap_inv st bs"
    "heap_area N c st \<Longrightarrow> heap_area N c (rep e st)" for e st bs c
    using assms(9) by (simp_all add: rep_def heap_inv_klog heap_area_klog)
  have "heap_inv (rep 0x01100000 st1) [(True, 0x7F000)]" "kheap (rep 0x01100000 st1) = Some h"
    "heap_area N 256 (rep 0x01100000 st1)"
    using assms(1-3,9) by (simp_all add: rep st1_def heap_inv_klog heap_area_klog)
  from test_block [OF this assms(4-7,9), of f] obtain st2 a where st2:
    "kmalloc_int (Suc (Suc f)) 8 1 False (rep 0x01100000 st1) = Inr (0x01082000, 0, st2)"
    "heap_inv st2 [(True, 4084), (False, 28), (True, 0x7DFF0)]" "kheap st2 = Some (h\<lparr>index := a\<rparr>)"
    "array a = 0x01000000" "heap_area N 256 st2"
    by blast
  have "heap_inv (rep 0x01100000 st2) [(True, 4084), (False, 28), (True, 0x7DFF0)]"
    "kheap (rep 0x01100000 st2) = Some (h\<lparr>index := a\<rparr>)" "heap_area N 256 (rep 0x01100000 st2)"
    using st2 by (simp_all add: rep)
  from free_only_block [OF this _ _ _ assms(8,9), of "kmalloc_ap (Suc (Suc f))"] assms(4,5) st2(4)
  obtain st3 h' where st3: "kfree (kmalloc_ap (Suc (Suc f))) 0x01082000 (rep 0x01100000 st2) = Inr st3"
    "kheap st3 = Some h'" "heap_inv st3 [(True, 0x70000)]" "heap_area N 242 st3"
    "start_address h' = 0x01081000" "end_address h' = 0x010F1000"
    by (auto simp: kfree_def)
  have "heap_test (Suc (Suc f)) b st = Inr (rep 0x010F1000 st3)"
    unfolding heap_test_def Let_def st1_def [symmetric]
    using st2(1,3) st3(1,2,5,6) report [of st1 h] report [of st2 "h\<lparr>index := a\<rparr>"] report [of st3 h'] assms(2,4,5)
    by (simp add: st1_def del: kmalloc_int.simps)
  then show ?thesis using st3 by (auto simp: rep)
qed

section \<open>From the boot loader to the shell\<close>

lemma kmain_init_runs:
  assumes "length (build_date b) < 20" "length (build_time b) < 20"
    and "74240 \<le> unat (mem_upper (multiboot_info_at (kmem (kstate m)) mbi))"
      "unat (mem_upper (multiboot_info_at (kmem (kstate m)) mbi)) \<le> 131072"
    and "placement_address (kstate m) = 0x200000" "kheap (kstate m) = None" "518 \<le> fuel"
  shows "\<exists>m' h. kmain_init fuel b mbi m = Inr m' \<and> interrupts m' \<and>
    handler_table m' = (handler_table m)(14 \<mapsto> Page_fault, 32 \<mapsto> Timer_callback, 33 \<mapsto> Keyboard_callback) \<and>
    gdtr (cpu_state m') = (39, gdt_at b) \<and> idtr (cpu_state m') = (2047, idt_at b) \<and>
    (\<forall>n. n < 32 \<longrightarrow> idt_decode (idt_table m' ! n) = (isr_stub b n, 0x08, 0x8E)) \<and>
    (\<forall>n. n < 16 \<longrightarrow> idt_decode (idt_table m' ! (32 + n)) = (irq_stub b n, 0x08, 0x8E)) \<and>
    heap_area 4640 242 (kstate m') \<and> heap_inv (kstate m') [(True, 0x70000)] \<and>
    kheap (kstate m') = Some h \<and> start_address h = 0x01081000 \<and> end_address h = 0x010F1000"
proof -
  define f where "f = fuel - 2"
  have f: "fuel = Suc (Suc f)" using assms(7) by (simp add: f_def)
  from Video_Init_runs [OF assms(1,2)] obtain scr where scr:
    "Video_Init (build_date b) (build_time b) (vga m) = Inr scr" by blast
  from GDT_Init_tables [of "gdt_at b" "kenv (kstate m)" "cpu_state m"] obtain gdt e1 c1 where gdt:
    "GDT_Init (gdt_at b) (kenv (kstate m)) (cpu_state m) = Inr (gdt, e1, c1)" "gdtr c1 = (39, gdt_at b)"
    by blast
  from IDT_Init_tables [of "isr_stub b" "irq_stub b" "idt_at b" e1 c1] obtain idt e2 c2 where idt:
    "IDT_Init (isr_stub b) (irq_stub b) (idt_at b) e1 c1 = Inr (idt, e2, c2)" "idtr c2 = (2047, idt_at b)"
    "\<forall>n. n < 32 \<longrightarrow> idt_decode (idt ! n) = (isr_stub b n, 0x08, 0x8E)"
    "\<forall>n. n < 16 \<longrightarrow> idt_decode (idt ! (32 + n)) = (irq_stub b n, 0x08, 0x8E)"
    by blast
  have c2: "gdtr c2 = gdtr c1" using idt(1) by (auto simp: IDT_Init_def idt_flush_def Let_def res_bind_eq_Inr)
  define st0 where "st0 = (kstate m)\<lparr>kenv := e2\<rparr>"
  have "(544 :: nat) \<le> 4640" "(4640 :: nat) mod 32 = 0" "16 * 4640 \<le> unat (mem_upper (multiboot_info_at (kmem (kstate m)) mbi))"
    "placement_address st0 = 0x200000" "kheap st0 = None"
    using assms(3,5,6) by (simp_all add: st0_def)
  from paging_init_mapped [OF this(1-3) assms(4) this(4,5) assms(7), of Page_fault "handler_table m"] obtain st1 where st1:
    "paging_init fuel Page_fault (mem_upper (multiboot_info_at (kmem (kstate m)) mbi)) (handler_table m) st0 = Inr ((handler_table m)(14 \<mapsto> Page_fault), st1)"
    "mapped 4640 517 st1" "paging_on st1" "cr3 st1 = 0x201000"
    by blast
  from heap_install_runs [OF st1(2,4,3), of "Suc f"] obtain st2 h where st2:
    "heap_install fuel st1 = Inr st2" "heap_inv st2 [(True, 0x7F000)]" "kheap st2 = Some h"
    "start_address h = 0x01081000" "end_address h = 0x01100000" "max_size (index h) = 0x20000"
    "array (index h) = 0x01000000" "heap_area 4640 256 st2"
    unfolding f by blast
  from heap_test_runs [OF st2(2,3,8,4,5,7,6), of f b] obtain st3 h' where st3:
    "heap_test fuel b st2 = Inr st3" "heap_inv st3 [(True, 0x70000)]" "heap_area 4640 242 st3"
    "kheap st3 = Some h'" "start_address h' = 0x01081000" "end_address h' = 0x010F1000"
    unfolding f by auto
  define hs where "hs = (handler_table m)(14 \<mapsto> Page_fault, 32 \<mapsto> Timer_callback)"
  obtain e3 where e3: "timer_init Timer_callback 50 ((handler_table m)(14 \<mapsto> Page_fault)) (kenv st3) = Inr (hs, e3)"
    by (simp add: timer_init_def register_interrupt_handler_def hs_def Let_def)
  obtain e4 where e4: "keyboard_init Keyboard_callback hs e3 = (hs(33 \<mapsto> Keyboard_callback), e4)"
    by (simp add: keyboard_init_def register_interrupt_handler_def)
  have area: "heap_area 4640 242 (st3\<lparr>kenv := e4\<rparr>)"
    by (rule heap_area_keep [OF st3(3)]) simp_all
  have inv: "heap_inv (st3\<lparr>kenv := e4\<rparr>) [(True, 0x70000)]"
    using st3(2) by (simp add: heap_inv_def split: option.splits)
  have run: "kmain_init fuel b mbi m = Inr (m\<lparr>vga := scr, cpu_state := c2, gdt_table := gdt, idt_table := idt,
      handler_table := hs(33 \<mapsto> Keyboard_callback), kstate := st3\<lparr>kenv := e4\<rparr>, interrupts := True\<rparr>)"
    by (simp add: kmain_init_def scr gdt(1) idt(1) st0_def [symmetric] st1(1) st2(1) st3(1) e3 e4)
  show ?thesis
    unfolding run using gdt(2) c2 idt(2-4) st3(4-6) area inv
    by (intro exI conjI) (rule refl, simp_all add: hs_def)
qed

lemma first_free_frame_area:
  assumes "heap_area N c st" "c < 256" "0 < N"
  shows "first_free_frame st = 0"
proof -
  have "first_free_from st 0 = of_nat 0"
    by (rule first_free_from_least) (use assms in \<open>auto simp: heap_area_def\<close>)
  then show ?thesis by (simp add: first_free_frame_def)
qed

section \<open>Properties of the boot\<close>

lemma kmain_runs:
  assumes "length (build_date b) < 20" "length (build_time b) < 20"
    and "74240 \<le> unat (mem_upper (multiboot_info_at (kmem (kstate m)) mbi))"
      "unat (mem_upper (multiboot_info_at (kmem (kstate m)) mbi)) \<le> 131072"
    and "placement_address (kstate m) = 0x200000" "kheap (kstate m) = None" "518 \<le> fuel"
    and "shell_wf sh"
  shows "\<exists>m' h sh0. kmain_init fuel b mbi m = Inr m' \<and> interrupts m' \<and>
    handler_table m' = (handler_table m)(14 \<mapsto> Page_fault, 32 \<mapsto> Timer_callback, 33 \<mapsto> Keyboard_callback) \<and>
    gdtr (cpu_state m') = (39, gdt_at b) \<and> idtr (cpu_state m') = (2047, idt_at b) \<and>
    (\<forall>n. n < 32 \<longrightarrow> idt_decode (idt_table m' ! n) = (isr_stub b n, 0x08, 0x8E)) \<and>
    (\<forall>n. n < 16 \<longrightarrow> idt_decode (idt_table m' ! (32 + n)) = (irq_stub b n, 0x08, 0x8E)) \<and>
    heap_inv (kstate m') [(True, 0x70000)] \<and> kheap (kstate m') = Some h \<and>
    start_address h = 0x01081000 \<and> end_address h = 0x010F1000 \<and>
    shell_wf sh0 \<and> line sh0 = [] \<and> (\<forall>turns. kmain fuel turns b rs mbi m sh = lsh_turns turns rs sh0)"
proof -
  obtain m' h where 1: "kmain_init fuel b mbi m = Inr m'" "interrupts m'"
    "handler_table m' = (handler_table m)(14 \<mapsto> Page_fault, 32 \<mapsto> Timer_callback, 33 \<mapsto> Keyboard_callback)"
    "gdtr (cpu_state m') = (39, gdt_at b)" "idtr (cpu_state m') = (2047, idt_at b)"
    "\<forall>n. n < 32 \<longrightarrow> idt_decode (idt_table m' ! n) = (isr_stub b n, 0x08, 0x8E)"
    "\<forall>n. n < 16 \<longrightarrow> idt_decode (idt_table m' ! (32 + n)) = (irq_stub b n, 0x08, 0x8E)"
    "heap_inv (kstate m') [(True, 0x70000)]" "kheap (kstate m') = Some h"
    "start_address h = 0x01081000" "end_address h = 0x010F1000"
    using kmain_init_runs [OF assms(1-7)] by (elim exE conjE) (rule that)
  have wf: "shell_wf (sh\<lparr>skenv := e\<rparr>)" for e
    using assms(8) by (simp add: shell_wf_def line_def)
  obtain g e where "sgui (sh\<lparr>skenv := kenv (kstate m')\<rparr>) = gui_start g e"
    using assms(8) by (auto simp: shell_wf_def)
  from show_cmdline_wf [OF _ _ this] wf [of "kenv (kstate m')"] obtain sh0 where
    "show_cmdline (sh\<lparr>skenv := kenv (kstate m')\<rparr>) = Inr sh0" "shell_wf sh0" "line sh0 = []"
    unfolding shell_wf_def by blast
  moreover from this(1) have "\<forall>turns. kmain fuel turns b rs mbi m sh = lsh_turns turns rs sh0"
    by (simp add: kmain_def 1(1) lsh_loop_def)
  ultimately show ?thesis using 1 by (intro exI [of _ m'] exI [of _ h] exI [of _ sh0]) simp
qed

text \<open>
  C1. On a machine with 74240 KB to 128 MB of memory, \<^verbatim>\<open>kmain\<close> reaches the shell without a fault:
  interrupts are on, both descriptor tables are loaded and name the stubs, the page fault, timer and keyboard handlers are
  registered, and the heap, after its test, is one hole again, of \<open>0x70000\<close> bytes.
\<close>
theorem kmain_reaches_shell:
  assumes "length (build_date b) < 20" "length (build_time b) < 20"
    and "74240 \<le> unat (mem_upper (multiboot_info_at (kmem (kstate m)) mbi))"
      "unat (mem_upper (multiboot_info_at (kmem (kstate m)) mbi)) \<le> 131072"
    and "placement_address (kstate m) = 0x200000" "kheap (kstate m) = None" "518 \<le> fuel"
    and "shell_wf sh"
  shows "\<exists>m' h sh0. kmain_init fuel b mbi m = Inr m' \<and> interrupts m' \<and>
    handler_table m' = (handler_table m)(14 \<mapsto> Page_fault, 32 \<mapsto> Timer_callback, 33 \<mapsto> Keyboard_callback) \<and>
    gdtr (cpu_state m') = (39, gdt_at b) \<and> idtr (cpu_state m') = (2047, idt_at b) \<and>
    (\<forall>n. n < 32 \<longrightarrow> idt_decode (idt_table m' ! n) = (isr_stub b n, 0x08, 0x8E)) \<and>
    (\<forall>n. n < 16 \<longrightarrow> idt_decode (idt_table m' ! (32 + n)) = (irq_stub b n, 0x08, 0x8E)) \<and>
    heap_inv (kstate m') [(True, 0x70000)] \<and> kheap (kstate m') = Some h \<and>
    start_address h = 0x01081000 \<and> end_address h = 0x010F1000 \<and>
    shell_wf sh0 \<and> line sh0 = [] \<and> (\<forall>turns. kmain fuel turns b rs mbi m sh = lsh_turns turns rs sh0)"
  using assms by (rule kmain_runs)

text \<open>What the processor translates after the boot: the memory the kernel was loaded to and the heap.\<close>

lemma kmain_translation:
  assumes "length (build_date b) < 20" "length (build_time b) < 20"
    and "74240 \<le> unat (mem_upper (multiboot_info_at (kmem (kstate m)) mbi))"
      "unat (mem_upper (multiboot_info_at (kmem (kstate m)) mbi)) \<le> 131072"
    and "placement_address (kstate m) = 0x200000" "kheap (kstate m) = None" "518 \<le> fuel"
  shows "\<exists>m'. kmain_init fuel b mbi m = Inr m' \<and> first_free_frame (kstate m') = 0 \<and>
    (\<forall>a. translate (kstate m') a =
      (if a < 0x215000 then Some a
       else if 0x01000000 \<le> a \<and> a < 0x01FFF000
       then Some (if 0x010F2000 \<le> a \<and> a < 0x01100000 then a AND 0xFFF else a - 0x01000000 + 0x215000)
       else None))"
proof -
  from kmain_init_runs [OF assms] obtain m' where m': "kmain_init fuel b mbi m = Inr m'"
    "heap_area 4640 242 (kstate m')" by blast
  have "first_free_frame (kstate m') = 0" by (rule first_free_frame_area [OF m'(2)]) simp_all
  then show ?thesis
    using m'(1) translate_heap_area [OF m'(2)] by (intro exI [of _ m']) simp
qed

text \<open>
  The frame buffer is not among it: nothing maps \<^verbatim>\<open>0xFD000000\<close>, so the first pixel the \<^verbatim>\<open>gui\<close> command
  draws on the kernel as it boots is a page fault.
\<close>

lemma kmain_leaves_frame_buffer_unmapped:
  assumes "length (build_date b) < 20" "length (build_time b) < 20"
    and "74240 \<le> unat (mem_upper (multiboot_info_at (kmem (kstate m)) mbi))"
      "unat (mem_upper (multiboot_info_at (kmem (kstate m)) mbi)) \<le> 131072"
    and "placement_address (kstate m) = 0x200000" "kheap (kstate m) = None" "518 \<le> fuel"
  shows "\<exists>m'. kmain_init fuel b mbi m = Inr m' \<and>
    (\<forall>px < 800. \<forall>py < 600. translate (kstate m') (pixel_at px py) = None)"
proof -
  have above: "\<not> pixel_at px py < 0x215000 \<and> \<not> pixel_at px py < 0x01FFF000" if "px < 800" "py < 600" for px py
  proof -
    have "unat px < 800" "unat py < 600" using that by (simp_all add: word_less_nat_alt)
    then have "unat (pixel_at px py) = 0xFD000000 + 4 * (unat py * 800 + unat px)"
      using unat_pixel_offset [OF that] unfolding pixel_at_def vbeBuffer_def by (subst unat_word_ariths) simp
    then show ?thesis by (simp add: word_less_nat_alt)
  qed
  from kmain_translation [OF assms] above show ?thesis by fastforce
qed

text \<open>
  C14. On the machines of C1, the test of the heap gives the 14 pages from \<open>0x010F2000\<close> back, with this effect: the processor still
  translates their addresses, all to the first page of memory, and \<^verbatim>\<open>alloc_frame\<close> takes this frame, which
  low memory uses, for the first free one.
\<close>
theorem kmain_leaves_frame_0_shared:
  assumes "length (build_date b) < 20" "length (build_time b) < 20"
    and "74240 \<le> unat (mem_upper (multiboot_info_at (kmem (kstate m)) mbi))"
      "unat (mem_upper (multiboot_info_at (kmem (kstate m)) mbi)) \<le> 131072"
    and "placement_address (kstate m) = 0x200000" "kheap (kstate m) = None" "518 \<le> fuel"
  shows "\<exists>m'. kmain_init fuel b mbi m = Inr m' \<and> first_free_frame (kstate m') = 0 \<and>
    (\<forall>a < 0x1000. translate (kstate m') a = Some a) \<and>
    (\<forall>a. 0x010F2000 \<le> a \<and> a < 0x01100000 \<longrightarrow> translate (kstate m') a = Some (a AND 0xFFF)) \<and>
    (\<forall>a. 0x01000000 \<le> a \<and> a < 0x010F2000 \<longrightarrow> translate (kstate m') a = Some (a - 0x01000000 + 0x215000))"
proof -
  from kmain_translation [OF assms] obtain m' where m': "kmain_init fuel b mbi m = Inr m'"
    "first_free_frame (kstate m') = 0"
    "\<And>a. translate (kstate m') a =
      (if a < 0x215000 then Some a
       else if 0x01000000 \<le> a \<and> a < 0x01FFF000
       then Some (if 0x010F2000 \<le> a \<and> a < 0x01100000 then a AND 0xFFF else a - 0x01000000 + 0x215000)
       else None)" by blast
  have "a < 0x215000" if "a < 0x1000" for a :: u32
    using that by (rule less_trans) simp
  moreover have "\<not> a < 0x215000" if "0x01000000 \<le> a" for a :: u32
    using that by (simp add: word_less_nat_alt word_le_nat_alt)
  moreover have "0x01000000 \<le> a" if "0x010F2000 \<le> a" for a :: u32
    using that by (simp add: word_le_nat_alt)
  moreover have "a < 0x01FFF000" if "a < 0x01100000" for a :: u32
    using that by (simp add: word_less_nat_alt)
  moreover have "a < 0x01100000" "\<not> 0x010F2000 \<le> a" if "a < 0x010F2000" for a :: u32
    using that by (simp_all add: word_less_nat_alt word_le_nat_alt)
  ultimately show ?thesis using m' by (intro exI [of _ m']) (simp add: not_le, auto dest: leD)
qed

text \<open>A machine with 124 MB.\<close>

definition example_info :: boot_info where
  "example_info = \<lparr>build_date = ''Jan  1 2024'', build_time = ''12:00:00'',
     isr_stub = (\<lambda>n. 0x100000 + 16 * of_nat n), irq_stub = (\<lambda>n. 0x101000 + 16 * of_nat n),
     gdt_at = 0x102000, idt_at = 0x103000, end_at = 0x110000, kheap_at = 0x10FFF0\<rparr>"

definition example_machine :: machine where
  "example_machine = \<lparr>vga = corner_screen, cpu_state = \<lparr>gdtr = (0, 0), idtr = (0, 0), cs_sel = 8, data_sel = 16\<rparr>,
     gdt_table = [], idt_table = [], handler_table = no_handlers, kstate = (blank_kst 0)\<lparr>kmem := store32 (kmem (blank_kst 0)) 0x10008 126976\<rparr>, interrupts = False\<rparr>"

lemma example_facts:
  "length (build_date example_info) < 20" "length (build_time example_info) < 20"
  "74240 \<le> unat (mem_upper (multiboot_info_at (kmem (kstate example_machine)) 0x10000))"
  "unat (mem_upper (multiboot_info_at (kmem (kstate example_machine)) 0x10000)) \<le> 131072"
  "placement_address (kstate example_machine) = 0x200000" "kheap (kstate example_machine) = None"
  by (simp_all add: example_info_def example_machine_def blank_kst_facts multiboot_info_at_def)

lemma kmain_reaches_shell_witness:
  "\<exists>m' sh0. kmain_init 518 example_info 0x10000 example_machine = Inr m' \<and> interrupts m' \<and>
    handler_table m' 33 = Some Keyboard_callback \<and> idt_decode (idt_table m' ! 33) = (0x101010, 0x08, 0x8E) \<and>
    kmain 518 5 example_info [] 0x10000 example_machine (waiting_shell []) = lsh_turns 5 [] sh0 \<and> line sh0 = []"
proof -
  have "shell_wf (waiting_shell [])" by (simp add: waiting_shell_facts)
  from kmain_reaches_shell [OF example_facts order_refl this, of "[]"] obtain m' sh0 where
    "kmain_init 518 example_info 0x10000 example_machine = Inr m'" "interrupts m'"
    "handler_table m' = (handler_table example_machine)
      (14 \<mapsto> Page_fault, 32 \<mapsto> Timer_callback, 33 \<mapsto> Keyboard_callback)"
    "\<forall>n. n < 16 \<longrightarrow> idt_decode (idt_table m' ! (32 + n)) = (irq_stub example_info n, 0x08, 0x8E)"
    "\<forall>turns. kmain 518 turns example_info [] 0x10000 example_machine (waiting_shell []) = lsh_turns turns [] sh0"
    "line sh0 = []"
    by (elim exE conjE) (rule that)
  moreover from this(4) [rule_format, of 1] have "idt_decode (idt_table m' ! 33) = (0x101010, 0x08, 0x8E)"
    by (simp add: example_info_def)
  ultimately show ?thesis by auto
qed

lemma kmain_leaves_frame_0_shared_witness:
  "\<exists>m'. kmain_init 518 example_info 0x10000 example_machine = Inr m' \<and> first_free_frame (kstate m') = 0 \<and>
    translate (kstate m') 0x234 = Some 0x234 \<and> translate (kstate m') 0x010F2234 = Some 0x234 \<and>
    translate (kstate m') 0x010FF234 = Some 0x234"
proof -
  from kmain_leaves_frame_0_shared [OF example_facts order_refl] obtain m' where
    m': "kmain_init 518 example_info 0x10000 example_machine = Inr m'" "first_free_frame (kstate m') = 0"
    "\<forall>a < 0x1000. translate (kstate m') a = Some a"
    "\<forall>a. 0x010F2000 \<le> a \<and> a < 0x01100000 \<longrightarrow> translate (kstate m') a = Some (a AND 0xFFF)"
    by (elim exE conjE) (rule that)
  have "translate (kstate m') 0x234 = Some 0x234" "translate (kstate m') 0x010F2234 = Some 0x234"
    "translate (kstate m') 0x010FF234 = Some 0x234"
    using m'(3) [rule_format, of "0x234"] m'(4) [rule_format, of "0x010F2234"]
      m'(4) [rule_format, of "0x010FF234"] by simp_all
  then show ?thesis using m'(1,2) by blast
qed

end
