(* ===== verification/System.thy ===== *)
theory System
  imports Kernel
begin

text \<open>
  The running kernel: interrupts, dispatched through the table \<^verbatim>\<open>kmain\<close> filled, between the turns of the
  shell. A handler and a turn each run to their end; a turn reads the queue with interrupts off, and no handler
  touches the shell's own variables.
\<close>

section \<open>Running handlers\<close>

text \<open>The functions behind the registered pointers; \<open>cr2\<close> is what the processor has in that register.\<close>

fun run_handler :: "u32 \<Rightarrow> handler \<Rightarrow> registers \<Rightarrow> env \<times> kbd \<times> u64 \<Rightarrow> (env \<times> kbd \<times> u64) outcome res" where
  "run_handler cr2 Timer_callback regs (e, k, ticks) = Inr (Running (e, k, timer_callback ticks))"
| "run_handler cr2 Keyboard_callback regs (e, k, ticks) =
     res_bind (keyboard_callback k e) (\<lambda>(k, e). Inr (Running (e, k, ticks)))"
| "run_handler cr2 Page_fault regs (e, k, ticks) =
     (case page_fault cr2 regs e of
        Running e \<Rightarrow> Inr (Running (e, k, ticks)) | Stopped e \<Rightarrow> Inr (Stopped (e, k, ticks)))"

definition interrupt :: "u32 \<Rightarrow> handler handlers \<Rightarrow> registers \<Rightarrow> shell \<times> u64 \<Rightarrow> (shell \<times> u64) outcome res" where
  "interrupt cr2 hs regs st =
     (case st of (sh, ticks) \<Rightarrow>
       res_bind (irq_handler (run_handler cr2) hs regs (skenv sh, skbd sh, ticks)) (\<lambda>r. Inr (case r of
         Running (e, k, ticks) \<Rightarrow> Running (sh\<lparr>skenv := e, skbd := k\<rparr>, ticks)
       | Stopped (e, k, ticks) \<Rightarrow> Stopped (sh\<lparr>skenv := e, skbd := k\<rparr>, ticks))))"

definition turn :: "u32 list \<Rightarrow> shell \<times> u64 \<Rightarrow> (shell \<times> u64) outcome res" where
  "turn rs st =
     (case st of (sh, ticks) \<Rightarrow> res_bind (lsh_step rs sh) (\<lambda>r. Inr (case r of
        Running sh \<Rightarrow> Running (sh, ticks) | Stopped sh \<Rightarrow> Stopped (sh, ticks))))"

datatype event = Irq registers | Turn

fun run_events :: "u32 \<Rightarrow> handler handlers \<Rightarrow> u32 list \<Rightarrow> event list \<Rightarrow> shell \<times> u64 \<Rightarrow> (shell \<times> u64) outcome res" where
  "run_events cr2 hs rs [] st = Inr (Running st)"
| "run_events cr2 hs rs (ev # evs) st =
     res_bind (case ev of Irq regs \<Rightarrow> interrupt cr2 hs regs st | Turn \<Rightarrow> turn rs st) (\<lambda>r. case r of
       Running st \<Rightarrow> run_events cr2 hs rs evs st | Stopped st \<Rightarrow> Inr (Stopped st))"

section \<open>What arrives\<close>

text \<open>
  The scan codes the keyboard interrupts of a run find, when the data port yields \<open>s n\<close> at its \<open>n\<close>-th read,
  and the timer interrupts.
\<close>

fun scans :: "(nat \<Rightarrow> u8) \<Rightarrow> nat \<Rightarrow> event list \<Rightarrow> kbd_event list" where
  "scans s c [] = []"
| "scans s c (Turn # evs) = scans s c evs"
| "scans s c (Irq regs # evs) =
     (if int_no regs = 33 then Scan (s c) # scans s (Suc c) evs else scans s c evs)"

fun timer_irqs :: "event list \<Rightarrow> nat" where
  "timer_irqs [] = 0"
| "timer_irqs (Irq regs # evs) = (if int_no regs = 32 then 1 else 0) + timer_irqs evs"
| "timer_irqs (Turn # evs) = timer_irqs evs"

text \<open>The handler table after boot, and interrupts of the two controllers.\<close>

definition booted :: "handler handlers \<Rightarrow> bool" where
  "booted hs \<longleftrightarrow> hs 32 = Some Timer_callback \<and> hs 33 = Some Keyboard_callback \<and>
     (\<forall>i. 34 \<le> i \<and> i < 48 \<longrightarrow> hs i = None)"

definition from_pics :: "event list \<Rightarrow> bool" where
  "from_pics evs \<longleftrightarrow> (\<forall>regs. Irq regs \<in> set evs \<longrightarrow> 32 \<le> unat (int_no regs) \<and> unat (int_no regs) < 48)"

definition scan_count :: "shell \<Rightarrow> nat" where
  "scan_count sh = in_count (skenv sh) 0x60"

definition shell_mods :: "shell \<Rightarrow> modifiers" where
  "shell_mods sh = mods_of (kbd_status (skbd sh))"

lemma kbd_leds_env [simp]:
  "in_stream (kbd_leds k e) = in_stream e" "in_count (kbd_leds k e) 0x60 = in_count e 0x60"
proof -
  have wait: "in_stream (snd (write_kbd_wait t e)) = in_stream e \<and>
      in_count (snd (write_kbd_wait t e)) 0x60 = in_count e 0x60" for t e
    by (induction t arbitrary: e) (simp_all add: split_beta Let_def)
  have "in_stream (write_kbd a d e) = in_stream e \<and> in_count (write_kbd a d e) 0x60 = in_count e 0x60" for a d e
    using wait [of 500000 e] by (simp add: write_kbd_def split_beta Let_def)
  then show "in_stream (kbd_leds k e) = in_stream e" "in_count (kbd_leds k e) 0x60 = in_count e 0x60"
    by (simp_all add: kbd_leds_def Let_def)
qed

lemma kbd_convert_env:
  "kbd_convert c k e = Inr (k', e') \<Longrightarrow> in_stream e' = in_stream e \<and> in_count e' 0x60 = in_count e 0x60"
  by (auto simp: kbd_convert_def kbd_emit_def Let_def res_bind_eq_Inr split: if_splits)

lemma keyboard_callback_env:
  "keyboard_callback k e = Inr (k', e') \<Longrightarrow>
    in_stream e' = in_stream e \<and> in_count e' 0x60 = Suc (in_count e 0x60)"
  by (auto simp: keyboard_callback_def Let_def split_beta split: if_splits dest!: kbd_convert_env)

section \<open>One event\<close>

text \<open>The acknowledgement writes to ports only.\<close>

lemma interrupt_dispatch:
  assumes "32 \<le> unat (int_no regs)" "unat (int_no regs) < 48"
  obtains e where "in_stream e = in_stream (skenv sh)" "in_count e = in_count (skenv sh)"
    "\<And>hs. irq_handler (run_handler cr2) hs regs (skenv sh, x) = (case hs (unat (int_no regs)) of
       None \<Rightarrow> Inr (Running (e, x)) | Some h \<Rightarrow> run_handler cr2 h regs (e, x))"
proof
  let ?e = "outportb 0x20 0x20 (if int_no regs \<ge> 40 then outportb 0xA0 0x20 (skenv sh) else skenv sh)"
  show "in_stream ?e = in_stream (skenv sh)" "in_count ?e = in_count (skenv sh)" by simp_all
  show "irq_handler (run_handler cr2) hs regs (skenv sh, x) = (case hs (unat (int_no regs)) of
      None \<Rightarrow> Inr (Running (?e, x)) | Some h \<Rightarrow> run_handler cr2 h regs (?e, x))" for hs
    using assms by (simp add: irq_handler_def call_handler_def Let_def split: option.split)
qed

lemma int_no_eq: "int_no regs = 33 \<longleftrightarrow> unat (int_no regs) = 33" "int_no regs = 32 \<longleftrightarrow> unat (int_no regs) = 32"
  by (simp_all add: word_unat_eq_iff)

lemma interrupt_runs:
  assumes "booted hs" "32 \<le> unat (int_no regs)" "unat (int_no regs) < 48" "shell_wf sh"
    and "b = in_stream (skenv sh) 0x60 (scan_count sh)"
  shows "\<exists>sh'. interrupt cr2 hs regs (sh, ticks) =
      Inr (Running (sh', ticks + (if int_no regs = 32 then 1 else 0))) \<and>
    shell_wf sh' \<and> line sh' = line sh \<and> in_stream (skenv sh') = in_stream (skenv sh) \<and>
    (if int_no regs = 33
     then scan_count sh' = Suc (scan_count sh) \<and> shell_mods sh' = fst (key_step (shell_mods sh) (unat b)) \<and>
       queue sh' = push_key 63 (queue sh) (snd (key_step (shell_mods sh) (unat b)))
     else scan_count sh' = scan_count sh \<and> shell_mods sh' = shell_mods sh \<and> queue sh' = queue sh)"
proof -
  obtain e where e: "in_stream e = in_stream (skenv sh)" "in_count e = in_count (skenv sh)"
    "\<And>hs. irq_handler (run_handler cr2) hs regs (skenv sh, skbd sh, ticks) = (case hs (unat (int_no regs)) of
       None \<Rightarrow> Inr (Running (e, skbd sh, ticks)) | Some h \<Rightarrow> run_handler cr2 h regs (e, skbd sh, ticks))"
    using interrupt_dispatch [OF assms(2,3), of sh cr2 "(skbd sh, ticks)"] by blast
  have wf: "shell_wf (sh\<lparr>skenv := e', skbd := k\<rparr>) = kbd_wf k" "line (sh\<lparr>skenv := e', skbd := k\<rparr>) = line sh" for e' k
    using assms(4) by (simp_all add: shell_wf_def line_def)
  consider (key) "unat (int_no regs) = 33" | (tick) "unat (int_no regs) = 32"
    | (other) "34 \<le> unat (int_no regs)"
    using assms(2,3) by linarith
  then show ?thesis
  proof cases
    case key
    have "next_scan e = b" by (simp add: next_scan_def e(1,2) assms(5) scan_count_def)
    moreover have "kbd_wf (skbd sh)" using assms(4) by (simp add: shell_wf_def)
    ultimately obtain k' e' where k': "keyboard_callback (skbd sh) e = Inr (k', e')" "kbd_wf k'"
      "mods_of (kbd_status k') = fst (key_step (shell_mods sh) (unat b))"
      "fifo_list (kbd_buffer k') = push_key 63 (queue sh) (snd (key_step (shell_mods sh) (unat b)))"
      using keyboard_callback_spec [of "skbd sh" e] by (auto simp: shell_mods_def queue_def)
    have "interrupt cr2 hs regs (sh, ticks) = Inr (Running (sh\<lparr>skenv := e', skbd := k'\<rparr>, ticks))"
      using assms(1) key k'(1) by (simp add: interrupt_def e(3) booted_def)
    moreover have "int_no regs = 33" using key by (simp add: int_no_eq)
    ultimately show ?thesis
      using k'(2-4) keyboard_callback_env [OF k'(1)] e(1,2) wf
      by (intro exI [of _ "sh\<lparr>skenv := e', skbd := k'\<rparr>"])
        (simp add: queue_def shell_mods_def scan_count_def)
  next
    case tick
    then have "interrupt cr2 hs regs (sh, ticks) = Inr (Running (sh\<lparr>skenv := e\<rparr>, ticks + 1))" "int_no regs = 32"
      using assms(1) by (simp_all add: interrupt_def e(3) booted_def timer_callback_def int_no_eq)
    then show ?thesis
      using wf(1) [of "skbd sh" e] wf(2) [of "skbd sh" e] assms(4) e(1,2)
      by (intro exI [of _ "sh\<lparr>skenv := e\<rparr>"]) (simp add: shell_wf_def queue_def shell_mods_def scan_count_def)
  next
    case other
    then have "interrupt cr2 hs regs (sh, ticks) = Inr (Running (sh\<lparr>skenv := e\<rparr>, ticks))"
      "int_no regs \<noteq> 32" "int_no regs \<noteq> 33"
      using assms(1,3) by (simp_all add: interrupt_def e(3) booted_def int_no_eq)
    then show ?thesis
      using wf(1) [of "skbd sh" e] wf(2) [of "skbd sh" e] assms(4) e(1,2)
      by (intro exI [of _ "sh\<lparr>skenv := e\<rparr>"]) (simp add: shell_wf_def queue_def shell_mods_def scan_count_def)
  qed
qed

lemma lsh_step_frame:
  assumes "lsh_step rs sh = Inr (Running sh')" "queue sh = x # rest" "x \<noteq> 10" "shell_wf sh"
  shows "in_stream (skenv sh') = in_stream (skenv sh)" "scan_count sh' = scan_count sh" "shell_mods sh' = shell_mods sh"
proof -
  have wf: "kbd_wf (skbd sh)" using assms(4) by (simp add: shell_wf_def)
  from next_key [OF assms(4,2)] obtain k where k: "kbd_get_key (skbd sh) = Inr (x, k)"
    "kbd_keys_available (skbd sh) = 0" by blast
  have st: "kbd_status k = kbd_status (skbd sh)" using kbd_get_key_spec [OF wf k(2,1)] by blast
  show "in_stream (skenv sh') = in_stream (skenv sh)" "scan_count sh' = scan_count sh" "shell_mods sh' = shell_mods sh"
    using assms(1,3) k st
    by (auto simp: lsh_step_def Let_def res_bind_eq_Inr set_cli_def say_def scan_count_def shell_mods_def split: if_splits)
qed

text \<open>A turn moves one plain key from the queue to the line, or does nothing.\<close>

lemma turn_runs:
  assumes "shell_wf sh" "set (queue sh) \<inter> {0, 8, 9, 10} = {}" "length (line sh @ queue sh) \<le> 256"
  shows "\<exists>sh'. turn rs (sh, ticks) = Inr (Running (sh', ticks)) \<and> shell_wf sh' \<and>
    line sh' @ queue sh' = line sh @ queue sh \<and> in_stream (skenv sh') = in_stream (skenv sh) \<and>
    scan_count sh' = scan_count sh \<and> shell_mods sh' = shell_mods sh"
proof (cases "queue sh")
  case Nil
  then show ?thesis using empty_queue_idles [OF assms(1) Nil, of rs] assms(1) by (simp add: turn_def)
next
  case (Cons x rest)
  then have x: "x \<notin> {0, 10}" "x \<noteq> 10" "edit x (line sh) = line sh @ [x]" using assms(2) by (auto simp: edit_def)
  from step_edits [OF assms(1) Cons x(1), of rs] assms(3) x(3) Cons obtain sh' where
    sh': "lsh_step rs sh = Inr (Running sh')" "shell_wf sh'" "line sh' = line sh @ [x]" "queue sh' = rest" by auto
  then show ?thesis
    using lsh_step_frame [OF sh'(1) Cons x(2) assms(1)] Cons by (intro exI [of _ sh']) (simp add: turn_def)
qed

section \<open>Typing\<close>

text \<open>
  While plain text is typed, what is in the line and what waits for it make up the text, wherever the turns fall.
\<close>

lemma typing_runs:
  assumes "booted hs" "from_pics evs" "shell_wf sh"
    and "line sh @ queue sh @ keys_typed (shell_mods sh) (scans (in_stream (skenv sh) 0x60) (scan_count sh) evs) = t"
    and "length t \<le> 63" "set t \<inter> {0, 8, 9, 10} = {}"
  shows "\<exists>sh'. run_events cr2 hs rs evs (sh, ticks) = Inr (Running (sh', ticks + of_nat (timer_irqs evs))) \<and>
    shell_wf sh' \<and> line sh' @ queue sh' = t \<and> in_stream (skenv sh') = in_stream (skenv sh) \<and>
    (\<forall>more. keys_typed (shell_mods sh) (scans (in_stream (skenv sh) 0x60) (scan_count sh) (evs @ more)) =
      keys_typed (shell_mods sh) (scans (in_stream (skenv sh) 0x60) (scan_count sh) evs) @
      keys_typed (shell_mods sh') (scans (in_stream (skenv sh) 0x60) (scan_count sh') more))"
  using assms(2-4)
proof (induction evs arbitrary: sh ticks)
  case Nil
  then show ?case by simp
next
  case (Cons ev evs)
  let ?s = "in_stream (skenv sh) 0x60"
  have pics: "from_pics evs" using Cons.prems(1) by (simp add: from_pics_def)
  show ?case
  proof (cases ev)
    case Turn
    from Cons.prems(3) assms(5,6) have "set (queue sh) \<inter> {0, 8, 9, 10} = {}" "length (line sh @ queue sh) \<le> 256"
      by auto
    from turn_runs [OF Cons.prems(2) this, of rs ticks] obtain sh1 where sh1:
      "turn rs (sh, ticks) = Inr (Running (sh1, ticks))" "shell_wf sh1" "line sh1 @ queue sh1 = line sh @ queue sh"
      "in_stream (skenv sh1) = in_stream (skenv sh)" "scan_count sh1 = scan_count sh" "shell_mods sh1 = shell_mods sh"
      by blast
    have "line sh1 @ queue sh1 @ keys_typed (shell_mods sh1) (scans (in_stream (skenv sh1) 0x60) (scan_count sh1) evs) = t"
      using Cons.prems(3) sh1(3-6) Turn by (metis append_assoc scans.simps(2))
    from Cons.IH [OF pics sh1(2) this, of ticks] show ?thesis
      using Turn sh1(1,4-6) by simp
  next
    case (Irq regs)
    then have r: "32 \<le> unat (int_no regs)" "unat (int_no regs) < 48"
      using Cons.prems(1) by (simp_all add: from_pics_def)
    define b where "b = ?s (scan_count sh)"
    define ticks1 :: u64 where "ticks1 = ticks + (if int_no regs = 32 then 1 else 0)"
    from interrupt_runs [OF assms(1) r Cons.prems(2) b_def, of cr2 ticks] obtain sh1 where sh1:
      "interrupt cr2 hs regs (sh, ticks) = Inr (Running (sh1, ticks1))" "shell_wf sh1" "line sh1 = line sh"
      "in_stream (skenv sh1) = in_stream (skenv sh)"
      "if int_no regs = 33
       then scan_count sh1 = Suc (scan_count sh) \<and> shell_mods sh1 = fst (key_step (shell_mods sh) (unat b)) \<and>
         queue sh1 = push_key 63 (queue sh) (snd (key_step (shell_mods sh) (unat b)))
       else scan_count sh1 = scan_count sh \<and> shell_mods sh1 = shell_mods sh \<and> queue sh1 = queue sh"
      unfolding ticks1_def by blast
    define new where "new = (if int_no regs = 33 then
      (case snd (key_step (shell_mods sh) (unat b)) of None \<Rightarrow> [] | Some x \<Rightarrow> [x]) else [])"
    have typed: "keys_typed (shell_mods sh) (scans ?s (scan_count sh) (ev # more)) =
        new @ keys_typed (shell_mods sh1) (scans ?s (scan_count sh1) more)" for more
      using sh1(5) by (cases "int_no regs = 33") (simp_all add: Irq new_def b_def keys_typed_Scan del: keys_typed.simps(2))
    have "length (queue sh @ new) \<le> 63"
      using Cons.prems(3) assms(5) unfolding typed by auto
    then have "queue sh1 = queue sh @ new"
      using sh1(5) push_key_room [of "queue sh" "snd (key_step (shell_mods sh) (unat b))" 63]
      by (auto simp: new_def split: if_splits)
    then have "line sh1 @ queue sh1 @ keys_typed (shell_mods sh1) (scans (in_stream (skenv sh1) 0x60) (scan_count sh1) evs) = t"
      using Cons.prems(3) sh1(3,4) unfolding typed by simp
    from Cons.IH [OF pics sh1(2) this, of ticks1] show ?thesis
      unfolding append_Cons typed sh1(4)
      by (auto simp: Irq sh1(1) ticks1_def)
  qed
qed

section \<open>From the key to the command\<close>

lemma run_events_append:
  "run_events cr2 hs rs evs st = Inr (Running st') \<Longrightarrow>
    run_events cr2 hs rs (evs @ later) st = run_events cr2 hs rs later st'"
proof (induction evs arbitrary: st)
  case (Cons ev evs)
  from Cons.prems obtain x where x:
    "(case ev of Irq regs \<Rightarrow> interrupt cr2 hs regs st | Turn \<Rightarrow> turn rs st) = Inr x"
    "(case x of Running st \<Rightarrow> run_events cr2 hs rs evs st | Stopped st \<Rightarrow> Inr (Stopped st)) = Inr (Running st')"
    unfolding run_events.simps(2) res_bind_eq_Inr by blast
  then obtain st1 where "x = Running st1" "run_events cr2 hs rs evs st1 = Inr (Running st')" by (cases x) auto
  with x(1) Cons.IH [of st1] show ?case by simp
qed simp

text \<open>Without interrupts a run is the loop of the shell.\<close>

definition with_ticks :: "u64 \<Rightarrow> shell outcome \<Rightarrow> (shell \<times> u64) outcome" where
  "with_ticks ticks r = (case r of Running sh \<Rightarrow> Running (sh, ticks) | Stopped sh \<Rightarrow> Stopped (sh, ticks))"

lemma run_turns:
  "run_events cr2 hs rs (replicate n Turn) (sh, ticks) = res_bind (lsh_turns n rs sh) (\<lambda>r. Inr (with_ticks ticks r))"
proof (induction n arbitrary: sh)
  case (Suc n)
  then show ?case
    by (cases "lsh_step rs sh") (auto simp: turn_def with_ticks_def res_bind_def split: sum.split outcome.split)
qed (simp add: with_ticks_def)

lemma kmain_init_booted:
  assumes "length (build_date b) < 20" "length (build_time b) < 20"
    and "74240 \<le> unat (mem_upper (multiboot_info_at (kmem (kstate m)) mbi))"
      "unat (mem_upper (multiboot_info_at (kmem (kstate m)) mbi)) \<le> 131072"
    and "placement_address (kstate m) = 0x200000" "kheap (kstate m) = None" "518 \<le> fuel"
    and "handler_table m = no_handlers"
  shows "\<exists>m'. kmain_init fuel b mbi m = Inr m' \<and> interrupts m' \<and> booted (handler_table m')"
  using kmain_init_runs [OF assms(1-7)] assms(8) by (auto simp: booted_def no_handlers_def)

lemma typed_runs:
  assumes "booted hs" "from_pics evs" "int_no r = 33" "shell_wf sh" "line sh = []" "queue sh = []"
    and "keys_typed (shell_mods sh) (scans (in_stream (skenv sh) 0x60) (scan_count sh) evs) = t"
    and "keys_typed (shell_mods sh) (scans (in_stream (skenv sh) 0x60) (scan_count sh) (evs @ [Irq r])) = t @ [10]"
    and "length t \<le> 62" "set t \<inter> {0, 8, 9, 10} = {}"
  shows "\<exists>k \<le> length t + 1. \<exists>sh1. closed_line sh1 t \<and> queue sh1 = [] \<and>
    run_events cr2 hs rs (evs @ Irq r # replicate k Turn) (sh, ticks) =
      res_bind (exec_command rs (command_of t) sh1) (\<lambda>(v, sh'). res_bind (case v of
        Returned _ \<Rightarrow> res_bind (show_cmdline sh') (\<lambda>sh'. Inr (Running sh'))
      | Cpu_halted \<Rightarrow> Inr (Stopped sh') | In_gui \<Rightarrow> Inr (Stopped sh'))
      (\<lambda>r. Inr (with_ticks (ticks + of_nat (timer_irqs evs)) r)))"
proof -
  define ticks1 where "ticks1 = ticks + of_nat (timer_irqs evs)"
  have "line sh @ queue sh @ keys_typed (shell_mods sh) (scans (in_stream (skenv sh) 0x60) (scan_count sh) evs) = t"
    using assms(5-7) by simp
  from typing_runs [OF assms(1,2,4) this _ assms(10), of cr2 rs ticks] assms(9) obtain sh2 where sh2:
    "run_events cr2 hs rs evs (sh, ticks) = Inr (Running (sh2, ticks1))" "shell_wf sh2" "line sh2 @ queue sh2 = t"
    "in_stream (skenv sh2) = in_stream (skenv sh)"
    "\<And>later. keys_typed (shell_mods sh) (scans (in_stream (skenv sh) 0x60) (scan_count sh) (evs @ later)) =
      t @ keys_typed (shell_mods sh2) (scans (in_stream (skenv sh) 0x60) (scan_count sh2) later)"
    unfolding ticks1_def assms(7) by auto
  define b where "b = in_stream (skenv sh2) 0x60 (scan_count sh2)"
  have enter: "snd (key_step (shell_mods sh2) (unat b)) = Some 10"
    using sh2(5) [of "[Irq r]"] assms(3,8) sh2(4)
    by (simp add: keys_typed_Scan b_def del: keys_typed.simps(2) split: option.splits)
  have r: "32 \<le> unat (int_no r)" "unat (int_no r) < 48" using assms(3) by simp_all
  from interrupt_runs [OF assms(1) r sh2(2) b_def, of cr2 ticks1] assms(3) obtain sh3 where sh3:
    "interrupt cr2 hs r (sh2, ticks1) = Inr (Running (sh3, ticks1))" "shell_wf sh3" "line sh3 = line sh2"
    "queue sh3 = push_key 63 (queue sh2) (Some 10)"
    unfolding enter by auto
  define q where "q = queue sh2"
  have t: "t = line sh3 @ q" using sh2(3) by (simp add: q_def sh3(3))
  have len: "length (line sh3) + length q \<le> 62" "length q \<le> length t" "set q \<inter> {0, 8, 9, 10} = {}"
    using assms(9,10) unfolding t by auto
  then have q: "queue sh3 = q @ [10]"
    using push_key_room [of q "Some 10" 63] by (simp add: sh3(4) q_def)
  from turns_edit [OF sh3(2) q len(3), of rs] len(1) obtain sh4 where sh4:
    "lsh_turns (length q) rs sh3 = Inr (Running sh4)" "shell_wf sh4" "line sh4 = t" "queue sh4 = [10]"
    unfolding t by auto
  from step_enter [OF sh4(2,4), of rs] sh4(3) assms(9) obtain sh1 where sh1: "closed_line sh1 t" "queue sh1 = []"
    "lsh_step rs sh4 = res_bind (exec_command rs (command_of t) sh1) (\<lambda>(v, sh'). case v of
        Returned _ \<Rightarrow> res_bind (show_cmdline sh') (\<lambda>sh'. Inr (Running sh'))
      | Cpu_halted \<Rightarrow> Inr (Stopped sh') | In_gui \<Rightarrow> Inr (Stopped sh'))" by auto
  have "lsh_turns (length q + 1) rs sh3 = lsh_step rs sh4"
    unfolding turns_append [of "length q" 1] sh4(1)
    by (simp add: res_bind_def split: sum.split outcome.split)
  then have "run_events cr2 hs rs (evs @ Irq r # replicate (length q + 1) Turn) (sh, ticks) =
      res_bind (lsh_step rs sh4) (\<lambda>r. Inr (with_ticks ticks1 r))"
    unfolding run_events_append [OF sh2(1)] run_events.simps(2) event.case sh3(1) res_bind_Inr outcome.case run_turns
    by (rule arg_cong)
  moreover have "length q + 1 \<le> length t + 1" using len(2) by simp
  ultimately show ?thesis
    using sh1 by (intro exI [of _ "length q + 1"] exI [of _ sh1] conjI)
      (auto simp: ticks1_def res_bind_def split: sum.split prod.split)
qed

text \<open>
  C2. A command typed on the running kernel is executed. Keyboard and timer interrupts, and any others of the two
  interrupt controllers, fall in any order between turns of the shell at its empty prompt. If the scan codes
  they bring spell a text of at most 62 plain characters, and then Enter, then at most one turn per key after
  Enter the shell has run the command the table gives for that text, no key is lost or left waiting, and the
  clock has counted the timer's interrupts.
\<close>
theorem typed_on_running_kernel:
  assumes "booted hs" "from_pics evs" "int_no r = 33" "shell_wf sh" "line sh = []" "queue sh = []"
    and "keys_typed (shell_mods sh) (scans (in_stream (skenv sh) 0x60) (scan_count sh) evs) = t"
    and "keys_typed (shell_mods sh) (scans (in_stream (skenv sh) 0x60) (scan_count sh) (evs @ [Irq r])) = t @ [10]"
    and "length t \<le> 62" "set t \<inter> {0, 8, 9, 10} = {}"
  shows "\<exists>k \<le> length t + 1. \<exists>sh1. closed_line sh1 t \<and> queue sh1 = [] \<and>
    run_events cr2 hs rs (evs @ Irq r # replicate k Turn) (sh, ticks) =
      res_bind (exec_command rs (command_of t) sh1) (\<lambda>(v, sh'). res_bind (case v of
        Returned _ \<Rightarrow> res_bind (show_cmdline sh') (\<lambda>sh'. Inr (Running sh'))
      | Cpu_halted \<Rightarrow> Inr (Stopped sh') | In_gui \<Rightarrow> Inr (Stopped sh'))
      (\<lambda>r. Inr (with_ticks (ticks + of_nat (timer_irqs evs)) r)))"
  using assms by (rule typed_runs)

text \<open>
  The keys of \<^verbatim>\<open>halt\<close>, pressed and the first one released, with a tick of the clock and two turns among
  them: the machine stops.
\<close>

definition irq_regs :: "u32 \<Rightarrow> registers" where
  "irq_regs n = \<lparr>ds = 16, edi = 0, esi = 0, ebp = 0, useless = 0, ebx = 0, edx = 0, ecx = 0, eax = 0,
     int_no = n, err_code = 0, eip = 0x100000, cs = 8, eflags = 0x202, esp = 0, ss = 0\<rparr>"

definition halt_keys :: shell where
  "halt_keys = (waiting_shell [])\<lparr>skenv := \<lparr>in_stream = (\<lambda>_ n. if n < 6 then [0x23, 0xA3, 0x1E, 0x26, 0x14, 0x1C] ! n else 0),
     in_count = (\<lambda>_. 0), outs = [], klog = []\<rparr>\<rparr>"

theorem typed_on_running_kernel_witness:
  "\<exists>k \<le> 5. \<exists>sh'. run_events 0 (no_handlers(32 \<mapsto> Timer_callback, 33 \<mapsto> Keyboard_callback)) []
      ([Irq (irq_regs 33), Turn, Irq (irq_regs 33), Irq (irq_regs 32), Irq (irq_regs 33), Turn,
        Irq (irq_regs 33), Irq (irq_regs 33)] @ Irq (irq_regs 33) # replicate k Turn) (halt_keys, 0) =
    Inr (Stopped (sh', 1))"
proof -
  let ?hs = "no_handlers(32 \<mapsto> Timer_callback, 33 \<mapsto> Keyboard_callback)"
  let ?evs = "[Irq (irq_regs 33), Turn, Irq (irq_regs 33), Irq (irq_regs 32), Irq (irq_regs 33), Turn,
        Irq (irq_regs 33), Irq (irq_regs 33)]"
  let ?t = "[104, 97, 108, 116] :: u8 list"
  have n: "length ?t + 1 = 5" by simp
  have hs: "booted ?hs" by (auto simp: booted_def no_handlers_def)
  have evs: "from_pics ?evs" by (auto simp: from_pics_def irq_regs_def)
  have r: "int_no (irq_regs 33) = 33" "int_no (irq_regs 32) = 32" by (simp_all add: irq_regs_def)
  have wf: "shell_wf halt_keys" "line halt_keys = []" "queue halt_keys = []"
    using waiting_shell_facts [of "[]"] by (simp_all add: halt_keys_def shell_wf_def line_def queue_def)
  have keys: "keys_typed (shell_mods halt_keys) (scans (in_stream (skenv halt_keys) 0x60) (scan_count halt_keys) ?evs) = ?t"
    "keys_typed (shell_mods halt_keys) (scans (in_stream (skenv halt_keys) 0x60) (scan_count halt_keys)
      (?evs @ [Irq (irq_regs 33)])) = ?t @ [10]"
    by (simp_all add: r scan_count_def shell_mods_def halt_keys_def waiting_shell_def waiting_kbd_def kbd_initial_def
        mods_of_def key_step.simps key_byte_def normal_map_def)
  have "command_of ?t = Some Halt_processor"
    by (simp add: command_of_def command_table_def bytes_of_commands)
  moreover have "timer_irqs ?evs = 1" by (simp add: r)
  ultimately show ?thesis
    using typed_on_running_kernel [OF hs evs r(1) wf keys, of 0 "[]" 0]
    unfolding n by (auto simp: do_halt_def with_ticks_def)
qed

end
