(* ===== verification/Entry.thy ===== *)
theory Entry
  imports System OrderedArray
begin

text \<open>
  The assembly between the processor and the C code: the stubs of \<^verbatim>\<open>interrupt.asm\<close>, which save the
  registers, call a handler and return to the interrupted code. Each stub is a list of the instructions it has,
  its \<^verbatim>\<open>jmp\<close> to a common stub being an append, run on the part of the processor they use. What the processor does by
  itself, when it delivers an interrupt, is taken from its manual.
\<close>

section \<open>The processor\<close>

datatype reg = EAX | ECX | EDX | EBX | ESP | EBP | ESI | EDI

datatype seg = DS | ES | FS | GS

text \<open>\<open>resume_at\<close> and \<open>code_seg\<close> are \<^verbatim>\<open>eip\<close> and \<^verbatim>\<open>cs\<close> at the borders of an interrupt.\<close>

record x86 =
  gpr :: "reg \<Rightarrow> u32"
  sreg :: "seg \<Rightarrow> u16"
  resume_at :: u32
  code_seg :: u16
  psw :: u32
  ram :: mem

definition set_reg :: "reg \<Rightarrow> u32 \<Rightarrow> x86 \<Rightarrow> x86" where
  "set_reg r v c = c\<lparr>gpr := (gpr c)(r := v)\<rparr>"

definition push32 :: "u32 \<Rightarrow> x86 \<Rightarrow> x86" where
  "push32 v c = (let sp = gpr c ESP - 4 in (set_reg ESP sp c)\<lparr>ram := store32 (ram c) sp v\<rparr>)"

definition pop32 :: "x86 \<Rightarrow> u32 \<times> x86" where
  "pop32 c = (load32 (ram c) (gpr c ESP), set_reg ESP (gpr c ESP + 4) c)"

text \<open>The instructions of the stubs; \<open>'f\<close> names the C functions they call.\<close>

datatype 'f instr =
    Push_byte u8
  | Push reg
  | Pop reg
  | Pusha
  | Popa
  | Mov_imm reg u32
  | Mov_low reg u16
  | Mov_low_seg reg seg
  | Mov_seg_low seg reg
  | Add_esp u32
  | Cld
  | Cli
  | Iret
  | Call 'f

text \<open>
  The low half of a register, as in \<^verbatim>\<open>mov ax, ds\<close>. The arithmetic flags \<^verbatim>\<open>add\<close> sets are left out:
  \<^verbatim>\<open>iret\<close> follows it and loads them all.
\<close>

definition set_low :: "reg \<Rightarrow> u16 \<Rightarrow> x86 \<Rightarrow> x86" where
  "set_low r v c = set_reg r ((gpr c r AND 0xFFFF0000) OR ucast v) c"

definition pop_reg :: "reg \<Rightarrow> x86 \<Rightarrow> x86" where
  "pop_reg r c = (let (v, c) = pop32 c in set_reg r v c)"

definition pop_none :: "x86 \<Rightarrow> x86" where
  "pop_none c = snd (pop32 c)"

fun cpu_step :: "'f instr \<Rightarrow> x86 \<Rightarrow> x86" where
  "cpu_step (Push_byte b) c = push32 (scast b) c"
| "cpu_step (Push r) c = push32 (gpr c r) c"
| "cpu_step (Pop r) c = pop_reg r c"
| "cpu_step Pusha c = fold push32 (map (gpr c) [EAX, ECX, EDX, EBX, ESP, EBP, ESI, EDI]) c"
| "cpu_step Popa c = fold pop_reg [EBX, EDX, ECX, EAX] (pop_none (fold pop_reg [EDI, ESI, EBP] c))"
| "cpu_step (Mov_imm r v) c = set_reg r v c"
| "cpu_step (Mov_low r v) c = set_low r v c"
| "cpu_step (Mov_low_seg r s) c = set_low r (sreg c s) c"
| "cpu_step (Mov_seg_low s r) c = c\<lparr>sreg := (sreg c)(s := ucast (gpr c r))\<rparr>"
| "cpu_step (Add_esp n) c = set_reg ESP (gpr c ESP + n) c"
| "cpu_step Cld c = c\<lparr>psw := psw c AND NOT 0x400\<rparr>"
| "cpu_step Cli c = c\<lparr>psw := psw c AND NOT 0x200\<rparr>"
| "cpu_step Iret c =
     (let (ip, c) = pop32 c; (sel, c) = pop32 c; (fl, c) = pop32 c
      in c\<lparr>resume_at := ip, code_seg := ucast sel, psw := fl\<rparr>)"
| "cpu_step (Call f) c = c"

text \<open>
  A call of a C function: \<open>call f m sp\<close> is what the function does, with its arguments at \<open>sp\<close> in the memory \<open>m\<close>, and
  \<open>leave\<close> the registers and the memory the compiled code leaves behind.
\<close>

fun exec :: "('f \<Rightarrow> mem \<Rightarrow> u32 \<Rightarrow> 's \<Rightarrow> 's outcome res) \<Rightarrow> (x86 \<Rightarrow> x86) \<Rightarrow> 'f instr list \<Rightarrow>
    x86 \<times> 's \<Rightarrow> (x86 \<times> 's) outcome res" where
  "exec call leave [] st = Inr (Running st)"
| "exec call leave (Call f # is) (c, s) =
     res_bind (call f (ram c) (gpr c ESP) s) (\<lambda>r. case r of
       Running s \<Rightarrow> exec call leave is (leave c, s)
     | Stopped s \<Rightarrow> Inr (Stopped (c, s)))"
| "exec call leave (i # is) (c, s) = exec call leave is (cpu_step i c, s)"

text \<open>
  What the compiler promises of a handler (the calling convention): the stack pointer is as before the call, and so
  are the 14 words of the frame behind the argument, which the handlers only read.
\<close>

definition cdecl :: "(x86 \<Rightarrow> x86) \<Rightarrow> bool" where
  "cdecl leave \<longleftrightarrow> (\<forall>c. gpr (leave c) ESP = gpr c ESP \<and>
     words_at (ram (leave c)) (gpr c ESP + 4) 14 = words_at (ram c) (gpr c ESP + 4) 14)"

section \<open>The stubs\<close>

datatype c_handler = Isr_handler | Irq_handler

definition isr_common_stub :: "c_handler instr list" where
  "isr_common_stub =
     [Pusha, Mov_low_seg EAX DS, Push EAX,
      Mov_low EAX 0x10, Mov_seg_low DS EAX, Mov_seg_low ES EAX, Mov_seg_low FS EAX, Mov_seg_low GS EAX,
      Push ESP, Cld, Call Isr_handler, Pop EAX, Pop EAX,
      Mov_seg_low DS EAX, Mov_seg_low ES EAX, Mov_seg_low FS EAX, Mov_seg_low GS EAX,
      Popa, Add_esp 8, Iret]"

definition irq_common_stub :: "c_handler instr list" where
  "irq_common_stub =
     [Pusha, Mov_low_seg EAX DS, Push EAX,
      Mov_low EAX 0x10, Mov_seg_low DS EAX, Mov_seg_low ES EAX, Mov_seg_low FS EAX, Mov_seg_low GS EAX,
      Push ESP, Cld, Call Irq_handler, Pop EBX, Pop EBX,
      Mov_seg_low DS EBX, Mov_seg_low ES EBX, Mov_seg_low FS EBX, Mov_seg_low GS EBX,
      Popa, Add_esp 8, Iret]"

text \<open>\<^verbatim>\<open>isr0\<close> to \<^verbatim>\<open>isr31\<close>: some exceptions come with an error code, the others get a zero.\<close>

definition isr_code :: "nat \<Rightarrow> c_handler instr list" where
  "isr_code n =
     (if n \<in> {8, 10, 11, 12, 13, 14} then [] else [Push_byte 0]) @ [Push_byte (of_nat n)] @ isr_common_stub"

definition irq_code :: "nat \<Rightarrow> c_handler instr list" where
  "irq_code n = [Push_byte (of_nat n), Push_byte (of_nat (32 + n))] @ irq_common_stub"

text \<open>The handlers read the frame through the pointer that is their argument.\<close>

definition registers_at :: "mem \<Rightarrow> u32 \<Rightarrow> registers" where
  "registers_at m p =
     \<lparr>ds = load32 m p, edi = load32 m (p + 4), esi = load32 m (p + 8), ebp = load32 m (p + 12),
      useless = load32 m (p + 16), ebx = load32 m (p + 20), edx = load32 m (p + 24), ecx = load32 m (p + 28),
      eax = load32 m (p + 32), int_no = load32 m (p + 36), err_code = load32 m (p + 40),
      eip = load32 m (p + 44), cs = load32 m (p + 48), eflags = load32 m (p + 52),
      esp = load32 m (p + 56), ss = load32 m (p + 60)\<rparr>"

definition call_handlers :: "('h \<Rightarrow> registers \<Rightarrow> env \<times> 's \<Rightarrow> (env \<times> 's) outcome res) \<Rightarrow> 'h handlers \<Rightarrow>
    c_handler \<Rightarrow> mem \<Rightarrow> u32 \<Rightarrow> env \<times> 's \<Rightarrow> (env \<times> 's) outcome res" where
  "call_handlers run hs f m sp st = (case f of
     Isr_handler \<Rightarrow> isr_handler run hs (registers_at m (load32 m sp)) st
   | Irq_handler \<Rightarrow> irq_handler run hs (registers_at m (load32 m sp)) st)"

text \<open>
  The processor delivers an interrupt to the kernel through an interrupt gate: it pushes the flags, the code
  segment, the address to resume at and the error code, if the exception has one, and clears the interrupt and trap
  flags. The kernel always runs in ring 0, so the stack is not switched, and \<^verbatim>\<open>ss\<close> and \<^verbatim>\<open>esp\<close> are not pushed.
\<close>

definition deliver :: "u16 \<Rightarrow> u32 \<Rightarrow> u32 option \<Rightarrow> x86 \<Rightarrow> x86" where
  "deliver sel base code c =
     (let d = push32 (resume_at c) (push32 (ucast (code_seg c)) (push32 (psw c) c));
          d = (case code of None \<Rightarrow> d | Some w \<Rightarrow> push32 w d)
      in d\<lparr>resume_at := base, code_seg := sel, psw := psw c AND NOT 0x300\<rparr>)"

section \<open>The stack\<close>

definition stack :: "nat \<Rightarrow> x86 \<Rightarrow> u32 list" where
  "stack n c = words_at (ram c) (gpr c ESP) n"

lemma words_at_Suc: "words_at m a (Suc n) = load32 m a # words_at m (a + 4) n"
  by (simp add: words_at_def upt_conv_Cons del: upt_Suc flip: map_Suc_upt) (simp add: add.assoc)

lemma stack_push:
  assumes "0 < n" "4 * n \<le> 2 ^ 32"
  shows "stack n (push32 v c) = v # stack (n - 1) c"
proof -
  obtain k where n: "n = Suc k" using assms(1) by (cases n) auto
  have "words_at (store32 (ram c) (gpr c ESP - 4 + 4 * of_nat 0) v) (gpr c ESP - 4) n =
      (words_at (ram c) (gpr c ESP - 4) n)[0 := v]"
    using assms by (intro words_at_store) auto
  then show ?thesis by (simp add: stack_def push32_def set_reg_def Let_def n words_at_Suc)
qed

lemma push32_simps [simp]:
  "sreg (push32 v c) = sreg c" "resume_at (push32 v c) = resume_at c" "code_seg (push32 v c) = code_seg c"
  "psw (push32 v c) = psw c" "gpr (push32 v c) = (gpr c)(ESP := gpr c ESP - 4)"
  by (simp_all add: push32_def set_reg_def Let_def)

lemma stack_cong: "ram d = ram c \<Longrightarrow> gpr d ESP = gpr c ESP \<Longrightarrow> stack n d = stack n c"
  by (simp add: stack_def)

lemma exec_until_call:
  assumes "\<forall>f. Call f \<notin> set is"
  shows "exec call leave (is @ js) (c, s) = exec call leave js (fold cpu_step is c, s)"
  using assms
proof (induction "is" arbitrary: c)
  case (Cons i "is")
  then show ?case by (cases i) auto
qed simp

text \<open>The frame of an interrupt with number \<open>no\<close> and error code \<open>code\<close>, as the handlers see it.\<close>

definition frame_of :: "u32 \<Rightarrow> u32 \<Rightarrow> x86 \<Rightarrow> registers" where
  "frame_of no code c =
     \<lparr>ds = (gpr c EAX AND 0xFFFF0000) OR ucast (sreg c DS), edi = gpr c EDI, esi = gpr c ESI, ebp = gpr c EBP,
      useless = gpr c ESP - 20, ebx = gpr c EBX, edx = gpr c EDX, ecx = gpr c ECX, eax = gpr c EAX,
      int_no = no, err_code = code, eip = resume_at c, cs = ucast (code_seg c), eflags = psw c,
      esp = load32 (ram c) (gpr c ESP), ss = load32 (ram c) (gpr c ESP + 4)\<rparr>"

text \<open>The common part of both stubs up to the call.\<close>

definition save_code :: "c_handler instr list" where
  "save_code =
     [Pusha, Mov_low_seg EAX DS, Push EAX,
      Mov_low EAX 0x10, Mov_seg_low DS EAX, Mov_seg_low ES EAX, Mov_seg_low FS EAX, Mov_seg_low GS EAX,
      Push ESP, Cld]"

lemma registers_of_words:
  assumes "words_at m p 16 = [w0, w1, w2, w3, w4, w5, w6, w7, w8, w9, w10, w11, w12, w13, w14, w15]"
  shows "registers_at m p = \<lparr>ds = w0, edi = w1, esi = w2, ebp = w3, useless = w4, ebx = w5, edx = w6, ecx = w7,
    eax = w8, int_no = w9, err_code = w10, eip = w11, cs = w12, eflags = w13, esp = w14, ss = w15\<rparr>"
proof -
  have w: "load32 m (p + 4 * of_nat i) =
      [w0, w1, w2, w3, w4, w5, w6, w7, w8, w9, w10, w11, w12, w13, w14, w15] ! i" if "i < 16" for i
    using that nth_words_at [of i 16 m p] by (simp only: assms)
  show ?thesis
    using w [of 0] w [of 1] w [of 2] w [of 3] w [of 4] w [of 5] w [of 6] w [of 7] w [of 8] w [of 9] w [of 10]
      w [of 11] w [of 12] w [of 13] w [of 14] w [of 15]
    by (simp add: registers_at_def)
qed

lemma stack_updates [simp]:
  "stack n (set_reg r v c) = (if r = ESP then words_at (ram c) v n else stack n c)"
  "stack n (c\<lparr>sreg := s\<rparr>) = stack n c" "stack n (c\<lparr>psw := f\<rparr>) = stack n c"
  "stack n (c\<lparr>resume_at := a\<rparr>) = stack n c" "stack n (c\<lparr>code_seg := sl\<rparr>) = stack n c"
  by (simp_all add: stack_def set_reg_def)

lemma set_reg_simps [simp]:
  "gpr (set_reg r v c) = (gpr c)(r := v)" "sreg (set_reg r v c) = sreg c" "ram (set_reg r v c) = ram c"
  "resume_at (set_reg r v c) = resume_at c" "code_seg (set_reg r v c) = code_seg c" "psw (set_reg r v c) = psw c"
  by (simp_all add: set_reg_def)

lemma stack_two: "stack 2 c = [load32 (ram c) (gpr c ESP), load32 (ram c) (gpr c ESP + 4)]"
  by (simp add: stack_def numeral_2_eq_2 words_at_Suc) (simp add: words_at_def)

lemma pusha_effect:
  "4 * (8 + n) \<le> 2 ^ 32 \<Longrightarrow> stack (8 + n) (cpu_step Pusha c) =
    [gpr c EDI, gpr c ESI, gpr c EBP, gpr c ESP, gpr c EBX, gpr c EDX, gpr c ECX, gpr c EAX] @ stack n c"
  "gpr (cpu_step Pusha c) = (gpr c)(ESP := gpr c ESP - 32)" "sreg (cpu_step Pusha c) = sreg c"
  by (simp_all add: stack_push)

declare cpu_step.simps(4) [simp del]

lemma saved_frame:
  assumes "stack 7 d = no # code # resume # cseg # fl # rest" "gpr d = (gpr c)(ESP := gpr c ESP - 20)" "sreg d = sreg c"
  shows "stack 17 (fold cpu_step save_code d) = (gpr c ESP - 56) #
      [(gpr c EAX AND 0xFFFF0000) OR ucast (sreg c DS), gpr c EDI, gpr c ESI, gpr c EBP, gpr c ESP - 20,
       gpr c EBX, gpr c EDX, gpr c ECX, gpr c EAX, no, code, resume, cseg, fl] @ rest"
    "gpr (fold cpu_step save_code d) ESP = gpr c ESP - 60"
proof -
  define d1 where "d1 = cpu_step (Pusha :: c_handler instr) d"
  have s1: "stack 15 d1 = [gpr c EDI, gpr c ESI, gpr c EBP, gpr c ESP - 20, gpr c EBX, gpr c EDX, gpr c ECX, gpr c EAX,
      no, code, resume, cseg, fl] @ rest"
    using pusha_effect(1) [of 7 d] assms(1,2) by (simp add: d1_def)
  have g1: "gpr d1 = (gpr c)(ESP := gpr c ESP - 52)" "sreg d1 = sreg c"
    using pusha_effect(2,3) [of d] assms(2,3) by (simp_all add: d1_def)
  define d2 where "d2 = fold cpu_step [Mov_low_seg EAX DS, Push EAX :: c_handler instr] d1"
  have s2: "stack 16 d2 = ((gpr c EAX AND 0xFFFF0000) OR ucast (sreg c DS)) # stack 15 d1"
    "gpr d2 ESP = gpr c ESP - 56" "gpr d2 = (gpr d2)(ESP := gpr c ESP - 56)"
    by (simp_all add: d2_def set_low_def stack_push g1)
  define d3 where "d3 = fold cpu_step [Mov_low EAX 0x10, Mov_seg_low DS EAX, Mov_seg_low ES EAX, Mov_seg_low FS EAX,
    Mov_seg_low GS EAX :: c_handler instr] d2"
  have s3: "stack 16 d3 = stack 16 d2" "gpr d3 ESP = gpr c ESP - 56"
    by (simp_all add: d3_def set_low_def s2(2))
  have "fold cpu_step save_code d = cpu_step (Cld :: c_handler instr) (cpu_step (Push ESP :: c_handler instr) d3)"
    unfolding save_code_def d3_def d2_def d1_def by (simp only: fold_simps comp_apply id_apply)
  then show "stack 17 (fold cpu_step save_code d) = (gpr c ESP - 56) #
      [(gpr c EAX AND 0xFFFF0000) OR ucast (sreg c DS), gpr c EDI, gpr c ESI, gpr c EBP, gpr c ESP - 20,
       gpr c EBX, gpr c EDX, gpr c ECX, gpr c EAX, no, code, resume, cseg, fl] @ rest"
    "gpr (fold cpu_step save_code d) ESP = gpr c ESP - 60"
    by (simp_all add: stack_push s3 s2(1) s1)
qed

text \<open>What the processor and the first instructions of a stub push.\<close>

lemma delivered_irq:
  fixes no code :: u8 and c :: x86
  assumes "d = fold cpu_step [Push_byte code, Push_byte no] (deliver sel base None c)"
  shows "stack 7 d = scast no # scast code # resume_at c # ucast (code_seg c) # psw c # stack 2 c"
    "gpr d = (gpr c)(ESP := gpr c ESP - 20)" "sreg d = sreg c"
  unfolding assms by (simp_all add: deliver_def Let_def stack_push)

lemma delivered_code:
  fixes no :: u8 and c :: x86
  assumes "d = fold cpu_step [Push_byte no] (deliver sel base (Some w) c)"
  shows "stack 7 d = scast no # w # resume_at c # ucast (code_seg c) # psw c # stack 2 c"
    "gpr d = (gpr c)(ESP := gpr c ESP - 20)" "sreg d = sreg c"
  unfolding assms by (simp_all add: deliver_def Let_def stack_push)

section \<open>Back to the interrupted code\<close>

text \<open>The common part of both stubs after the call; they differ in a register that \<^verbatim>\<open>popa\<close> overwrites.\<close>

definition restore_code :: "reg \<Rightarrow> c_handler instr list" where
  "restore_code r =
     [Pop r, Pop r, Mov_seg_low DS r, Mov_seg_low ES r, Mov_seg_low FS r, Mov_seg_low GS r, Popa, Add_esp 8, Iret]"

lemma pop_reg_simps [simp]:
  "ram (pop_reg r c) = ram c" "sreg (pop_reg r c) = sreg c"
  "gpr (pop_reg r c) = (gpr c)(ESP := gpr c ESP + 4, r := load32 (ram c) (gpr c ESP))"
  by (simp_all add: pop_reg_def pop32_def)

lemma pop_none_simps [simp]:
  "ram (pop_none c) = ram c" "sreg (pop_none c) = sreg c" "gpr (pop_none c) = (gpr c)(ESP := gpr c ESP + 4)"
  by (simp_all add: pop_none_def pop32_def)

lemma popa_effect:
  assumes "words_at (ram c) (gpr c ESP) 8 = [di, si, bp, w, bx, dx, cx, ax]"
  shows "gpr (cpu_step Popa c) = (\<lambda>r. case r of EAX \<Rightarrow> ax | ECX \<Rightarrow> cx | EDX \<Rightarrow> dx | EBX \<Rightarrow> bx
      | ESP \<Rightarrow> gpr c ESP + 32 | EBP \<Rightarrow> bp | ESI \<Rightarrow> si | EDI \<Rightarrow> di)"
    "ram (cpu_step Popa c) = ram c" "sreg (cpu_step Popa c) = sreg c"
proof -
  have w: "load32 (ram c) (gpr c ESP + 4 * of_nat i) = [di, si, bp, w, bx, dx, cx, ax] ! i" if "i < 8" for i
    using that nth_words_at [of i 8 "ram c" "gpr c ESP"] by (simp only: assms)
  show "gpr (cpu_step Popa c) = (\<lambda>r. case r of EAX \<Rightarrow> ax | ECX \<Rightarrow> cx | EDX \<Rightarrow> dx | EBX \<Rightarrow> bx
      | ESP \<Rightarrow> gpr c ESP + 32 | EBP \<Rightarrow> bp | ESI \<Rightarrow> si | EDI \<Rightarrow> di)"
    using w [of 0] w [of 1] w [of 2] w [of 4] w [of 5] w [of 6] w [of 7]
    by (intro ext) (simp add: add.assoc split: reg.split)
qed simp_all

declare cpu_step.simps(5) [simp del]

lemma restored:
  assumes "words_at (ram c) (gpr c ESP + 4) 14 = [dw, di, si, bp, w, bx, dx, cx, ax, no, code, ip, cw, fl]" "r \<noteq> ESP"
  shows "fold cpu_step (restore_code r) c = \<lparr>gpr = (\<lambda>r. case r of EAX \<Rightarrow> ax | ECX \<Rightarrow> cx | EDX \<Rightarrow> dx | EBX \<Rightarrow> bx
      | ESP \<Rightarrow> gpr c ESP + 60 | EBP \<Rightarrow> bp | ESI \<Rightarrow> si | EDI \<Rightarrow> di),
    sreg = (\<lambda>_. ucast dw), resume_at = ip, code_seg = ucast cw, psw = fl, ram = ram c\<rparr>"
proof -
  define sp where "sp = gpr c ESP"
  have w: "load32 (ram c) (sp + 4 + 4 * of_nat i) = [dw, di, si, bp, w, bx, dx, cx, ax, no, code, ip, cw, fl] ! i"
    if "i < 14" for i
    using that nth_words_at [of i 14 "ram c" "gpr c ESP + 4"] by (simp only: assms sp_def)
  define d where "d = fold cpu_step [Pop r, Pop r, Mov_seg_low DS r, Mov_seg_low ES r, Mov_seg_low FS r, Mov_seg_low GS r :: c_handler instr] c"
  have "sreg d s = ucast dw" for s
    using w [of 0] assms(2) by (cases s) (simp_all add: d_def sp_def)
  then have d: "sreg d = (\<lambda>_. ucast dw)" "ram d = ram c" "gpr d ESP = sp + 8"
    using assms(2) by (auto simp: d_def sp_def)
  have "words_at (ram d) (gpr d ESP) 8 = [di, si, bp, w, bx, dx, cx, ax]"
    using w [of 1] w [of 2] w [of 3] w [of 4] w [of 5] w [of 6] w [of 7] w [of 8]
    by (simp add: d numeral_eq_Suc words_at_Suc add.assoc) (simp add: words_at_def)
  note p = popa_effect [OF this]
  have run: "fold cpu_step (restore_code r) c =
      cpu_step (Iret :: c_handler instr) (cpu_step (Add_esp 8 :: c_handler instr) (cpu_step (Popa :: c_handler instr) d))"
    unfolding restore_code_def d_def by (simp only: fold_simps comp_apply id_apply)
  show ?thesis
    using w [of 11] w [of 12] w [of 13] unfolding run
    by (intro x86.equality) (auto simp: pop32_def p d add.assoc sp_def split: reg.split)
qed

section \<open>Whole stubs\<close>

lemma scast_small: "n < 128 \<Longrightarrow> scast (of_nat n :: u8) = (of_nat n :: u32)"
proof -
  assume n: "n < 128"
  then have "sint (of_nat n :: u8) = int n"
    by (simp add: signed_of_nat signed_take_bit_int_eq_self)
  then show ?thesis by (simp add: scast_eq)
qed

lemma ucast_low_half: "ucast ((x AND 0xFFFF0000) OR ucast (y :: u16) :: u32) = y"
proof (rule bit_word_eqI)
  fix i assume i: "i < LENGTH(16)"
  have m: "(0xFFFF0000 :: u32) = push_bit 16 (mask 16)" by (simp add: mask_eq_exp_minus_1)
  have "\<not> bit (0xFFFF0000 :: u32) i" using i unfolding m by (simp add: bit_simps)
  then show "bit (ucast ((x AND 0xFFFF0000) OR ucast y :: u32) :: u16) i = bit y i"
    using i by (simp add: bit_simps)
qed

lemma ucast_code_seg: "ucast (ucast (x :: u16) :: u32) = x"
  by (rule bit_word_eqI) (simp add: bit_simps)

lemma common_stubs:
  "isr_common_stub = save_code @ Call Isr_handler # restore_code EAX"
  "irq_common_stub = save_code @ Call Irq_handler # restore_code EBX"
  by (simp_all add: isr_common_stub_def irq_common_stub_def save_code_def restore_code_def)

lemma save_code_calls: "\<forall>f. Call f \<notin> set save_code"
  by (simp add: save_code_def)

lemma restore_code_calls: "\<forall>f. Call f \<notin> set (restore_code r)"
  by (simp add: restore_code_def)

text \<open>A common stub entered with a frame on the stack: what the handler sees, and the return.\<close>

lemma common_stub:
  assumes "stack 7 d = no # code # resume # cseg # fl # [w1, w2]" "gpr d = (gpr c)(ESP := gpr c ESP - 20)"
    "sreg d = sreg c" "cdecl leave"
  shows "\<exists>d'. registers_at (ram d') (load32 (ram d') (gpr d' ESP)) =
      (frame_of no code c)\<lparr>eip := resume, cs := cseg, eflags := fl, esp := w1, ss := w2\<rparr> \<and>
    (\<forall>f js s. exec (call_handlers run hs) leave (save_code @ Call f # js) (d, s) =
      res_bind (call_handlers run hs f (ram d') (gpr d' ESP) s) (\<lambda>r. case r of
        Running s \<Rightarrow> exec (call_handlers run hs) leave js (leave d', s) | Stopped s \<Rightarrow> Inr (Stopped (d', s)))) \<and>
    (\<forall>r. r \<noteq> ESP \<longrightarrow> fold cpu_step (restore_code r) (leave d') = \<lparr>gpr = gpr c, sreg = (\<lambda>_. sreg c DS), resume_at = resume,
      code_seg = ucast cseg, psw = fl, ram = ram (leave d')\<rparr>)"
proof -
  define d' where "d' = fold cpu_step save_code d"
  let ?ds = "(gpr c EAX AND 0xFFFF0000) OR ucast (sreg c DS)"
  let ?ws = "[?ds, gpr c EDI, gpr c ESI, gpr c EBP, gpr c ESP - 20, gpr c EBX, gpr c EDX, gpr c ECX, gpr c EAX,
    no, code, resume, cseg, fl]"
  note saved = saved_frame [OF assms(1-3), folded d'_def]
  have "Suc 16 = 17" by simp
  with saved(1) have at: "load32 (ram d') (gpr d' ESP) = gpr c ESP - 56"
    "words_at (ram d') (gpr d' ESP + 4) 16 = ?ws @ [w1, w2]"
    unfolding stack_def by (metis words_at_Suc list.inject)+
  have sp: "gpr d' ESP + 4 = gpr c ESP - 56" using saved(2) by simp
  have "words_at (ram d') (gpr d' ESP + 4) 14 = ?ws"
    using arg_cong [OF at(2), of "take 14"] by (simp add: take_words_at)
  then have left: "words_at (ram (leave d')) (gpr (leave d') ESP + 4) 14 = ?ws" "gpr (leave d') ESP = gpr c ESP - 60"
    using assms(4)[unfolded cdecl_def, rule_format, of d'] saved(2) by simp_all
  have "registers_at (ram d') (load32 (ram d') (gpr d' ESP)) =
      (frame_of no code c)\<lparr>eip := resume, cs := cseg, eflags := fl, esp := w1, ss := w2\<rparr>"
    using registers_of_words [of "ram d'" "gpr c ESP - 56"] at(2) unfolding at(1) sp
    by (simp add: frame_of_def)
  moreover have "exec (call_handlers run hs) leave (save_code @ Call f # js) (d, s) =
      res_bind (call_handlers run hs f (ram d') (gpr d' ESP) s) (\<lambda>r. case r of
        Running s \<Rightarrow> exec (call_handlers run hs) leave js (leave d', s) | Stopped s \<Rightarrow> Inr (Stopped (d', s)))" for f js s
    by (simp add: exec_until_call [OF save_code_calls] flip: d'_def)
  moreover have "fold cpu_step (restore_code r) (leave d') = \<lparr>gpr = gpr c, sreg = (\<lambda>_. sreg c DS), resume_at = resume,
      code_seg = ucast cseg, psw = fl, ram = ram (leave d')\<rparr>" if "r \<noteq> ESP" for r
    unfolding restored [OF left(1) that] left(2) by (auto simp: ucast_low_half split: reg.split)
  ultimately show ?thesis by blast
qed

text \<open>An interrupt of the two controllers, whatever handlers are registered.\<close>

lemma irq_stub_runs:
  assumes "n < 16" "cdecl leave" "irq_handler run hs (frame_of (of_nat (32 + n)) (of_nat n) c) s = Inr (Running s')"
  shows "\<exists>m. exec (call_handlers run hs) leave (irq_code n) (deliver sel base None c, s) =
    Inr (Running (c\<lparr>sreg := (\<lambda>_. sreg c DS), ram := m\<rparr>, s'))"
proof -
  define d where "d = fold cpu_step [Push_byte (of_nat n), Push_byte (of_nat (32 + n)) :: c_handler instr] (deliver sel base None c)"
  note frame = delivered_irq [OF d_def, unfolded stack_two]
  have no: "scast (of_nat (32 + n) :: u8) = (of_nat (32 + n) :: u32)" "scast (of_nat n :: u8) = (of_nat n :: u32)"
    using assms(1) by (intro scast_small; simp)+
  from common_stub [OF frame assms(2), unfolded no, of run hs] obtain d' where A:
    "registers_at (ram d') (load32 (ram d') (gpr d' ESP)) = (frame_of (of_nat (32 + n)) (of_nat n) c)\<lparr>eip := resume_at c,
      cs := ucast (code_seg c), eflags := psw c, esp := load32 (ram c) (gpr c ESP), ss := load32 (ram c) (gpr c ESP + 4)\<rparr>"
    and B: "\<forall>f js s. exec (call_handlers run hs) leave (save_code @ Call f # js) (d, s) =
      res_bind (call_handlers run hs f (ram d') (gpr d' ESP) s) (\<lambda>r. case r of
        Running s \<Rightarrow> exec (call_handlers run hs) leave js (leave d', s) | Stopped s \<Rightarrow> Inr (Stopped (d', s)))"
    and C: "\<forall>r. r \<noteq> ESP \<longrightarrow> fold cpu_step (restore_code r) (leave d') = \<lparr>gpr = gpr c, sreg = (\<lambda>_. sreg c DS),
      resume_at = resume_at c, code_seg = ucast (ucast (code_seg c) :: u32), psw = psw c, ram = ram (leave d')\<rparr>"
    by blast
  have frame: "registers_at (ram d') (load32 (ram d') (gpr d' ESP)) = frame_of (of_nat (32 + n)) (of_nat n) c"
    unfolding A by (simp add: frame_of_def)
  have restore: "fold cpu_step (restore_code EBX) (leave d') = c\<lparr>sreg := (\<lambda>_. sreg c DS), ram := ram (leave d')\<rparr>"
    using C ucast_code_seg by (intro x86.equality) simp_all
  have "exec (call_handlers run hs) leave (irq_code n) (deliver sel base None c, s) =
      exec (call_handlers run hs) leave (save_code @ Call Irq_handler # restore_code EBX) (d, s)"
    by (simp add: irq_code_def common_stubs d_def del: of_nat_add)
  also have "\<dots> = exec (call_handlers run hs) leave (restore_code EBX @ []) (leave d', s')"
    unfolding B [rule_format] by (simp add: call_handlers_def frame assms(3) del: of_nat_add)
  also have "\<dots> = Inr (Running (c\<lparr>sreg := (\<lambda>_. sreg c DS), ram := ram (leave d')\<rparr>, s'))"
    unfolding exec_until_call [OF restore_code_calls] restore by simp
  finally show ?thesis by blast
qed

text \<open>The exceptions for which the processor pushes an error code.\<close>

definition has_error_code :: "nat \<Rightarrow> bool" where
  "has_error_code n \<longleftrightarrow> n \<in> {8, 10, 11, 12, 13, 14, 17}"

lemma isr_stub_stops:
  assumes "n < 32" "cdecl leave" "isr_handler run hs F s = Inr (Stopped s')"
    and "F = (if n = 17
      then (frame_of 17 0 c)\<lparr>useless := gpr c ESP - 24, eip := w, cs := resume_at c, eflags := ucast (code_seg c),
        esp := psw c, ss := load32 (ram c) (gpr c ESP)\<rparr>
      else frame_of (of_nat n) (if has_error_code n then w else 0) c)"
  shows "\<exists>c'. exec (call_handlers run hs) leave (isr_code n)
      (deliver sel base (if has_error_code n then Some w else None) c, s) = Inr (Stopped (c', s')) \<and>
    registers_at (ram c') (load32 (ram c') (gpr c' ESP)) = F"
proof -
  let ?c = "deliver sel base (if has_error_code n then Some w else None) c"
  have no: "scast (of_nat n :: u8) = (of_nat n :: u32)" using assms(1) by (intro scast_small) simp
  define pre where "pre = (if n \<in> {8, 10, 11, 12, 13, 14} then [] else [Push_byte 0]) @ [Push_byte (of_nat n) :: c_handler instr]"
  define d where "d = fold cpu_step pre ?c"
  have run: "exec (call_handlers run hs) leave (isr_code n) (?c, s) =
      exec (call_handlers run hs) leave (save_code @ Call Isr_handler # restore_code EAX) (d, s)"
    unfolding isr_code_def common_stubs append_assoc [symmetric] pre_def [symmetric] d_def
    using exec_until_call [of pre] by (auto simp: pre_def)
  have "\<exists>no code resume cseg fl w1 w2 cc. stack 7 d = no # code # resume # cseg # fl # [w1, w2] \<and>
      gpr d = (gpr cc)(ESP := gpr cc ESP - 20) \<and> sreg d = sreg cc \<and>
      (frame_of no code cc)\<lparr>eip := resume, cs := cseg, eflags := fl, esp := w1, ss := w2\<rparr> = F"
  proof (cases "n = 17")
    case True
    let ?cc = "set_reg ESP (gpr c ESP - 4) c"
    have "stack 7 d = 17 # 0 # w # resume_at c # ucast (code_seg c) # [psw c, load32 (ram c) (gpr c ESP)]"
      using no True by (simp add: d_def pre_def deliver_def has_error_code_def Let_def stack_push) (simp add: stack_def words_at_Suc words_at_def)
    moreover have "gpr d = (gpr ?cc)(ESP := gpr ?cc ESP - 20)" "sreg d = sreg ?cc"
      using True by (simp_all add: d_def pre_def deliver_def has_error_code_def Let_def)
    moreover have "(frame_of 17 0 ?cc)\<lparr>eip := w, cs := resume_at c, eflags := ucast (code_seg c),
        esp := psw c, ss := load32 (ram c) (gpr c ESP)\<rparr> = F"
      using assms(4) True by (simp add: frame_of_def)
    ultimately show ?thesis by blast
  next
    case False
    have "stack 7 d = of_nat n # (if has_error_code n then w else 0) # resume_at c # ucast (code_seg c) # psw c #
        [load32 (ram c) (gpr c ESP), load32 (ram c) (gpr c ESP + 4)]"
      using no False stack_two [of c] by (auto simp: d_def pre_def deliver_def has_error_code_def Let_def stack_push)
    moreover have "gpr d = (gpr c)(ESP := gpr c ESP - 20)" "sreg d = sreg c"
      using False by (simp_all add: d_def pre_def deliver_def has_error_code_def Let_def)
    moreover have "(frame_of (of_nat n) (if has_error_code n then w else 0) c)\<lparr>eip := resume_at c, cs := ucast (code_seg c),
        eflags := psw c, esp := load32 (ram c) (gpr c ESP), ss := load32 (ram c) (gpr c ESP + 4)\<rparr> = F"
      using assms(4) False by (simp add: frame_of_def)
    ultimately show ?thesis by blast
  qed
  then obtain no code resume cseg fl w1 w2 cc where E: "stack 7 d = no # code # resume # cseg # fl # [w1, w2]"
    "gpr d = (gpr cc)(ESP := gpr cc ESP - 20)" "sreg d = sreg cc"
    "(frame_of no code cc)\<lparr>eip := resume, cs := cseg, eflags := fl, esp := w1, ss := w2\<rparr> = F" by blast
  from common_stub [OF E(1-3) assms(2), of run hs] obtain d' where
    A: "registers_at (ram d') (load32 (ram d') (gpr d' ESP)) = F" and
    B: "\<forall>f js s. exec (call_handlers run hs) leave (save_code @ Call f # js) (d, s) =
      res_bind (call_handlers run hs f (ram d') (gpr d' ESP) s) (\<lambda>r. case r of
        Running s \<Rightarrow> exec (call_handlers run hs) leave js (leave d', s) | Stopped s \<Rightarrow> Inr (Stopped (d', s)))"
    unfolding E(4) by blast
  have "exec (call_handlers run hs) leave (isr_code n) (?c, s) = Inr (Stopped (d', s'))"
    unfolding run B [rule_format] by (simp add: call_handlers_def A assms(3))
  then show ?thesis using A by blast
qed

lemma interrupt_handled:
  assumes "interrupt cr2 hs regs (sh, ticks) = Inr (Running (sh', ticks'))"
  shows "irq_handler (run_handler cr2) hs regs (skenv sh, skbd sh, ticks) = Inr (Running (skenv sh', skbd sh', ticks'))"
proof (cases "irq_handler (run_handler cr2) hs regs (skenv sh, skbd sh, ticks)")
  case (Inr r)
  then show ?thesis using assms by (cases r) (auto simp: interrupt_def)
qed (use assms in \<open>simp add: interrupt_def\<close>)

section \<open>Properties of the stubs\<close>

text \<open>
  C3. An interrupt of the controllers is transparent. Whatever the kernel does when it arrives, the stub runs the handler
  as \<open>interrupt\<close> does, on the registers of the interrupted code, and returns there: all general registers with the stack
  pointer, the flags, the code segment and the address are as they were. The data segments all become the one in
  \<^verbatim>\<open>ds\<close>, the only one saved.
\<close>
theorem irq_stub_transparent:
  assumes "n < 16" "cdecl leave" "booted hs" "shell_wf sh"
  shows "\<exists>sh' ticks' m.
    interrupt cr2 hs (frame_of (of_nat (32 + n)) (of_nat n) c) (sh, ticks) = Inr (Running (sh', ticks')) \<and>
    exec (call_handlers (run_handler cr2) hs) leave (irq_code n) (deliver sel base None c, (skenv sh, skbd sh, ticks)) =
      Inr (Running (c\<lparr>sreg := (\<lambda>_. sreg c DS), ram := m\<rparr>, (skenv sh', skbd sh', ticks')))"
proof -
  let ?f = "frame_of (of_nat (32 + n)) (of_nat n) c"
  have no: "unat (int_no ?f) = 32 + n" using assms(1) by (simp add: frame_of_def unat_of_nat_small del: of_nat_add)
  then have "32 \<le> unat (int_no ?f)" "unat (int_no ?f) < 48" using assms(1) by simp_all
  from interrupt_runs [OF assms(3) this assms(4) refl, of cr2 ticks] obtain sh' ticks' where
    I: "interrupt cr2 hs ?f (sh, ticks) = Inr (Running (sh', ticks'))" by blast
  from irq_stub_runs [OF assms(1,2) interrupt_handled [OF I]] I show ?thesis by blast
qed

text \<open>
  C31. An exception ends in the panic report and a halt, whatever handler is registered for it. The stub gives the
  handler a frame with the general registers, the flags and the address of the interrupted code, the number of the
  vector, and the error code where the processor pushes one; the fields \<^verbatim>\<open>esp\<close> and \<^verbatim>\<open>ss\<close> of the frame are not
  registers but the two words on top of the interrupted stack. For vector 17 the stub pushes a zero in addition, so every field
  behind the error code is read one word too early. The handler sets the colour, asks \<^verbatim>\<open>kprintf\<close> for the
  report with the message of the vector, and halts. Run on any screen, these calls print without a fault exactly for the vectors other
  than 2, 4, 9 and 13; for those four the message overruns the buffer of \<^verbatim>\<open>kprintf\<close>, and what follows is not claimed.
\<close>
theorem exception_stub_halts:
  assumes "n < 32" "cdecl leave"
  shows "\<exists>c' e'. exec (call_handlers run hs) leave (isr_code n)
      (deliver sel base (if has_error_code n then Some w else None) c, (e, x)) = Inr (Stopped (c', (e', x))) \<and>
    klog e' = klog e @ [Set_color 4,
      Kprintf ''A system error has occured and system has been halted\<newline>'' [],
      Kprintf ''to prevent damage to your computer. Error information:\<newline>'' [],
      Kprintf ''%s Exception'' [ArgStr (exception_messages ! n)]] \<and>
    (\<forall>s. (\<exists>s'. run_calls (drop (length (klog e)) (klog e')) s = Inr s') \<longleftrightarrow> n \<notin> {2, 4, 9, 13}) \<and>
    registers_at (ram c') (load32 (ram c') (gpr c' ESP)) = (if n = 17
      then (frame_of 17 0 c)\<lparr>useless := gpr c ESP - 24, eip := w, cs := resume_at c, eflags := ucast (code_seg c),
        esp := psw c, ss := load32 (ram c) (gpr c ESP)\<rparr>
      else frame_of (of_nat n) (if has_error_code n then w else 0) c)"
proof -
  define F where "F = (if n = 17
      then (frame_of 17 0 c)\<lparr>useless := gpr c ESP - 24, eip := w, cs := resume_at c, eflags := ucast (code_seg c),
        esp := psw c, ss := load32 (ram c) (gpr c ESP)\<rparr>
      else frame_of (of_nat n) (if has_error_code n then w else 0) c)"
  have "int_no F = of_nat n" by (simp add: F_def frame_of_def)
  then have "unat (int_no F) = n" using assms(1) by (simp add: unat_of_nat_small)
  moreover have "length exception_messages = 32" by (simp add: exception_messages_def)
  ultimately have "\<exists>e'. isr_handler run hs F (e, x) = Inr (Stopped (e', x)) \<and> klog e' = klog e @ exception_report n"
    using assms(1) by (simp add: isr_handler_def kpanic_def kprintf_call_def set_color_call_def Let_def)
  then obtain e' where e': "isr_handler run hs F (e, x) = Inr (Stopped (e', x))" "klog e' = klog e @ exception_report n"
    by blast
  have "drop (length (klog e)) (klog e') = exception_report n" by (simp add: e'(2))
  then have screen: "\<forall>s. (\<exists>s'. run_calls (drop (length (klog e)) (klog e')) s = Inr s') \<longleftrightarrow> n \<notin> {2, 4, 9, 13}"
    using exception_report_runs(1) [OF assms(1)] by metis
  from isr_stub_stops [OF assms e'(1) F_def] e'(2) screen show ?thesis unfolding F_def by blast
qed

text \<open>A processor for the witnesses, and compiled code that leaves it as it was.\<close>

definition example_cpu :: x86 where
  "example_cpu = \<lparr>gpr = (\<lambda>r. if r = ESP then 0x109000 else 7), sreg = (\<lambda>_. 0x10), resume_at = 0x100200, code_seg = 8,
     psw = 0x202, ram = (\<lambda>_. 0)\<rparr>"

lemma cdecl_id: "cdecl (\<lambda>c. c)"
  by (simp add: cdecl_def)

theorem irq_stub_transparent_witness:
  "\<exists>e k m. exec (call_handlers (run_handler 0) (no_handlers(32 \<mapsto> Timer_callback, 33 \<mapsto> Keyboard_callback))) (\<lambda>c. c)
      (irq_code 0) (deliver 8 0x101000 None example_cpu, (skenv halt_keys, skbd halt_keys, 5)) =
    Inr (Running (example_cpu\<lparr>ram := m\<rparr>, (e, k, 6)))"
proof -
  let ?hs = "no_handlers(32 \<mapsto> Timer_callback, 33 \<mapsto> Keyboard_callback)"
  have hs: "booted ?hs" by (auto simp: booted_def no_handlers_def)
  have wf: "shell_wf halt_keys"
    using waiting_shell_facts [of "[]"] by (simp add: halt_keys_def shell_wf_def line_def)
  have zero: "(0 :: nat) < 16" by simp
  from irq_stub_transparent [OF zero cdecl_id hs wf, of 0 example_cpu 5 8 "0x101000"] obtain sh' ticks' m where
    I: "interrupt 0 ?hs (frame_of 32 0 example_cpu) (halt_keys, 5) = Inr (Running (sh', ticks'))" and
    E: "exec (call_handlers (run_handler 0) ?hs) (\<lambda>c. c) (irq_code 0)
        (deliver 8 0x101000 None example_cpu, (skenv halt_keys, skbd halt_keys, 5)) =
      Inr (Running (example_cpu\<lparr>sreg := (\<lambda>_. sreg example_cpu DS), ram := m\<rparr>, (skenv sh', skbd sh', ticks')))"
    by auto
  have "ticks' = 6"
    using I by (auto simp: interrupt_def irq_handler_def call_handler_def frame_of_def timer_callback_def)
  moreover have "example_cpu\<lparr>sreg := (\<lambda>_. sreg example_cpu DS), ram := m\<rparr> = example_cpu\<lparr>ram := m\<rparr>"
    by (simp add: example_cpu_def)
  ultimately show ?thesis using E by metis
qed

theorem exception_stub_halts_witness:
  "\<exists>c' e'. exec (call_handlers (\<lambda>h r st. Inr (Running st)) (no_handlers :: unit handlers)) (\<lambda>c. c) (isr_code 14)
      (deliver 8 0x100300 (Some 2) example_cpu, (skenv halt_keys, ())) = Inr (Stopped (c', (e', ()))) \<and>
    registers_at (ram c') (load32 (ram c') (gpr c' ESP)) = frame_of 14 2 example_cpu"
proof -
  have "(14 :: nat) < 32" by simp
  from exception_stub_halts [OF this cdecl_id, of "\<lambda>h r st. Inr (Running st)" "no_handlers :: unit handlers" 8 "0x100300" 2
      example_cpu "skenv halt_keys" "()"]
  show ?thesis by (auto simp: has_error_code_def)
qed

end
