(* ===== verification/Loader.thy ===== *)
theory Loader
  imports Entry
begin

text \<open>
  From the boot loader to \<^verbatim>\<open>kmain\<close>: the header \<^verbatim>\<open>kentry.asm\<close> puts into the image, in the format of \<^verbatim>\<open>multiboot.h\<close>, and
  the instructions at its entry point. What a loader does is in the Multiboot specification; here it is what
  the theorems assume of the processor on entry.
\<close>

section \<open>The header\<close>

record multiboot_header =
  header_magic :: u32
  header_flags :: u32
  checksum :: u32
  header_addr :: u32
  load_addr :: u32
  load_end_addr :: u32
  bss_end_addr :: u32
  entry_addr :: u32
  mode_type :: u32
  mode_width :: u32
  mode_height :: u32
  mode_depth :: u32

definition multiboot_header_at :: "mem \<Rightarrow> u32 \<Rightarrow> multiboot_header" where
  "multiboot_header_at m p =
     \<lparr>header_magic = load32 m p, header_flags = load32 m (p + 4), checksum = load32 m (p + 8),
      header_addr = load32 m (p + 12), load_addr = load32 m (p + 16), load_end_addr = load32 m (p + 20),
      bss_end_addr = load32 m (p + 24), entry_addr = load32 m (p + 28), mode_type = load32 m (p + 32),
      mode_width = load32 m (p + 36), mode_height = load32 m (p + 40), mode_depth = load32 m (p + 44)\<rparr>"

text \<open>The constants of \<^verbatim>\<open>multiboot.h\<close> on the flags of a header.\<close>

definition MULTIBOOT_HEADER_MAGIC :: u32 where
  "MULTIBOOT_HEADER_MAGIC = 0x1BADB002"

definition MULTIBOOT_BOOTLOADER_MAGIC :: u32 where
  "MULTIBOOT_BOOTLOADER_MAGIC = 0x2BADB002"

definition MULTIBOOT_UNSUPPORTED :: u32 where
  "MULTIBOOT_UNSUPPORTED = 0x0000fffc"

definition MULTIBOOT_PAGE_ALIGN :: u32 where
  "MULTIBOOT_PAGE_ALIGN = 0x00000001"

definition MULTIBOOT_MEMORY_INFO :: u32 where
  "MULTIBOOT_MEMORY_INFO = 0x00000002"

definition MULTIBOOT_AOUT_KLUDGE :: u32 where
  "MULTIBOOT_AOUT_KLUDGE = 0x00010000"

text \<open>
  What \<^verbatim>\<open>multiboot.h\<close> says of a header: the magic number, the sum of the first three fields, and no required
  feature it does not name. With \<^verbatim>\<open>AOUT_KLUDGE\<close> the five addresses say where the image goes.
\<close>

definition header_accepted :: "multiboot_header \<Rightarrow> bool" where
  "header_accepted h \<longleftrightarrow> header_magic h = MULTIBOOT_HEADER_MAGIC \<and>
     header_magic h + header_flags h + checksum h = 0 \<and> header_flags h AND MULTIBOOT_UNSUPPORTED = 0"

text \<open>The words at \<^verbatim>\<open>mboot\<close>; the linker provides the addresses.\<close>

record image =
  mboot_at :: u32
  code_at :: u32
  bss_at :: u32
  image_end :: u32
  entry_at :: u32
  kernel_stack :: u32

definition MULTIBOOT_HEADER_FLAGS :: u32 where
  "MULTIBOOT_HEADER_FLAGS = MULTIBOOT_PAGE_ALIGN OR MULTIBOOT_MEMORY_INFO OR MULTIBOOT_AOUT_KLUDGE"

definition mboot :: "image \<Rightarrow> u32 list" where
  "mboot im =
     [MULTIBOOT_HEADER_MAGIC, MULTIBOOT_HEADER_FLAGS, - (MULTIBOOT_HEADER_MAGIC + MULTIBOOT_HEADER_FLAGS),
      mboot_at im, code_at im, bss_at im, image_end im, entry_at im]"

section \<open>The entry\<close>

datatype c_main = Kmain

definition KERNEL_STACK_SIZE :: u32 where
  "KERNEL_STACK_SIZE = 16384"

text \<open>\<^verbatim>\<open>entry\<close>, up to the endless loop after the call.\<close>

definition entry_code :: "image \<Rightarrow> c_main instr list" where
  "entry_code im = [Mov_imm ESP (kernel_stack im + KERNEL_STACK_SIZE), Push EBX, Push EAX, Cli, Call Kmain]"

text \<open>\<^verbatim>\<open>kmain(magic, mbi)\<close> finds its arguments on the stack; the kernel's memory is that of the
  processor. Its shell never returns: \<open>Running\<close> is the state after so many turns, and no instruction is modelled
  after the call.\<close>

definition call_kmain :: "nat \<Rightarrow> nat \<Rightarrow> boot_info \<Rightarrow> u32 list \<Rightarrow> machine \<Rightarrow>
    c_main \<Rightarrow> mem \<Rightarrow> u32 \<Rightarrow> shell \<Rightarrow> shell outcome res" where
  "call_kmain fuel turns b rs k f m sp sh =
     kmain fuel turns b rs (load32 m (sp + 4)) (k\<lparr>kstate := (kstate k)\<lparr>kmem := m\<rparr>\<rparr>) sh"

definition entered :: "image \<Rightarrow> x86 \<Rightarrow> x86" where
  "entered im c = fold cpu_step (butlast (entry_code im)) c"

lemma exec_entry:
  "exec call leave (entry_code im) (c, sh) =
    res_bind (call Kmain (ram (entered im c)) (gpr (entered im c) ESP) sh) (\<lambda>r. case r of
      Running sh \<Rightarrow> Inr (Running (leave (entered im c), sh)) | Stopped sh \<Rightarrow> Inr (Stopped (entered im c, sh)))"
proof -
  have split: "entry_code im = butlast (entry_code im) @ [Call Kmain]" "\<forall>f. Call f \<notin> set (butlast (entry_code im))"
    by (simp_all add: entry_code_def)
  show ?thesis by (subst split(1), subst exec_until_call [OF split(2)]) (simp flip: entered_def)
qed

lemma entered_facts:
  assumes "unat (kernel_stack im) + 16384 \<le> 2 ^ 32"
  shows "gpr (entered im c) ESP = kernel_stack im + 16376" "load32 (ram (entered im c)) (kernel_stack im + 16376) = gpr c EAX"
    "load32 (ram (entered im c)) (kernel_stack im + 16380) = gpr c EBX" "psw (entered im c) = psw c AND NOT 0x200"
    "\<And>a. unat a + 4 \<le> unat (kernel_stack im) \<Longrightarrow> load32 (ram (entered im c)) a = load32 (ram c) a"
proof -
  let ?s = "kernel_stack im"
  have ram: "ram (entered im c) = store32 (store32 (ram c) (?s + 16380) (gpr c EBX)) (?s + 16376) (gpr c EAX)"
    by (simp add: entered_def entry_code_def KERNEL_STACK_SIZE_def push32_def Let_def add.commute)
  show "gpr (entered im c) ESP = ?s + 16376" "psw (entered im c) = psw c AND NOT 0x200"
    by (simp_all add: entered_def entry_code_def KERNEL_STACK_SIZE_def)
  show "load32 (ram (entered im c)) (?s + 16376) = gpr c EAX" by (simp add: ram)
  show "load32 (ram (entered im c)) (?s + 16380) = gpr c EBX"
    by (simp add: ram load32_store32_disjoint unat_word_ariths)
  show "load32 (ram (entered im c)) a = load32 (ram c) a" if "unat a + 4 \<le> unat ?s" for a
  proof -
    define s where "s = unat ?s"
    have s: "?s + 16380 = of_nat (s + 16380)" "?s + 16376 = of_nat (s + 16376)" "a = of_nat (unat a)"
      by (simp_all add: s_def)
    have "load32 (store32 m (of_nat (s + k)) v) (of_nat (unat a)) = load32 m (of_nat (unat a))" if "k \<le> 16380" for m k v
      by (rule load32_store32_nat) (use that \<open>unat a + 4 \<le> unat ?s\<close> assms in \<open>simp_all add: s_def\<close>)
    note keep = this [of 16380] this [of 16376]
    show ?thesis using keep unfolding ram s(1,2) by simp
  qed
qed

lemma header_accepted_mboot:
  assumes "words_at m p 8 = mboot im"
  shows "header_accepted (multiboot_header_at m p)" "entry_addr (multiboot_header_at m p) = entry_at im"
    "header_addr (multiboot_header_at m p) = mboot_at im"
proof -
  have w: "load32 m (p + 4 * of_nat i) = mboot im ! i" if "i < 8" for i
    using that nth_words_at [of i 8 m p] by (simp only: assms)
  note header = w [of 0] w [of 1] w [of 2] w [of 3] w [of 7]
  show "header_accepted (multiboot_header_at m p)"
    using header by (simp add: header_accepted_def multiboot_header_at_def mboot_def MULTIBOOT_HEADER_FLAGS_def
        MULTIBOOT_PAGE_ALIGN_def MULTIBOOT_MEMORY_INFO_def MULTIBOOT_AOUT_KLUDGE_def MULTIBOOT_UNSUPPORTED_def)
  show "entry_addr (multiboot_header_at m p) = entry_at im" "header_addr (multiboot_header_at m p) = mboot_at im"
    using header by (simp_all add: multiboot_header_at_def mboot_def)
qed

text \<open>
  C4. From the boot loader to the prompt, on a machine whose loader reports 74240 KB to 128 MB (131072 KB) of upper
  memory, for a kernel with the globals it is loaded with (no heap, placement address \<open>0x200000\<close>). The header in the image is one a Multiboot loader accepts, and names
  the entry. Entered there with the address of the loader's information in \<^verbatim>\<open>ebx\<close>, below the kernel's stack,
  the processor calls \<^verbatim>\<open>kmain\<close> on that stack with interrupts off and with \<^verbatim>\<open>eax\<close> and \<^verbatim>\<open>ebx\<close> as its arguments, and the
  kernel comes up and runs the shell. Nothing is claimed outside these bounds, so nothing about the 32 MB of the
  repository's own \<^verbatim>\<open>run_qemu.sh\<close> and \<^verbatim>\<open>bochs.txt\<close>.
\<close>
theorem loader_to_shell:
  assumes "words_at (ram c) (mboot_at im) 8 = mboot im"
    and "unat (gpr c EBX) + 12 \<le> unat (kernel_stack im)" "unat (kernel_stack im) + 16384 \<le> 2 ^ 32"
    and "74240 \<le> unat (mem_upper (multiboot_info_at (ram c) (gpr c EBX)))"
      "unat (mem_upper (multiboot_info_at (ram c) (gpr c EBX))) \<le> 131072"
    and "length (build_date b) < 20" "length (build_time b) < 20"
    and "placement_address (kstate k) = 0x200000" "kheap (kstate k) = None" "518 \<le> fuel" "shell_wf sh"
  shows "header_accepted (multiboot_header_at (ram c) (mboot_at im)) \<and>
    entry_addr (multiboot_header_at (ram c) (mboot_at im)) = entry_at im \<and>
    (\<exists>d m' sh0. gpr d ESP = kernel_stack im + 16376 \<and> \<not> bit (psw d) 9 \<and>
      load32 (ram d) (gpr d ESP) = gpr c EAX \<and> load32 (ram d) (gpr d ESP + 4) = gpr c EBX \<and>
      kmain_init fuel b (gpr c EBX) (k\<lparr>kstate := (kstate k)\<lparr>kmem := ram d\<rparr>\<rparr>) = Inr m' \<and> interrupts m' \<and>
      heap_inv (kstate m') [(True, 0x70000)] \<and> shell_wf sh0 \<and> line sh0 = [] \<and>
      (\<forall>turns. exec (call_kmain fuel turns b rs k) leave (entry_code im) (c, sh) =
        res_bind (lsh_turns turns rs sh0) (\<lambda>r. Inr (case r of
          Running sh \<Rightarrow> Running (leave d, sh) | Stopped sh \<Rightarrow> Stopped (d, sh)))))"
proof -
  define d where "d = entered im c"
  note E = entered_facts [OF assms(3), where c = c, folded d_def]
  have "unat (gpr c EBX + 8) + 4 \<le> unat (kernel_stack im)" using assms(2,3) by (simp add: unat_word_ariths)
  then have up: "mem_upper (multiboot_info_at (ram d) (gpr c EBX)) = mem_upper (multiboot_info_at (ram c) (gpr c EBX))"
    using E(5) by (simp add: multiboot_info_at_def)
  let ?k = "k\<lparr>kstate := (kstate k)\<lparr>kmem := ram d\<rparr>\<rparr>"
  obtain m' sh0 where K: "kmain_init fuel b (gpr c EBX) ?k = Inr m'" "interrupts m'"
    "heap_inv (kstate m') [(True, 0x70000)]" "shell_wf sh0" "line sh0 = []"
    "\<forall>turns. kmain fuel turns b rs (gpr c EBX) ?k sh = lsh_turns turns rs sh0"
    using kmain_runs [of b ?k "gpr c EBX" fuel sh rs] assms(4-11) up by auto
  have mbi: "load32 (ram d) (kernel_stack im + 16376 + 4) = gpr c EBX" using E(3) by (simp add: add.assoc)
  have "exec (call_kmain fuel turns b rs k) leave (entry_code im) (c, sh) =
      res_bind (lsh_turns turns rs sh0) (\<lambda>r. Inr (case r of
        Running sh \<Rightarrow> Running (leave d, sh) | Stopped sh \<Rightarrow> Stopped (d, sh)))" for turns
    unfolding exec_entry call_kmain_def d_def [symmetric] E(1) mbi K(6) [rule_format]
    by (intro arg_cong [where f = "res_bind _"] ext) (simp split: outcome.split)
  moreover have "\<not> bit (psw d) 9" unfolding E(4) by (simp add: bit_simps)
  ultimately show ?thesis
    using header_accepted_mboot [OF assms(1)] E(1,2) mbi K(1-5) by (intro conjI exI [of _ d] exI [of _ m'] exI [of _ sh0]) simp_all
qed

text \<open>A machine with 124 MB, the loader's information at 64 KB and the image at 1 MB.\<close>

definition example_image :: image where
  "example_image = \<lparr>mboot_at = 0x100040, code_at = 0x100000, bss_at = 0x108000, image_end = 0x110000,
     entry_at = 0x100010, kernel_stack = 0x108000\<rparr>"

definition loaded_cpu :: x86 where
  "loaded_cpu = fold push32 (rev (mboot example_image))
     \<lparr>gpr = (\<lambda>r. case r of EAX \<Rightarrow> MULTIBOOT_BOOTLOADER_MAGIC | EBX \<Rightarrow> 0x10000 | _ \<Rightarrow> 0x100060), sreg = (\<lambda>_. 0x10),
      resume_at = 0x100010, code_seg = 8, psw = 0x202, ram = store32 (\<lambda>_. 0) 0x10008 126976\<rparr>"

lemma loaded_cpu_facts:
  "words_at (ram loaded_cpu) 0x100040 8 = mboot example_image" "gpr loaded_cpu EBX = 0x10000"
  "gpr loaded_cpu EAX = 0x2BADB002" "load32 (ram loaded_cpu) 0x10008 = 126976"
proof -
  have "stack 8 loaded_cpu = mboot example_image"
    by (simp add: loaded_cpu_def mboot_def stack_push) (simp add: stack_def words_at_def)
  moreover have "gpr loaded_cpu ESP = 0x100040" by (simp add: loaded_cpu_def mboot_def)
  ultimately show "words_at (ram loaded_cpu) 0x100040 8 = mboot example_image" by (simp add: stack_def)
  show "gpr loaded_cpu EBX = 0x10000" "gpr loaded_cpu EAX = 0x2BADB002"
    by (simp_all add: loaded_cpu_def mboot_def MULTIBOOT_BOOTLOADER_MAGIC_def)
  show "load32 (ram loaded_cpu) 0x10008 = 126976"
    by (simp add: loaded_cpu_def mboot_def push32_def Let_def load32_store32_disjoint)
qed

theorem loader_to_shell_witness:
  "\<exists>d m' sh0. load32 (ram d) (gpr d ESP) = 0x2BADB002 \<and>
    kmain_init 518 example_info 0x10000 (example_machine\<lparr>kstate := (kstate example_machine)\<lparr>kmem := ram d\<rparr>\<rparr>) = Inr m' \<and>
    exec (call_kmain 518 1 example_info [] example_machine) (\<lambda>c. c) (entry_code example_image) (loaded_cpu, waiting_shell []) =
      res_bind (lsh_turns 1 [] sh0) (\<lambda>r. Inr (case r of Running sh \<Rightarrow> Running (d, sh) | Stopped sh \<Rightarrow> Stopped (d, sh)))"
proof -
  have sh: "shell_wf (waiting_shell [])" by (simp add: waiting_shell_facts)
  have im: "mboot_at example_image = 0x100040" "kernel_stack example_image = 0x108000"
    by (simp_all add: example_image_def)
  have up: "mem_upper (multiboot_info_at (ram loaded_cpu) (gpr loaded_cpu EBX)) = 126976"
    by (simp add: multiboot_info_at_def loaded_cpu_facts)
  have le: "518 \<le> (518 :: nat)" by simp
  from loader_to_shell [of loaded_cpu example_image example_info example_machine 518 "waiting_shell []" "[]" "\<lambda>c. c",
      THEN conjunct2, THEN conjunct2] sh example_facts(1,2,5,6) up im loaded_cpu_facts(1,2)
  obtain d m' sh0 where
    "load32 (ram d) (gpr d ESP) = gpr loaded_cpu EAX"
    "kmain_init 518 example_info (gpr loaded_cpu EBX)
      (example_machine\<lparr>kstate := (kstate example_machine)\<lparr>kmem := ram d\<rparr>\<rparr>) = Inr m'"
    "\<forall>turns. exec (call_kmain 518 turns example_info [] example_machine) (\<lambda>c. c) (entry_code example_image)
        (loaded_cpu, waiting_shell []) =
      res_bind (lsh_turns turns [] sh0) (\<lambda>r. Inr (case r of Running sh \<Rightarrow> Running (d, sh) | Stopped sh \<Rightarrow> Stopped (d, sh)))"
    by (auto simp del: lsh_turns.simps)
  then show ?thesis unfolding loaded_cpu_facts(2,3) by blast
qed

end
