(* ===== verification/Heap_Grow.thy ===== *)
theory Heap_Grow
  imports Heap_End
begin

text \<open>
  An allocation no hole is large enough for: \<^verbatim>\<open>expand\<close> moves the end of the heap, the endmost hole
  is given the new space, and \<^verbatim>\<open>alloc\<close> calls itself. This is right when that hole ends the heap;
  when blocks in use lie behind it, it swallows them.
\<close>

section \<open>The endmost hole\<close>

lemma endmost_from_spec:
  assumes "it \<le> oa_size a"
  shows "\<exists>idx'. endmost_from a m it idx val = Inr idx' \<and>
    (if \<exists>x \<in> set (drop (unat it) (oa_list a m)). val < x
     then \<exists>j < oa_size a. idx' = sint j \<and> val < oa_list a m ! unat j \<and>
       (\<forall>x \<in> set (drop (unat it) (oa_list a m)). x \<le> oa_list a m ! unat j)
     else idx' = idx)"
  using assms
proof (induction a m it idx val rule: endmost_from.induct)
  case (1 a m it idx val)
  show ?case
  proof (cases "it < oa_size a")
    case False
    then show ?thesis
      by (simp add: endmost_from.simps [of a m it] word_less_nat_alt)
  next
    case True
    then have lt: "unat it < unat (oa_size a)" by (simp add: word_less_nat_alt)
    define x where "x = oa_list a m ! unat it"
    have look: "lookup_ordered_array it a m = Inr x"
      using True lt by (simp add: lookup_ordered_array_def x_def oa_list_def slot_def)
    have d: "drop (unat it) (oa_list a m) = x # drop (Suc (unat it)) (oa_list a m)"
      unfolding x_def using lt by (intro Cons_nth_drop_Suc [symmetric]) simp
    have u: "unat (it + 1) = Suc (unat it)" by (rule unat_Suc_less [OF True])
    then have le: "it + 1 \<le> oa_size a" using lt by (simp add: word_le_nat_alt)
    show ?thesis
    proof (cases "val < x")
      case here: True
      from "1.IH"(1) [OF True look here le] obtain idx' where
        "endmost_from a m (it + 1) (sint it) x = Inr idx'"
        "if \<exists>y \<in> set (drop (Suc (unat it)) (oa_list a m)). x < y
         then \<exists>j < oa_size a. idx' = sint j \<and> x < oa_list a m ! unat j \<and>
           (\<forall>y \<in> set (drop (Suc (unat it)) (oa_list a m)). y \<le> oa_list a m ! unat j)
         else idx' = sint it"
        unfolding u by blast
      then show ?thesis
        using True here by (auto simp: endmost_from.simps [of a m it] look d x_def not_less split: if_splits
            intro: less_trans less_imp_le)
    next
      case False
      from "1.IH"(2) [OF True look False le] obtain idx' where
        "endmost_from a m (it + 1) idx val = Inr idx'"
        "if \<exists>y \<in> set (drop (Suc (unat it)) (oa_list a m)). val < y
         then \<exists>j < oa_size a. idx' = sint j \<and> val < oa_list a m ! unat j \<and>
           (\<forall>y \<in> set (drop (Suc (unat it)) (oa_list a m)). y \<le> oa_list a m ! unat j)
         else idx' = idx"
        unfolding u by blast
      then show ?thesis
        using True False by (auto simp: endmost_from.simps [of a m it] look d split: if_splits)
    qed
  qed
qed

section \<open>Expanding\<close>

lemma alloc_frame_area:
  assumes "heap_area N 256 st" "p < 4095"
    and "page = of_nat (heap_table (p div 1024)) + 4 * of_nat (p mod 1024)"
  shows "alloc_frame page k w st = (0, st)"
proof -
  have "p div 1024 < 4" "p mod 1024 < 1024" "1024 * (p div 1024) + p mod 1024 = p"
    using assms(2) by (simp_all add: div_less_iff_less_mult)
  then have "load32 (kmem st) page = page_entry (of_nat (area_frame 256 p)) False False 0"
    using assms unfolding heap_area_def by metis
  moreover have "area_frame 256 p = 533 + p" by (simp add: area_frame_def)
  moreover have "unat (take_bit 20 (of_nat (533 + p)) :: u32) = 533 + p"
    using assms(2) by (simp add: unsigned_take_bit_eq unat_of_nat_small take_bit_nat_eq_self del: of_nat_add)
  then have "take_bit 20 (of_nat (533 + p)) \<noteq> (0 :: u32)"
    by (metis add_is_0 unat_0 zero_neq_numeral)
  ultimately show ?thesis by (simp add: alloc_frame_def page_frame_addr_entry)
qed

lemma expand_loop_area:
  "heap_area N 256 st \<Longrightarrow> kheap st = Some h \<Longrightarrow> start_address h = of_nat (heap_page s) \<Longrightarrow>
    x \<le> y \<Longrightarrow> s + y \<le> 4095 \<Longrightarrow> y - x < fuel \<Longrightarrow>
    expand_loop fuel kap (of_nat (4096 * y)) (of_nat (4096 * x)) st = Inr st"
proof (induction fuel arbitrary: x)
  case (Suc fuel)
  have u: "unat (of_nat (4096 * x) :: u32) = 4096 * x" "unat (of_nat (4096 * y) :: u32) = 4096 * y"
    using Suc.prems(4,5) by (intro unat_of_nat_small, simp)+
  have lt: "of_nat (4096 * x) < (of_nat (4096 * y) :: u32) \<longleftrightarrow> x < y"
    unfolding word_less_nat_alt u by simp
  show ?case
  proof (cases "x < y")
    case False
    then show ?thesis by (simp add: lt del: of_nat_mult)
  next
    case True
    have "start_address h + of_nat (4096 * x) = of_nat (heap_page (s + x))"
      by (simp add: Suc.prems(3))
    moreover have sx: "s + x < 4095" using Suc.prems(5) True by simp
    moreover define page :: u32 where "page = of_nat (heap_table ((s + x) div 1024)) + 4 * of_nat ((s + x) mod 1024)"
    ultimately have "get_page kap (start_address h + of_nat (4096 * x)) (kernel_directory st) st = Inr (page, st)"
      using heap_area_get_page [OF Suc.prems(1), of "s + x" kap] by (simp del: of_nat_add of_nat_mult)
    moreover have "alloc_frame page k w st = (0, st)" for k w
      by (rule alloc_frame_area [OF Suc.prems(1) sx page_def])
    moreover have next_page: "of_nat (4096 * x) + page_size = (of_nat (4096 * Suc x) :: u32)" by simp
    moreover have "expand_loop fuel kap (of_nat (4096 * y)) (of_nat (4096 * Suc x)) st = Inr st"
      using Suc.prems True by (intro Suc.IH) auto
    ultimately show ?thesis
      using True lt by (simp add: with_heap_def Suc.prems(2) next_page del: of_nat_mult mult_Suc_right)
  qed
qed simp

text \<open>By how much the heap grows: whole pages, and one more when the size is whole pages already.\<close>

definition growth :: "nat \<Rightarrow> nat" where
  "growth n = Suc ((n + 20) div 4096)"

lemma growth_enough: "n + 20 < 4096 * growth n"
  using mod_less_divisor [of 4096 "n + 20"] div_mult_mod_eq [of "n + 20" 4096] by (simp add: growth_def)

lemma expand_area:
  assumes "heap_area N 256 st" "N \<le> 8192" "kheap st = Some h" "start_address h = of_nat (heap_page s)"
    and "end_address h = of_nat (heap_page (s + x))" "max_address h = of_nat (heap_page 4095)"
    and "0 < x" "s + x + growth n \<le> 4095"
  shows "expand kap (of_nat (4096 * x) + of_nat (n + 20)) st =
    Inr (set_heap (h\<lparr>end_address := of_nat (heap_page (s + x + growth n))\<rparr>)
      (klog_kst ''expand, new size: %x\<newline>'' [ArgInt (of_nat (4096 * x) + of_nat (n + 20))] st))"
proof -
  define ns :: nat where "ns = 4096 * x + (n + 20)"
  define st1 where "st1 = klog_kst ''expand, new size: %x\<newline>'' [ArgInt (of_nat ns)] st"
  have st1: "kheap st1 = Some h" "heap_area N 256 st1"
    using assms(3) heap_area_keep [OF assms(1,2)] by (simp_all add: st1_def)
  have len: "end_address h - start_address h = of_nat (4096 * x)" by (simp add: assms(4,5))
  have b: "4096 * x < ns" "ns < 4096 * (x + growth n)" "ns < 2 ^ 32" "x + growth n \<le> 4095"
    using growth_enough [of n] assms(8) by (simp_all add: ns_def)
  then have u: "unat (of_nat ns :: u32) = ns" "unat (of_nat (4096 * x) :: u32) = 4096 * x"
    by (simp_all add: unat_of_nat_small del: of_nat_mult)
  have pages: "4096 * (ns div 4096) + 4096 = 4096 * (x + growth n)"
    by (simp add: ns_def growth_def)
  have mask: "unat (of_nat ns AND 0xFFFFF000 :: u32) = 4096 * (ns div 4096)"
    by (simp add: unat_page_mask u(1))
  then have "(of_nat ns AND 0xFFFFF000 :: u32) = of_nat (4096 * (ns div 4096))"
    by (metis of_nat_unat ucast_id)
  then have round: "(of_nat ns AND 0xFFFFF000 :: u32) + page_size = of_nat (4096 * (x + growth n))"
    unfolding pages [symmetric] by simp
  have "unat (of_nat ns AND 0xFFFFF000 :: u32) \<noteq> 0"
    unfolding mask using b(1) assms(7) by (simp add: div_eq_0_iff)
  then have nz: "(of_nat ns AND 0xFFFFF000 :: u32) \<noteq> 0" by (metis unat_0)
  have end': "start_address h + of_nat (4096 * (x + growth n)) = of_nat (heap_page (s + x + growth n))"
    by (simp add: assms(4) algebra_simps)
  have hp: "unat (of_nat (heap_page q) :: u32) = heap_page q" if "q \<le> 4095" for q
    using that by (intro unat_of_nat_small) simp
  have max: "of_nat (heap_page (s + x + growth n)) \<le> max_address h"
    unfolding assms(6) word_le_nat_alt hp [OF assms(8)] hp [OF order_refl] using assms(8) by simp
  have "expand_loop page_fuel kap (of_nat (4096 * (x + growth n))) (of_nat (4096 * x)) st1 = Inr st1"
    by (rule expand_loop_area [OF st1(2,1) assms(4)]) (use assms(8) in \<open>simp_all add: page_fuel_def\<close>)
  moreover have "of_nat (4096 * x) < (of_nat ns :: u32)" unfolding word_less_nat_alt u by (rule b(1))
  moreover have "of_nat (4096 * x) + of_nat (n + 20) = (of_nat ns :: u32)" by (simp add: ns_def)
  ultimately show ?thesis
    by (simp only: expand_def Let_def st1_def [symmetric] with_heap_def st1(1) option.case len assert_that_def
        if_True res_bind_Inr nz round end' max not_False_eq_True)
qed

section \<open>Giving the space to the endmost hole\<close>

lemma hole_sizes:
  assumes "tiles m a bs e" "e < 2 ^ 32" "mset (oa_list oa m) = image_mset of_nat (mset (holes a bs))"
    and "x \<in> set (oa_list oa m)"
  obtains pre l post where "bs = pre @ (True, l) # post" "x = of_nat (a + room pre)"
    "get_size m x = of_nat l" "unat (get_size m x) = l" "a + room pre + l \<le> e"
proof -
  have "x \<in> of_nat ` set (holes a bs)"
    using assms(3,4) by (metis set_image_mset set_mset_mset)
  then obtain q where q: "q \<in> set (holes a bs)" "x = of_nat q" by blast
  from holes_split [OF q(1)] obtain pre l post where b: "bs = pre @ (True, l) # post" "q = a + room pre" by blast
  note H = tiles_block [OF assms(1) [unfolded b(1)]]
  have "l < 2 ^ 32" using H(3) assms(2) by simp
  then show thesis
    using that [OF b(1)] H(3,4) q(2) b(2) by (simp add: hdr_def unat_of_nat_small)
qed

lemma endmost_is_last_hole:
  assumes "tiles m a (pre @ (True, k) # post) e" "e < 2 ^ 32" "0 < a" "\<forall>b \<in> set post. \<not> fst b"
    and "mset (oa_list oa m) = image_mset of_nat (mset (holes a (pre @ (True, k) # post)))"
    and "unat (oa_size oa) \<le> 2 ^ 20"
  shows "\<exists>j < oa_size oa. endmost_from oa m 0 (- 1) 0 = Inr (sint j) \<and> sint j \<noteq> - 1 \<and>
    oa_list oa m ! unat j = of_nat (a + room pre)"
proof -
  let ?bs = "pre @ (True, k) # post" and ?p = "a + room pre"
  have p32: "?p < 2 ^ 32" using tiles_block(2,3) [OF assms(1)] assms(2) by simp
  have none: "holes b post = []" for b
    using assms(4) by (induction post arbitrary: b) auto
  have last: "q \<le> ?p" if "q \<in> set (holes a ?bs)" for q
  proof -
    have "q \<in> set (holes a pre) \<or> q = ?p" using that none by auto
    moreover have "q \<le> ?p" if "q \<in> set (holes a pre)"
      using that by (auto simp: holes_def dest!: layout_in)
    ultimately show ?thesis by blast
  qed
  have set_eq: "set (oa_list oa m) = of_nat ` set (holes a ?bs)"
    using assms(5) by (metis set_image_mset set_mset_mset)
  have pin: "of_nat ?p \<in> set (oa_list oa m)" unfolding set_eq by simp
  have up: "unat (of_nat ?p :: u32) = ?p" using p32 by (intro unat_of_nat_small) simp
  have pos: "(0 :: u32) < of_nat ?p" using up assms(3) by (simp add: word_less_nat_alt del: of_nat_add)
  have ex: "\<exists>x \<in> set (drop (unat (0 :: u32)) (oa_list oa m)). 0 < x" using pin pos by (simp only: unat_0 drop0) blast
  have "(0 :: u32) \<le> oa_size oa" by simp
  from endmost_from_spec [OF this, of m "- 1" 0] obtain j where j: "j < oa_size oa"
    "endmost_from oa m 0 (- 1) 0 = Inr (sint j)" "\<forall>x \<in> set (oa_list oa m). x \<le> oa_list oa m ! unat j"
    unfolding if_P [OF ex] by (simp only: unat_0 drop0) blast
  have uj: "unat j < unat (oa_size oa)" using j(1) by (simp add: word_less_nat_alt)
  then have "oa_list oa m ! unat j \<in> set (oa_list oa m)" by (intro nth_mem) simp
  then obtain q where q: "q \<in> set (holes a ?bs)" "oa_list oa m ! unat j = of_nat q" unfolding set_eq by blast
  have "unat (of_nat q :: u32) = q" using last [OF q(1)] p32 by (intro unat_of_nat_small) simp
  then have "?p \<le> q" using j(3) pin up unfolding q(2) by (metis word_le_nat_alt)
  then have "q = ?p" using last [OF q(1)] by simp
  moreover have "sint j \<noteq> - 1"
  proof
    assume "sint j = - 1"
    then have "j = - 1" by (intro signed_word_eqI) simp
    moreover have "unat (- 1 :: u32) = 2 ^ 32 - 1" by (simp add: unsigned_minus_1_eq_mask mask_eq_exp_minus_1)
    ultimately show False using uj assms(6) by simp
  qed
  ultimately show ?thesis using j(1,2) q(2) by blast
qed

text \<open>The state in which \<^verbatim>\<open>alloc\<close> calls itself.\<close>

lemma grow_runs:
  assumes "heap_inv st (pre @ (True, k) # post)" "kheap st = Some h" "heap_area N 256 st" "N \<le> 8192"
    and "start_address h = of_nat (heap_page s)" "end_address h = of_nat (heap_page (s + x))"
    and "max_address h = of_nat (heap_page 4095)" "0 < x" "s + x + growth (unat n) \<le> 4095"
    and "\<forall>b \<in> set post. \<not> fst b" "\<forall>b \<in> set (pre @ (True, k) # post). fst b \<longrightarrow> snd b < unat n + 20"
    and "p = heap_page s + room pre" "g = 4096 * growth (unat n)"
  shows "\<exists>st2. alloc (Suc f) n 0 st = alloc f n 0 st2 \<and>
    kheap st2 = Some (h\<lparr>end_address := of_nat (heap_page (s + x) + g)\<rparr>) \<and>
    hdr (kmem st2) p True (k + g) \<and> ftr (kmem st2) (p + (k + g) - 8) p \<and>
    st2 = st\<lparr>kmem := kmem st2, kheap := kheap st2, kenv := kenv st2\<rparr> \<and>
    (\<forall>lo hi. hi \<le> p + 8 \<or> p + 12 \<le> lo \<and> hi \<le> p + (k + g) - 8 \<or> p + (k + g) \<le> lo \<longrightarrow>
      same_on lo hi (kmem st) (kmem st2))"
proof -
  define a e where "a = heap_page s" and "e = heap_page (s + x)"
  have bound: "s + x + growth (unat n) \<le> 4095" by (rule assms(9))
  have ua: "unat (start_address h) = a" "unat (end_address h) = e"
    unfolding assms(5,6) a_def e_def using bound by (intro unat_of_nat_small, simp)+
  from assms(1,2) have inv: "oa_wf (index h)" "unat (oa_size (index h)) \<le> unat (max_size (index h))"
    "unat (max_size (index h)) \<le> 2 ^ 20"
    "tiles (kmem st) a (pre @ (True, k) # post) e"
    "mset (oa_list (index h) (kmem st)) = image_mset of_nat (mset (holes a (pre @ (True, k) # post)))"
    by (auto simp: ua elim!: heap_invE)
  have eg: "e + g < 2 ^ 32" using bound by (simp add: e_def assms(13))
  then have e32: "e < 2 ^ 32" by simp
  note blk = tiles_block [OF inv(4)]
  have p: "p = a + room pre" by (simp add: assms(12) a_def)
  have pk: "p + k \<le> e" "20 \<le> k" using blk(2,3) by (simp_all add: p)
  have no: "\<not> n + 12 + 8 \<le> get_size (kmem st) y" if "y \<in> set (oa_list (index h) (kmem st))" for y
  proof -
    from hole_sizes [OF inv(4) e32 inv(5) that] obtain pr l po where
      l: "pre @ (True, k) # post = pr @ (True, l) # po" "unat (get_size (kmem st) y) = l"
      by blast
    have "(True, l) \<in> set (pre @ (True, k) # post)" unfolding l(1) by simp
    then have "l < unat n + 20" using assms(11) by fastforce
    moreover have "unat (n + 12 + 8) = unat n + 20"
    proof -
      have "unat n + 20 < 2 ^ 32"
        using growth_enough [of "unat n"] eg by (simp add: assms(13))
      moreover have "n + 12 + 8 = n + 20" by (simp only: add.assoc) simp
      ultimately show ?thesis using unat_add_nowrap [of n 20] by (simp only:) simp
    qed
    ultimately show ?thesis by (simp add: word_le_nat_alt l(2))
  qed
  from find_hole_from_spec [OF inv(1), of 0 "n + 12 + 8" "kmem st"] no
  have find: "find_smallest_hole (n + 12 + 8) 0 st = Inr 0xDEADBEEF"
    by (auto simp: find_smallest_hole_def with_heap_def assms(2) split: if_splits)
  define st1 where "st1 = set_heap (h\<lparr>end_address := of_nat (e + g)\<rparr>)
    (klog_kst ''expand, new size: %x\<newline>'' [ArgInt (of_nat (4096 * x) + of_nat (unat n + 20))] st)"
  have len: "end_address h - start_address h = of_nat (4096 * x)"
    by (simp add: assms(5,6))
  have req: "of_nat (4096 * x) + (n + 12 + 8) = (of_nat (4096 * x) + of_nat (unat n + 20) :: u32)"
    by simp
  have "heap_page (s + x + growth (unat n)) = e + g"
    by (simp add: e_def assms(13))
  then have grow: "expand kap (of_nat (4096 * x) + of_nat (unat n + 20)) st = Inr st1" for kap
    using expand_area [OF assms(3,4,2,5,6,7,8,9), of kap] by (simp only: st1_def)
  have st1: "kheap st1 = Some (h\<lparr>end_address := of_nat (e + g)\<rparr>)" "kmem st1 = kmem st"
    by (simp_all add: st1_def set_heap_def)
  define m1 where "m1 = set_size (of_nat p) (of_nat (k + g)) (kmem st)"
  have h: "hdr (kmem st) p True k" using blk(4) by (simp add: p)
  have p12: "p + 12 \<le> 2 ^ 32" "p + 12 \<le> p + (k + g) - 8" "p + (k + g) \<le> 2 ^ 32" using pk eg by simp_all
  note s1 = hdr_set_size [OF h p12(1) m1_def]
  define m2 where "m2 = set_magic (of_nat (p + (k + g) - 8)) (set_header (of_nat (p + (k + g) - 8)) (of_nat p) m1)"
  have "extend_endmost (of_nat (4096 * x)) (end_address h) st1 = Inr (st1\<lparr>kmem := m2\<rparr>)"
  proof -
    have "0 < a" "unat (oa_size (index h)) \<le> 2 ^ 20" using inv(2,3) by (simp_all add: a_def)
    from endmost_is_last_hole [OF inv(4) e32 this(1) assms(10) inv(5) this(2)] obtain j where j:
      "j < oa_size (index h)" "endmost_from (index h) (kmem st) 0 (- 1) 0 = Inr (sint j)" "sint j \<noteq> - 1"
      "oa_list (index h) (kmem st) ! unat j = of_nat p"
      unfolding p by blast
    have look: "lookup_ordered_array (of_int (sint j)) (index h) (kmem st) = Inr (of_nat p)"
      using j(1,4) by (simp add: lookup_ordered_array_def oa_list_def slot_def word_less_nat_alt)
    have grown: "of_nat (e + g) - start_address h - of_nat (4096 * x) = (of_nat g :: u32)"
      by (simp add: e_def assms(5))
    have size: "get_size (kmem st) (of_nat p) + of_nat g = of_nat (k + g)"
      using blk(4) by (simp add: hdr_def p)
    have size1: "get_size m1 (of_nat p) = of_nat (k + g)" using s1(1) by (simp add: hdr_def)
    have foot: "of_nat p + of_nat (k + g) - 8 = (of_nat (p + (k + g) - 8) :: u32)"
      using pk by (simp add: of_nat_diff)
    show ?thesis
      using j(2,3) look size1
      by (simp add: extend_endmost_def with_heap_def st1 Let_def on_mem_def grown size m1_def [symmetric]
          foot m2_def del: of_nat_add of_nat_diff of_nat_mult)
  qed
  then have run: "alloc (Suc f) n 0 st = alloc f n 0 (st1\<lparr>kmem := m2\<rparr>)"
    by (simp only: alloc.simps Let_def find res_bind_Inr if_True refl with_heap_def assms(2) option.case len req grow)
  define F where "F = p + (k + g) - 8"
  have m2: "m2 = store32 (store32 m1 (of_nat (F + 4)) (of_nat p)) (of_nat F) heap_magic"
    by (simp add: m2_def F_def set_magic_def set_header_def add.commute)
  have s2: "same_on lo hi m1 m2" if "hi \<le> F \<or> F + 8 \<le> lo" for lo hi
    unfolding m2 by (rule same_on_trans [OF same_on_store32 same_on_store32])
      (use that p12 in \<open>auto simp: F_def\<close>)
  have "hdr m2 p True (k + g)"
    by (rule hdr_cong [OF s2 _ s1(1)]) (use p12 in \<open>simp_all add: F_def\<close>)
  moreover have "ftr m2 F p"
  proof -
    have "get_header m2 (of_nat F) = of_nat p"
      using load32_store32_nat [of F "F + 4" "store32 m1 (of_nat (F + 4)) (of_nat p)" heap_magic] p12
      by (simp add: m2 get_header_def F_def add.commute)
    then show ?thesis by (simp add: ftr_def m2 get_magic_def)
  qed
  moreover have "same_on lo hi (kmem st) m2" if "hi \<le> p + 8 \<or> p + 12 \<le> lo \<and> hi \<le> F \<or> p + (k + g) \<le> lo" for lo hi
    by (rule same_on_trans [OF s1(2) s2]) (use that p12 in \<open>auto simp: F_def\<close>)
  moreover have "heap_page (s + x) + g = e + g" by (simp add: e_def)
  moreover have "st1\<lparr>kmem := m2\<rparr> = st\<lparr>kmem := m2, kheap := kheap st1, kenv := kenv st1\<rparr>"
    by (simp add: st1_def set_heap_def klog_kst_def)
  ultimately show ?thesis
    using run st1(1) by (intro exI [of _ "st1\<lparr>kmem := m2\<rparr>"]) (simp add: F_def)
qed

text \<open>When the hole ends the heap, it has really grown.\<close>

lemma alloc_grows:
  assumes "heap_inv st (pre @ [(True, k)])" "kheap st = Some h" "heap_area N 256 st" "N \<le> 8192"
    and "start_address h = of_nat (heap_page s)" "end_address h = of_nat (heap_page (s + x))"
    and "max_address h = of_nat (heap_page 4095)" "0 < x" "s + x + growth (unat n) \<le> 4095"
    and "\<forall>b \<in> set (pre @ [(True, k)]). fst b \<longrightarrow> snd b < unat n + 20"
    and "p = heap_page s + room pre" "g = 4096 * growth (unat n)"
  shows "\<exists>st' h'. alloc (Suc (Suc f)) n 0 st = Inr (of_nat (p + 12), st') \<and> kheap st' = Some h' \<and>
    heap_inv st' (pre @ take_hole (k + g) (unat n + 20)) \<and>
    start_address h' = start_address h \<and> end_address h' = of_nat (heap_page (s + x) + g)"
proof -
  define a e where "a = heap_page s" and "e = heap_page (s + x)"
  have ua: "unat (start_address h) = a" "unat (end_address h) = e" "unat (of_nat (e + g) :: u32) = e + g"
    unfolding assms(5,6) a_def e_def using assms(9) by (intro unat_of_nat_small, simp add: assms(12))+
  from assms(1,2) have inv: "oa_wf (index h)" "less_than (index h) = Some header_t_less_than"
    "unat (oa_size (index h)) \<le> unat (max_size (index h))" "unat (max_size (index h)) \<le> 2 ^ 20"
    "unat (array (index h)) + 4 * unat (max_size (index h)) \<le> a"
    "tiles (kmem st) a (pre @ [(True, k)]) e"
    "mset (oa_list (index h) (kmem st)) = image_mset of_nat (mset (holes a (pre @ [(True, k)])))"
    by (auto simp: ua elim!: heap_invE)
  have p: "p = a + room pre" "p + k = e" "20 \<le> k" "e + g < 2 ^ 32"
    using inv(6) tiles_block(2) [OF inv(6)] assms(9)
    by (simp_all add: tiles_def assms(11,12) a_def e_def)
  obtain st2 where st2: "alloc (Suc (Suc f)) n 0 st = alloc (Suc f) n 0 st2"
    "kheap st2 = Some (h\<lparr>end_address := of_nat (e + g)\<rparr>)"
    "hdr (kmem st2) p True (k + g)" "ftr (kmem st2) (p + (k + g) - 8) p"
    "\<And>lo hi. hi \<le> p + 8 \<or> p + (k + g) \<le> lo \<Longrightarrow> same_on lo hi (kmem st) (kmem st2)"
    using grow_runs [OF assms(1-9) _ assms(10-12), of "Suc f"] unfolding e_def by auto
  have idx: "oa_list (index h) (kmem st2) = oa_list (index h) (kmem st)"
    by (rule oa_list_same_on [OF st2(5), of a 0]) (use inv(3,5) p in simp_all)
  have "block_ok (kmem st2) (e + g) b" if b: "b \<in> set (layout a pre)" for b
  proof -
    obtain y hole l where y: "b = (y, hole, l)" by (cases b) auto
    have le: "y + l \<le> p" using b by (auto simp: y p(1) dest: layout_in)
    have "block_ok (kmem st) e (y, hole, l)" using inv(6) b by (auto simp: tiles_def layout_append y)
    then have "block_ok (kmem st2) e (y, hole, l)"
      by (rule block_ok_cong [OF _ st2(5)]) (use le p in simp_all)
    then show ?thesis using le p by (simp add: block_ok_def y)
  qed
  moreover have "block_ok (kmem st2) (e + g) (p, True, k + g)"
    using st2(3,4) p(3) by (simp add: block_ok_def)
  ultimately have "tiles (kmem st2) a (pre @ [(True, k + g)]) (e + g)"
    using p(1,2) by (auto simp: tiles_def layout_append)
  moreover have "mset (oa_list (index h) (kmem st2)) = image_mset of_nat (mset (holes a (pre @ [(True, k + g)])))"
    using inv(7) by (simp add: idx)
  ultimately have inv2: "heap_inv st2 (pre @ [(True, k + g)])"
    using inv(1-5) ua by (simp add: heap_inv_def st2(2) word_le_nat_alt del: of_nat_add)
  have "unat n + 20 < k + g" using growth_enough [of "unat n"] by (simp add: assms(12))
  moreover from this have "unat n + 20 < 2 ^ 32" using p by simp
  ultimately obtain pre' k' post' p' st' h' where fit: "pre @ [(True, k + g)] = pre' @ (True, k') # post'"
    "unat n + 20 \<le> k'" "p' = a + room pre'" "alloc (Suc f) n 0 st2 = Inr (of_nat (p' + 12), st')"
    "heap_inv st' (pre' @ take_hole k' (unat n + 20) @ post')"
    "kheap st' = Some h'" "start_address h' = start_address h" "end_address h' = of_nat (e + g)"
    using alloc_fits [OF inv2, of n "k + g" "h\<lparr>end_address := of_nat (e + g)\<rparr>" f] st2(2) ua(1) by auto
  have "post' = []"
  proof (rule ccontr)
    assume "post' \<noteq> []"
    then obtain zs z where "post' = zs @ [z]" by (cases post' rule: rev_cases) auto
    then have "(True, k') \<in> set pre" using fit(1) by (auto simp: append_eq_append_conv2 Cons_eq_append_conv)
    then show False using assms(10) fit(2) by fastforce
  qed
  then have "pre' = pre" "k' = k + g" using fit(1) by simp_all
  then show ?thesis using fit(3-8) st2(1) \<open>post' = []\<close> p(1) by (auto simp: e_def)
qed

text \<open>
  When blocks in use lie behind it, it is given their space. First, the search then finds this hole:
  no other has become larger.
\<close>

lemma only_grown_hole_fits:
  assumes "oa_wf oa" "tiles m a (pre @ (True, k) # post) e" "e < 2 ^ 32" "p = a + room pre"
    and "mset (oa_list oa m) = image_mset of_nat (mset (holes a (pre @ (True, k) # post)))"
    and "\<forall>b \<in> set post. \<not> fst b" "\<forall>b \<in> set (pre @ (True, k) # post). fst b \<longrightarrow> snd b < unat n"
    and "same_on 0 (p + 8) m m'" "oa_list oa m' = oa_list oa m" "n \<le> get_size m' (of_nat p)"
  shows "\<exists>i < oa_size oa. find_hole_from n 0 oa m' 0 = Inr i \<and> oa_list oa m' ! unat i = of_nat p"
proof -
  have p8: "p + 8 \<le> 2 ^ 32" using tiles_block(2,3) [OF assms(2)] assms(3) by (simp add: assms(4))
  have "set (oa_list oa m) = of_nat ` set (holes a (pre @ (True, k) # post))"
    using assms(5) by (metis set_image_mset set_mset_mset)
  then have "of_nat p \<in> set (oa_list oa m')" by (simp add: assms(4,9))
  then have ex: "\<exists>y \<in> set (drop (unat (0 :: u32)) (oa_list oa m')). n \<le> get_size m' y"
    using assms(10) by (simp only: unat_0 drop0) blast
  have "(0 :: u32) \<le> oa_size oa" by simp
  from find_hole_from_spec [OF assms(1) this, of n m'] obtain i where i:
    "find_hole_from n 0 oa m' 0 = Inr i" "i < oa_size oa" "n \<le> get_size m' (oa_list oa m' ! unat i)"
    unfolding if_P [OF ex] by blast
  define y where "y = oa_list oa m ! unat i"
  have "unat i < unat (oa_size oa)" using i(2) by (simp add: word_less_nat_alt)
  then have "y \<in> set (oa_list oa m)" unfolding y_def by (intro nth_mem) simp
  then obtain pr l po where l: "pre @ (True, k) # post = pr @ (True, l) # po" "y = of_nat (a + room pr)"
    "unat (get_size m y) = l"
    using hole_sizes [OF assms(2,3,5)] by blast
  have small: "l < unat n" "20 \<le> l"
    using assms(7) tiles_block(2) [OF assms(2) [unfolded l(1)]] unfolding l(1) by auto
  have "a + room pr = p \<or> a + room pr + l \<le> p"
    using l(1) assms(6) by (auto simp: assms(4) append_eq_append_conv2 Cons_eq_append_conv append_eq_Cons_conv)
  moreover have False if le: "a + room pr + l \<le> p"
  proof -
    have "load32 m' (of_nat (a + room pr + 8)) = load32 m (of_nat (a + room pr + 8))"
      by (rule same_on_load [OF assms(8)]) (use le small(2) p8 in simp_all)
    then have "get_size m' y = get_size m y" by (simp add: get_size_def l(2) add.commute)
    then show False using i(3) small(1) l(3) by (simp add: assms(9) y_def [symmetric] word_le_nat_alt)
  qed
  ultimately have "y = of_nat p" using l(2) by metis
  then show ?thesis using i(1,2) by (auto simp: assms(9) y_def)
qed

text \<open>Second, what \<open>alloc_in_hole\<close> does at a header that claims enough space, whatever lies there.\<close>

lemma alloc_in_hole_block:
  assumes "kheap st = Some h" "oa_wf (index h)" "unat (oa_size (index h)) \<le> unat (max_size (index h))"
    and "unat (max_size (index h)) \<le> 2 ^ 20" "unat (array (index h)) + 4 * unat (max_size (index h)) \<le> p"
    and "i < oa_size (index h)" "oa_list (index h) (kmem st) ! unat i = of_nat p"
    and "get_size (kmem st) (of_nat p) = of_nat k" "unat n + 20 \<le> k" "p + k \<le> unat (end_address h)"
  shows "\<exists>st' l. alloc_in_hole i n (n + 12 + 8) 0 st = Inr (of_nat (p + 12), st') \<and>
    hdr (kmem st') p False l \<and> unat n + 20 \<le> l"
proof -
  define new where "new = unat n + 20"
  have e32: "unat (end_address h) < 2 ^ 32" using unat_less_pow [of "end_address h"] by simp
  then have p32: "p \<le> 2 ^ 32" "p + 12 \<le> 2 ^ 32" using assms(9,10) by linarith+
  have "unat i < unat (oa_size (index h))" using assms(6) by (simp add: word_less_nat_alt)
  then have sl: "load32 (kmem st) (slot (index h) i) = of_nat p"
    using assms(7) by (simp add: oa_list_def slot_def)
  from index_remove_spec [OF assms(1,2,6), of p] assms(3-5) p32(1) obtain m1 a1 where rem:
    "index_remove i st = Inr (set_heap (h\<lparr>index := a1\<rparr>) (st\<lparr>kmem := m1\<rparr>))"
    "a1 = (index h)\<lparr>oa_size := oa_size (index h) - 1\<rparr>" "oa_wf a1" "Suc (unat (oa_size a1)) = unat (oa_size (index h))"
    by auto
  define m2 where "m2 = write_block (of_nat p) 0 (of_nat new) (of_nat (p + new - 8)) m1"
  define m3 where "m3 = (if k - new < 20 then write_block (of_nat p) 0 (of_nat k) (of_nat (p + k - 8)) m1
    else write_block (of_nat (p + new)) 1 (of_nat (k - new)) (of_nat (p + k - 8)) m2)"
  define st3 where "st3 = set_heap (h\<lparr>index := a1\<rparr>) (st\<lparr>kmem := m3\<rparr>)"
  note th = take_hole_blocks [of "unat n" k p _ m2 m1 m3, folded new_def,
      OF assms(9) [folded new_def] assms(10) e32 m2_def m3_def]
  obtain l where l: "(p, False, l) \<in> set (layout p (take_hole k new))" "new \<le> l"
    using assms(9) by (cases "k - new < 20") (auto simp: take_hole_def new_def)
  have h3: "hdr m3 p False l" using th(1) [OF l(1)] by (simp add: block_ok_def)
  have run: "alloc_in_hole i n (n + 12 + 8) 0 st =
      (if k - new < 20 then Inr (of_nat (p + 12), st3)
       else res_bind (index_insert (of_nat (p + new)) st3) (\<lambda>st. Inr (of_nat (p + 12), st)))"
    using alloc_in_hole_writes [OF assms(1,6) sl assms(8-10) rem(1) m2_def [unfolded new_def] refl]
    by (cases "k - (unat n + 20) < 20") (simp_all only: st3_def m3_def new_def if_True if_False)
  have "\<exists>m4 a2. index_insert (of_nat (p + new)) st3 = Inr (set_heap (h\<lparr>index := a2\<rparr>) (st\<lparr>kmem := m4\<rparr>)) \<and>
      same_on p (2 ^ 32) m3 m4"
  proof -
    have "kheap st3 = Some (h\<lparr>index := a1\<rparr>)" "oa_wf (index (h\<lparr>index := a1\<rparr>))"
      "unat (oa_size (index (h\<lparr>index := a1\<rparr>))) < 2 ^ 20"
      "unat (array (index (h\<lparr>index := a1\<rparr>))) + 4 * Suc (unat (oa_size (index (h\<lparr>index := a1\<rparr>)))) \<le> p"
      using rem(3,4) assms(3-5) by (simp_all add: set_heap_def st3_def rem(2))
    from index_insert_spec [OF this p32(1), of "of_nat (p + new)"] show ?thesis
      by (auto simp: set_heap_def st3_def)
  qed
  then obtain m4 a2 where ins: "index_insert (of_nat (p + new)) st3 = Inr (set_heap (h\<lparr>index := a2\<rparr>) (st\<lparr>kmem := m4\<rparr>))"
    "same_on p (2 ^ 32) m3 m4" by blast
  have "hdr m4 p False l"
    by (rule hdr_cong [OF same_on_sub [OF ins(2)] _ h3]) (use p32 in simp_all)
  then show ?thesis
    using run ins(1) h3 l(2) by (cases "k - new < 20") (auto simp: st3_def set_heap_def new_def)
qed

lemma alloc_grows_over:
  assumes "heap_inv st (pre @ (True, k) # post)" "kheap st = Some h" "heap_area N 256 st" "N \<le> 8192"
    and "start_address h = of_nat (heap_page s)" "end_address h = of_nat (heap_page (s + x))"
    and "max_address h = of_nat (heap_page 4095)" "0 < x" "s + x + growth (unat n) \<le> 4095"
    and "\<forall>b \<in> set post. \<not> fst b" "\<forall>b \<in> set (pre @ (True, k) # post). fst b \<longrightarrow> snd b < unat n + 20"
    and "p = heap_page s + room pre"
  shows "\<exists>st' l. alloc (Suc (Suc f)) n 0 st = Inr (of_nat (p + 12), st') \<and>
    hdr (kmem st') p False l \<and> unat n + 20 \<le> l"
proof -
  define a e g where "a = heap_page s" and "e = heap_page (s + x)" and "g = 4096 * growth (unat n)"
  define h2 where "h2 = h\<lparr>end_address := of_nat (e + g)\<rparr>"
  have ua: "unat (start_address h) = a" "unat (end_address h) = e" "unat (of_nat (e + g) :: u32) = e + g"
    unfolding assms(5,6) a_def e_def using assms(9) by (intro unat_of_nat_small, simp add: g_def)+
  from assms(1,2) have inv: "oa_wf (index h)" "unat (oa_size (index h)) \<le> unat (max_size (index h))"
    "unat (max_size (index h)) \<le> 2 ^ 20"
    "unat (array (index h)) + 4 * unat (max_size (index h)) \<le> a"
    "tiles (kmem st) a (pre @ (True, k) # post) e"
    "mset (oa_list (index h) (kmem st)) = image_mset of_nat (mset (holes a (pre @ (True, k) # post)))"
    by (auto simp: ua elim!: heap_invE)
  have p: "p = a + room pre" "p + k \<le> e" "e < 2 ^ 32" "p + (k + g) < 2 ^ 32"
    using tiles_block(3) [OF inv(5)] assms(9) by (simp_all add: assms(12) a_def e_def g_def)
  obtain st2 where st2: "alloc (Suc (Suc f)) n 0 st = alloc (Suc f) n 0 st2" "kheap st2 = Some h2"
    "hdr (kmem st2) p True (k + g)" "\<And>lo hi. hi \<le> p + 8 \<or> p + (k + g) \<le> lo \<Longrightarrow> same_on lo hi (kmem st) (kmem st2)"
    using grow_runs [OF assms(1-12) g_def, of "Suc f"] unfolding e_def h2_def by auto
  have idx: "oa_list (index h) (kmem st2) = oa_list (index h) (kmem st)"
    by (rule oa_list_same_on [OF st2(4), of a 0]) (use inv(2,4) p in simp_all)
  have size: "get_size (kmem st2) (of_nat p) = of_nat (k + g)" using st2(3) by (simp add: hdr_def)
  have fits: "unat n + 20 \<le> k + g" using growth_enough [of "unat n"] by (simp add: g_def)
  have "n + 12 + 8 = n + 20" by (simp only: add.assoc) simp
  then have new: "unat (n + 12 + 8) = unat n + 20"
    using unat_add_nowrap [of n 20] fits p(4) by (simp only:) simp
  have "unat (of_nat (k + g) :: u32) = k + g" using p(4) by (intro unat_of_nat_small) simp
  then have "n + 12 + 8 \<le> get_size (kmem st2) (of_nat p)" unfolding size word_le_nat_alt new using fits by simp
  with only_grown_hole_fits [OF inv(1,5) p(3,1) inv(6) assms(10), of "n + 12 + 8" "kmem st2"] assms(11) idx st2(4)
  obtain i where i: "i < oa_size (index h)" "find_hole_from (n + 12 + 8) 0 (index h) (kmem st2) 0 = Inr i"
    "oa_list (index h) (kmem st2) ! unat i = of_nat p"
    unfolding new by auto
  have "find_smallest_hole (n + 12 + 8) 0 st2 = Inr i"
    using i(2) by (simp add: find_smallest_hole_def with_heap_def st2(2) h2_def)
  moreover have "i \<noteq> 0xDEADBEEF" using i(1) inv(2,3) by (auto simp: word_less_nat_alt)
  ultimately have "alloc (Suc f) n 0 st2 = alloc_in_hole i n (n + 12 + 8) 0 st2"
    by (simp only: alloc.simps Let_def res_bind_Inr if_False)
  then show ?thesis
    using alloc_in_hole_block [OF st2(2), of p i "k + g" n] inv(1-4) i(1,3) size fits p st2(1) ua(3)
    by (auto simp: h2_def simp del: alloc.simps of_nat_add)
qed

section \<open>Properties\<close>

text \<open>
  C11. On the pages \<^verbatim>\<open>heap_install\<close> maps, an allocation without page alignment (\<^verbatim>\<open>page_align\<close> is 0) that no hole
  serves, on a heap that ends with a hole and can grow within its maximum, moves the end of the heap by whole pages and is
  served from that hole: the call returns the address 12 bytes into it, the blocks before it stay as
  they are, and the heap is whole up to its new end.
\<close>
theorem alloc_expands_heap:
  assumes "heap_inv st (pre @ [(True, k)])" "kheap st = Some h" "heap_area N 256 st" "N \<le> 8192"
    and "start_address h = of_nat (heap_page s)" "end_address h = of_nat (heap_page (s + x))"
    and "max_address h = of_nat (heap_page 4095)" "0 < x" "s + x + growth (unat n) \<le> 4095"
    and "\<forall>b \<in> set (pre @ [(True, k)]). fst b \<longrightarrow> snd b < unat n + 20"
    and "p = heap_page s + room pre" "g = 4096 * growth (unat n)"
  shows "\<exists>st' h'. alloc (Suc (Suc f)) n 0 st = Inr (of_nat (p + 12), st') \<and> kheap st' = Some h' \<and>
    heap_inv st' (pre @ (if k + g - (unat n + 20) < 20 then [(False, k + g)]
      else [(False, unat n + 20), (True, k + g - (unat n + 20))])) \<and>
    start_address h' = start_address h \<and> end_address h' = of_nat (heap_page (s + x) + g)"
  using alloc_grows [OF assms] unfolding take_hole_def by simp

text \<open>
  C15. When blocks in use end the heap, the same call, without page alignment, hands them out again: the new space is given to the
  endmost hole, wherever that lies, so the block the call returns starts in the hole and runs over the blocks behind it.
\<close>
theorem alloc_expansion_overlaps_used:
  assumes "heap_inv st (pre @ (True, k) # (False, u) # post)" "kheap st = Some h" "heap_area N 256 st" "N \<le> 8192"
    and "start_address h = of_nat (heap_page s)" "end_address h = of_nat (heap_page (s + x))"
    and "max_address h = of_nat (heap_page 4095)" "0 < x" "s + x + growth (unat n) \<le> 4095"
    and "\<forall>b \<in> set post. \<not> fst b" "\<forall>b \<in> set (pre @ [(True, k)]). fst b \<longrightarrow> snd b < unat n + 20"
    and "p = heap_page s + room pre"
  shows "\<exists>st' l. alloc (Suc (Suc f)) n 0 st = Inr (of_nat (p + 12), st') \<and>
    hdr (kmem st') p False l \<and> p + k < p + l"
proof -
  have "\<forall>b \<in> set ((False, u) # post). \<not> fst b"
    "\<forall>b \<in> set (pre @ (True, k) # (False, u) # post). fst b \<longrightarrow> snd b < unat n + 20"
    using assms(10,11) by auto
  from alloc_grows_over [OF assms(1-9) this assms(12), of f] obtain st' l where
    "alloc (Suc (Suc f)) n 0 st = Inr (of_nat (p + 12), st')" "hdr (kmem st') p False l" "unat n + 20 \<le> l"
    by blast
  moreover have "k < unat n + 20" using assms(11) by simp
  ultimately show ?thesis by (intro exI [of _ st'] exI [of _ l]) simp
qed

text \<open>The heap of a machine with 124 MB, as \<^verbatim>\<open>heap_install\<close> leaves it.\<close>

lemma installed_heap:
  obtains st h where "heap_inv st [(True, 0x7F000)]" "kheap st = Some h" "heap_area 4640 256 st"
    "start_address h = of_nat (heap_page 129)" "end_address h = of_nat (heap_page (129 + 127))"
    "max_address h = of_nat (heap_page 4095)"
proof -
  have "(544 :: nat) \<le> 4640" "(4640 :: nat) mod 32 = 0" "16 * 4640 \<le> unat (126976 :: u32)"
    "unat (126976 :: u32) \<le> 131072" "placement_address (blank_kst 0) = 0x200000" "kheap (blank_kst 0) = None"
    "(518 :: nat) \<le> 518"
    by (simp_all add: blank_kst_facts)
  from paging_init_mapped [OF this, of "()" no_handlers] obtain st1 where st1:
    "mapped 4640 517 st1" "paging_on st1" "cr3 st1 = 0x201000" by blast
  from heap_install_runs [OF st1(1,3,2), of 0] show thesis
    using that by (elim exE conjE) simp
qed

lemma alloc_expands_heap_witness:
  "\<exists>st st' h'. heap_area 4640 256 st \<and> alloc (Suc (Suc 0)) 0x80000 0 st = Inr (0x0108100C, st') \<and> kheap st' = Some h' \<and>
    heap_inv st' [(False, 0x80014), (True, 0x7FFEC)] \<and> end_address h' = 0x01181000"
proof -
  obtain st h where st: "heap_inv st ([] @ [(True, 0x7F000)])" "kheap st = Some h" "heap_area 4640 256 st"
    "start_address h = of_nat (heap_page 129)" "end_address h = of_nat (heap_page (129 + 127))"
    "max_address h = of_nat (heap_page 4095)"
    using installed_heap by auto
  have g: "growth (unat (0x80000 :: u32)) = 129" "4096 * 129 = 4096 * growth (unat (0x80000 :: u32))"
    by (simp_all add: growth_def)
  have "(4640 :: nat) \<le> 8192" "0 < (127 :: nat)" "129 + 127 + growth (unat (0x80000 :: u32)) \<le> 4095"
    "\<forall>b \<in> set ([] @ [(True, 0x7F000)]). fst b \<longrightarrow> snd b < unat (0x80000 :: u32) + 20"
    by (simp_all add: growth_def)
  from alloc_expands_heap [OF st(1-3) this(1) st(4-6) this(2-4) refl g(2), of 0] obtain st' h' where
    "alloc (Suc (Suc 0)) 0x80000 0 st = Inr (of_nat (heap_page 129 + room [] + 12), st')" "kheap st' = Some h'"
    "heap_inv st' ([] @ (if 0x7F000 + 4096 * 129 - (unat (0x80000 :: u32) + 20) < 20 then [(False, 0x7F000 + 4096 * 129)]
      else [(False, unat (0x80000 :: u32) + 20), (True, 0x7F000 + 4096 * 129 - (unat (0x80000 :: u32) + 20))]))"
    "end_address h' = of_nat (heap_page (129 + 127) + 4096 * 129)"
    by (elim exE conjE) (rule that)
  then show ?thesis using st(3) by (intro exI [of _ st] exI [of _ st'] exI [of _ h']) simp
qed

text \<open>The same heap after its memory was cut into a hole of 120 bytes and a block in use behind it.\<close>

lemma alloc_expansion_overlaps_used_witness:
  "\<exists>st st' l. heap_inv st [(True, 120), (False, 0x7EF88)] \<and> alloc (Suc (Suc 0)) 200 0 st = Inr (0x0108100C, st') \<and>
    hdr (kmem st') 0x01081000 False l \<and> 0x01081000 + 120 < 0x01081000 + l"
proof -
  obtain st0 h where st0: "heap_inv st0 [(True, 0x7F000)]" "kheap st0 = Some h" "heap_area 4640 256 st0"
    "start_address h = of_nat (heap_page 129)" "end_address h = of_nat (heap_page (129 + 127))"
    "max_address h = of_nat (heap_page 4095)"
    by (rule installed_heap)
  define a where "a = (0x01081000 :: nat)"
  define m1 where "m1 = write_block (of_nat (a + 120)) (if False then 1 else 0) (of_nat 0x7EF88) (of_nat (a + 120 + 0x7EF88 - 8)) (kmem st0)"
  define m2 where "m2 = write_block (of_nat a) (if True then 1 else 0) (of_nat 120) (of_nat (a + 120 - 8)) m1"
  define st where "st = st0\<lparr>kmem := m2\<rparr>"
  have b1: "block_ok m1 0x01100000 (a + 120, False, 0x7EF88)"
    by (rule write_block_in_tiles [OF _ _ m1_def]) (simp_all add: a_def)
  have b2: "block_ok m2 0x01100000 (a, True, 120)"
    by (rule write_block_in_tiles [OF _ _ m2_def]) (simp_all add: a_def)
  have "same_on lo hi (kmem st0) m2" if "hi \<le> a" for lo hi
    by (rule same_on_trans [OF write_block_ok(3) [OF _ _ m1_def] write_block_ok(3) [OF _ _ m2_def]])
      (use that in \<open>simp_all add: a_def\<close>)
  note same = this
  have "block_ok m2 0x01100000 (a + 120, False, 0x7EF88)"
    by (rule block_ok_cong [OF b1 write_block_ok(3) [OF _ _ m2_def]]) (simp_all add: a_def)
  with b2 have t: "tiles m2 a [(True, 120), (False, 0x7EF88)] 0x01100000"
    by (auto simp: tiles_def a_def)
  have ua: "unat (start_address h) = a" "unat (end_address h) = 0x01100000" by (simp_all add: st0(4,5) a_def)
  have idx: "oa_list (index h) m2 = oa_list (index h) (kmem st0)"
    by (rule oa_list_same_on [OF same, of a 0])
      (use st0(1,2) in \<open>auto simp: ua a_def elim!: heap_invE\<close>)
  have "heap_inv st [(True, 120), (False, 0x7EF88)]"
    using st0(1,2) t by (simp add: heap_inv_def st_def ua idx)
  moreover have "kheap st = Some h" using st0(2) by (simp add: st_def)
  moreover have "heap_area 4640 256 st"
    by (rule heap_area_keep [OF st0(3)]) (use same [of "0x01000000" 0] in \<open>simp_all add: st_def a_def\<close>)
  ultimately have st: "heap_inv st ([] @ (True, 120) # (False, 0x7EF88) # [])" "kheap st = Some h" "heap_area 4640 256 st"
    by simp_all
  have "(4640 :: nat) \<le> 8192" "0 < (127 :: nat)" "129 + 127 + growth (unat (200 :: u32)) \<le> 4095"
    "\<forall>b \<in> set []. \<not> fst (b :: bool \<times> nat)"
    "\<forall>b \<in> set ([] @ [(True, 120)]). fst b \<longrightarrow> snd b < unat (200 :: u32) + 20"
    by (simp_all add: growth_def)
  from alloc_expansion_overlaps_used [OF st this(1) st0(4-6) this(2-5) refl, of 0] obtain st' l where
    "alloc (Suc (Suc 0)) 200 0 st = Inr (of_nat (heap_page 129 + room [] + 12), st')"
    "hdr (kmem st') (heap_page 129 + room []) False l" "heap_page 129 + room [] + 120 < heap_page 129 + room [] + l"
    by blast
  then show ?thesis using st(1) by (intro exI [of _ st] exI [of _ st'] exI [of _ l]) simp
qed

end
