(* ===== verification/Heap_Clients.thy ===== *)
theory Heap_Clients
  imports Heap_Spec
begin

text \<open>
  The heap as its users see it: any sequence of \<^verbatim>\<open>kmalloc\<close>, \<^verbatim>\<open>kfree\<close> and of writes into the bytes
  received. The locale \<open>allocator\<close> is the contract that makes such a sequence safe, stated over the set of
  blocks in use; the interpretation shows that \<^verbatim>\<open>kheap.c\<close> keeps it for the requests its code serves
  rightly: an allocation for which a hole is large enough, and the release of a block which is neither
  the first nor the last and whose right neighbour is in use.
\<close>

section \<open>The contract of an allocator\<close>

text \<open>
  What users remember: for each address they received, the bytes they expect there. Every one lies in a block in
  use, behind a header of 12 bytes and before a footer of 8.
\<close>

definition holds :: "(nat \<times> nat) set \<Rightarrow> mem \<Rightarrow> (u32 \<rightharpoonup> u8 list) \<Rightarrow> bool" where
  "holds used m live \<longleftrightarrow> (\<forall>p d. live p = Some d \<longrightarrow> (\<exists>a k. (a, k) \<in> used \<and> unat p = a + 12 \<and>
     length d + 20 \<le> k \<and> (\<forall>i<length d. m (p + of_nat i) = d ! i)))"

lemma holdsE:
  assumes "holds used m live" "live p = Some d"
  obtains a k where "(a, k) \<in> used" "unat p = a + 12" "length d + 20 \<le> k" "\<And>i. i < length d \<Longrightarrow> m (p + of_nat i) = d ! i"
  using assms unfolding holds_def by blast

lemma holds_insert:
  assumes "holds used m (live(p := None))" "(a, k) \<in> used" "unat p = a + 12" "length d + 20 \<le> k"
    and "\<And>i. i < length d \<Longrightarrow> m (p + of_nat i) = d ! i"
  shows "holds used m (live(p \<mapsto> d))"
  unfolding holds_def
proof (intro allI impI)
  fix q c assume q: "(live(p \<mapsto> d)) q = Some c"
  show "\<exists>a k. (a, k) \<in> used \<and> unat q = a + 12 \<and> length c + 20 \<le> k \<and> (\<forall>i<length c. m (q + of_nat i) = c ! i)"
  proof (cases "q = p")
    case True
    then show ?thesis using q assms(2-5) by auto
  next
    case False
    then have "(live(p := None)) q = Some c" using q by simp
    from holdsE [OF assms(1) this] show ?thesis by blast
  qed
qed

lemma holds_remove:
  assumes "holds used m live" "unat p = a + 12"
  shows "holds (used - {(a, k)}) m (live(p := None))"
  unfolding holds_def
proof (intro allI impI)
  fix q c assume "(live(p := None)) q = Some c"
  then have q: "live q = Some c" "q \<noteq> p" by (auto split: if_splits)
  from holdsE [OF assms(1) q(1)] obtain b j where b: "(b, j) \<in> used" "unat q = b + 12" "length c + 20 \<le> j"
    "\<forall>i<length c. m (q + of_nat i) = c ! i" by blast
  have "b \<noteq> a" using b(2) assms(2) q(2) by (metis word_unat_eq_iff)
  then show "\<exists>b j. (b, j) \<in> used - {(a, k)} \<and> unat q = b + 12 \<and> length c + 20 \<le> j \<and>
      (\<forall>i<length c. m (q + of_nat i) = c ! i)" using b by blast
qed

lemma of_nat_address: "unat (p :: u32) = a \<Longrightarrow> p = of_nat a"
  by auto

locale allocator =
  fixes ok :: "'s \<Rightarrow> bool"
    and used :: "'s \<Rightarrow> (nat \<times> nat) set"
    and fetch :: "'s \<Rightarrow> mem"
    and poke :: "u32 \<Rightarrow> u8 \<Rightarrow> 's \<Rightarrow> 's"
    and take_block :: "u32 \<Rightarrow> 's \<Rightarrow> (u32 \<times> 's) res"
    and give_back :: "u32 \<Rightarrow> 's \<Rightarrow> 's res"
    and can_take :: "u32 \<Rightarrow> 's \<Rightarrow> bool"
    and can_give :: "u32 \<Rightarrow> 's \<Rightarrow> bool"
  assumes used_size: "ok s \<Longrightarrow> (a, k) \<in> used s \<Longrightarrow> 20 \<le> k \<and> a + k < 2 ^ 32"
    and used_apart: "ok s \<Longrightarrow> (a, k) \<in> used s \<Longrightarrow> (b, j) \<in> used s \<Longrightarrow> (a, k) = (b, j) \<or> a + k \<le> b \<or> b + j \<le> a"
    and fetch_poke: "fetch (poke x v s) = (fetch s)(x := v)"
    and poke_ok: "ok s \<Longrightarrow> (a, k) \<in> used s \<Longrightarrow> a + 12 \<le> unat x \<Longrightarrow> unat x + 8 < a + k \<Longrightarrow>
      ok (poke x v s) \<and> used (poke x v s) = used s"
    and take_ok: "ok s \<Longrightarrow> can_take n s \<Longrightarrow> \<exists>a k s'. take_block n s = Inr (of_nat (a + 12), s') \<and> ok s' \<and>
      used s' = insert (a, k) (used s) \<and> unat n + 20 \<le> k \<and> (\<forall>j. (a, j) \<notin> used s) \<and>
      (\<forall>b j. (b, j) \<in> used s \<longrightarrow> same_on b (b + j) (fetch s) (fetch s'))"
    and give_ok: "ok s \<Longrightarrow> (a, k) \<in> used s \<Longrightarrow> can_give (of_nat (a + 12)) s \<Longrightarrow>
      \<exists>s'. give_back (of_nat (a + 12)) s = Inr s' \<and> ok s' \<and> used s' = used s - {(a, k)} \<and>
      (\<forall>b j. (b, j) \<in> used s' \<longrightarrow> same_on b (b + j) (fetch s) (fetch s'))"
begin

text \<open>An expected byte is at an address inside its block.\<close>

lemma byte_at:
  assumes "ok s" "(a, k) \<in> used s" "unat (p :: u32) = a + 12" "i + 20 < k"
  shows "unat (p + of_nat i) = a + 12 + i" "a + k < 2 ^ 32"
proof -
  show "a + k < 2 ^ 32" using used_size [OF assms(1,2)] by simp
  then have "a + 12 + i < 2 ^ 32" using assms(4) by linarith
  moreover have "p + of_nat i = of_nat (a + 12 + i)"
    using of_nat_address [OF assms(3)] by (simp del: of_nat_add flip: of_nat_add)
  ultimately show "unat (p + of_nat i) = a + 12 + i" by (simp add: unat_of_nat_small del: of_nat_add)
qed

lemma holds_kept:
  assumes "ok s" "holds U (fetch s) live" "U \<subseteq> used s" "U \<subseteq> V"
    and "\<And>b j. (b, j) \<in> U \<Longrightarrow> same_on b (b + j) (fetch s) m"
  shows "holds V m live"
  unfolding holds_def
proof (intro allI impI)
  fix p d assume "live p = Some d"
  then obtain a k where B: "(a, k) \<in> U" "unat p = a + 12" "length d + 20 \<le> k"
    "\<And>i. i < length d \<Longrightarrow> fetch s (p + of_nat i) = d ! i" using holdsE [OF assms(2)] by blast
  have "m (p + of_nat i) = d ! i" if "i < length d" for i
  proof -
    have "unat (p + of_nat i) = a + 12 + i" by (rule byte_at [OF assms(1) _ B(2)]) (use B assms(3) that in auto)
    then have "m (p + of_nat i) = fetch s (p + of_nat i)"
      using assms(5) [OF B(1)] B(3) that by (simp add: same_on_def)
    then show ?thesis using B(4) [OF that] by simp
  qed
  then show "\<exists>a k. (a, k) \<in> V \<and> unat p = a + 12 \<and> length d + 20 \<le> k \<and> (\<forall>i<length d. m (p + of_nat i) = d ! i)"
    using B assms(4) by blast
qed

lemma holds_apart:
  assumes "ok s" "holds (used s) (fetch s) live" "live p = Some d" "live q = Some d'" "p \<noteq> q"
  shows "unat p + length d + 20 \<le> unat q \<or> unat q + length d' + 20 \<le> unat p"
proof -
  obtain a k where A: "(a, k) \<in> used s" "unat p = a + 12" "length d + 20 \<le> k" using holdsE [OF assms(2,3)] by blast
  obtain b j where B: "(b, j) \<in> used s" "unat q = b + 12" "length d' + 20 \<le> j" using holdsE [OF assms(2,4)] by blast
  have "unat p \<noteq> unat q" using assms(5) by (metis word_unat_eq_iff)
  then show ?thesis using used_apart [OF assms(1) A(1) B(1)] A(2,3) B(2,3) by auto
qed

lemma holds_take:
  assumes "ok s" "holds (used s) (fetch s) live" "can_take n s"
  shows "\<exists>p s'. take_block n s = Inr (p, s') \<and> ok s' \<and> live p = None \<and>
    (\<forall>d. length d = unat n \<and> (\<forall>i<length d. fetch s' (p + of_nat i) = d ! i) \<longrightarrow>
      holds (used s') (fetch s') (live(p \<mapsto> d)))"
proof -
  from take_ok [OF assms(1,3)] obtain a k s' where s': "take_block n s = Inr (of_nat (a + 12), s')" "ok s'"
    "used s' = insert (a, k) (used s)" "unat n + 20 \<le> k" "\<And>j. (a, j) \<notin> used s"
    "\<And>b j. (b, j) \<in> used s \<Longrightarrow> same_on b (b + j) (fetch s) (fetch s')" by blast
  have "a + k < 2 ^ 32" using used_size [OF s'(2), of a k] s'(3) by simp
  then have p: "unat (of_nat (a + 12) :: u32) = a + 12" using s'(4) by (intro unat_of_nat_small) simp
  have "live (of_nat (a + 12)) = None"
  proof (rule ccontr)
    assume "live (of_nat (a + 12)) \<noteq> None"
    then obtain d b j where "(b, j) \<in> used s" "unat (of_nat (a + 12) :: u32) = b + 12"
      using holdsE [OF assms(2)] by (metis not_None_eq)
    then show False using p s'(5) by simp
  qed
  moreover have "holds (used s') (fetch s') live"
    by (rule holds_kept [OF assms(1,2) subset_refl _ s'(6)]) (auto simp: s'(3))
  moreover have "holds (used s') (fetch s') (live(of_nat (a + 12) \<mapsto> d))"
    if "length d = unat n" "\<forall>i<length d. fetch s' (of_nat (a + 12) + of_nat i) = d ! i" for d
  proof (rule holds_insert [of _ _ _ _ a k])
    show "holds (used s') (fetch s') (live(of_nat (a + 12) := None))"
      using \<open>holds (used s') (fetch s') live\<close> \<open>live (of_nat (a + 12)) = None\<close> by (metis fun_upd_triv)
  qed (use that s'(3,4) p in \<open>simp_all del: of_nat_add\<close>)
  ultimately show ?thesis using s'(1,2) by blast
qed

lemma holds_poke:
  assumes "ok s" "holds (used s) (fetch s) live" "live p = Some d" "i < length d"
  shows "ok (poke (p + of_nat i) v s) \<and>
    holds (used (poke (p + of_nat i) v s)) (fetch (poke (p + of_nat i) v s)) (live(p \<mapsto> d[i := v]))"
proof -
  let ?s = "poke (p + of_nat i) v s"
  obtain a k where A: "(a, k) \<in> used s" "unat p = a + 12" "length d + 20 \<le> k"
    "\<And>j. j < length d \<Longrightarrow> fetch s (p + of_nat j) = d ! j" using holdsE [OF assms(2,3)] by blast
  have at: "unat (p + of_nat j) = a + 12 + j" if "j < length d" for j
    by (rule byte_at [OF assms(1) A(1,2)]) (use A(3) that in simp)
  have ok: "ok ?s" "used ?s = used s"
    using poke_ok [OF assms(1) A(1), of "p + of_nat i" v] at [OF assms(4)] A(3) assms(4) by simp_all
  have "holds (used s) (fetch ?s) (live(p := None))"
  proof (rule holds_kept [OF assms(1) holds_remove [OF assms(2) A(2), of k]])
    fix b j assume "(b, j) \<in> used s - {(a, k)}"
    then have "a + k \<le> b \<or> b + j \<le> a" using used_apart [OF assms(1) A(1), of b j] by blast
    then show "same_on b (b + j) (fetch s) (fetch ?s)"
      unfolding fetch_poke using at [OF assms(4)] A(3) assms(4) by (auto simp: same_on_def)
  qed auto
  moreover have "fetch ?s (p + of_nat j) = d[i := v] ! j" if "j < length (d[i := v])" for j
  proof -
    have j: "j < length d" using that by simp
    have "p + of_nat i = p + of_nat j \<longleftrightarrow> i = j" using at [OF j] at [OF assms(4)] by (metis add_left_cancel)
    then show ?thesis unfolding fetch_poke using A(4) [OF j] j assms(4) by (auto simp: nth_list_update)
  qed
  ultimately have "holds (used s) (fetch ?s) (live(p \<mapsto> d[i := v]))"
    using A(1-3) by (intro holds_insert) auto
  then show ?thesis using ok by simp
qed

lemma holds_give:
  assumes "ok s" "holds (used s) (fetch s) live" "live p = Some d" "can_give p s"
  shows "\<exists>s'. give_back p s = Inr s' \<and> ok s' \<and> holds (used s') (fetch s') (live(p := None))"
proof -
  obtain a k where A: "(a, k) \<in> used s" "unat p = a + 12" using holdsE [OF assms(2,3)] by blast
  note p = of_nat_address [OF A(2)]
  from give_ok [OF assms(1) A(1)] assms(4) obtain s' where s': "give_back p s = Inr s'" "ok s'"
    "used s' = used s - {(a, k)}" "\<And>b j. (b, j) \<in> used s' \<Longrightarrow> same_on b (b + j) (fetch s) (fetch s')"
    unfolding p by blast
  have "holds (used s') (fetch s) (live(p := None))"
    unfolding s'(3) by (rule holds_remove [OF assms(2) A(2)])
  then have "holds (used s') (fetch s') (live(p := None))"
    by (rule holds_kept [OF assms(1) _ _ subset_refl s'(4)]) (auto simp: s'(3))
  then show ?thesis using s'(1,2) by blast
qed

end

section \<open>The blocks of the kernel's heap\<close>

text \<open>Blocks do not overlap, and the headers in memory determine them.\<close>

lemma layout_apart:
  "(x, h, n) \<in> set (layout a bs) \<Longrightarrow> (y, g, k) \<in> set (layout a bs) \<Longrightarrow> (x, h, n) = (y, g, k) \<or> x + n \<le> y \<or> y + k \<le> x"
proof (induction a bs rule: layout.induct)
  case (2 a h' n' bs)
  then show ?case by (auto dest: layout_in)
qed simp

lemma layout_split:
  "(x, h, n) \<in> set (layout a bs) \<Longrightarrow> \<exists>pre post. bs = pre @ (h, n) # post \<and> x = a + room pre"
proof (induction a bs rule: layout.induct)
  case (2 a h' n' bs)
  show ?case
  proof (cases "(x, h, n) = (a, h', n')")
    case True
    then have "(h', n') # bs = [] @ (h, n) # bs \<and> x = a + room []" by simp
    then show ?thesis by blast
  next
    case False
    then obtain pre post where "bs = pre @ (h, n) # post" "x = a + n' + room pre" using 2 by auto
    then have "(h', n') # bs = ((h', n') # pre) @ (h, n) # post \<and> x = a + room ((h', n') # pre)" by simp
    then show ?thesis by blast
  qed
qed simp

lemma tiles_Cons:
  "tiles m a ((h, n) # bs) e \<longleftrightarrow> block_ok m e (a, h, n) \<and> tiles m (a + n) bs e"
  by (auto simp: tiles_def)

lemma tiles_unique: "tiles m a bs e \<Longrightarrow> tiles m a bs' e \<Longrightarrow> e < 2 ^ 32 \<Longrightarrow> bs = bs'"
proof (induction bs arbitrary: a bs')
  case Nil
  then show ?case by (cases bs') (auto simp: tiles_def block_ok_def)
next
  case (Cons b bs)
  obtain h n where b: "b = (h, n)" by (cases b)
  have big: "20 \<le> n" "a + n \<le> e" using Cons.prems(1) by (auto simp: b tiles_def block_ok_def)
  then obtain h' n' bs'' where bs': "bs' = (h', n') # bs''"
    using Cons.prems(2) by (cases bs') (auto simp: tiles_def)
  have small: "n' \<le> e" using Cons.prems(2) by (simp add: bs' tiles_def)
  have H: "hdr m a h n" "hdr m a h' n'"
    using Cons.prems(1,2) by (auto simp: b bs' tiles_Cons block_ok_def)
  then have "(of_nat n :: u32) = of_nat n'" by (simp add: hdr_def)
  then have "unat (of_nat n :: u32) = unat (of_nat n' :: u32)" by simp
  moreover have "n < 2 ^ 32" "n' < 2 ^ 32" using big(2) small Cons.prems(3) by linarith+
  ultimately have "n = n'" by (simp add: unat_of_nat_small)
  moreover have "h = h'" using H by (simp add: hdr_def split: if_splits)
  ultimately show ?case using Cons by (auto simp: b bs' tiles_Cons)
qed

fun in_use :: "nat \<Rightarrow> (bool \<times> nat) list \<Rightarrow> (nat \<times> nat) set" where
  "in_use a [] = {}"
| "in_use a ((h, n) # bs) = (if h then in_use (a + n) bs else insert (a, n) (in_use (a + n) bs))"

lemma in_use_iff: "(x, n) \<in> in_use a bs \<longleftrightarrow> (x, False, n) \<in> set (layout a bs)"
  by (induction a bs rule: in_use.induct) auto

lemma in_use_append [simp]: "in_use a (xs @ ys) = in_use a xs \<union> in_use (a + room xs) ys"
  by (induction a xs rule: in_use.induct) (auto simp: add.assoc)

lemma in_use_in: "(x, n) \<in> in_use a bs \<Longrightarrow> a \<le> x \<and> x + n \<le> a + room bs"
  by (simp add: in_use_iff layout_in)

definition used_blocks :: "kst \<Rightarrow> (nat \<times> nat) set" where
  "used_blocks st = {b. \<exists>bs h. heap_inv st bs \<and> kheap st = Some h \<and> b \<in> in_use (unat (start_address h)) bs}"

lemma used_blocks_eq:
  assumes "heap_inv st bs" "kheap st = Some h"
  shows "used_blocks st = in_use (unat (start_address h)) bs"
proof -
  have "bs' = bs" if "heap_inv st bs'" for bs'
  proof (rule tiles_unique)
    show "tiles (kmem st) (unat (start_address h)) bs' (unat (end_address h))"
      "tiles (kmem st) (unat (start_address h)) bs (unat (end_address h))"
      using that assms by (auto elim!: heap_invE)
  qed (use unat_less_pow [of "end_address h"] in simp)
  then have "(\<exists>bs' h'. heap_inv st bs' \<and> kheap st = Some h' \<and> b \<in> in_use (unat (start_address h')) bs') \<longleftrightarrow>
      b \<in> in_use (unat (start_address h)) bs" for b
    using assms by (metis option.inject)
  then show ?thesis by (simp add: used_blocks_def)
qed

text \<open>A user's write stays between the header and the footer of a block in use.\<close>

definition poke :: "u32 \<Rightarrow> u8 \<Rightarrow> kst \<Rightarrow> kst" where
  "poke x v st = st\<lparr>kmem := (kmem st)(x := v)\<rparr>"

lemma heap_inv_poke:
  assumes "heap_inv st bs" "kheap st = Some h" "(a, k) \<in> in_use (unat (start_address h)) bs"
    and "a + 12 \<le> unat x" "unat x + 8 < a + k"
  shows "heap_inv (poke x v st) bs"
proof -
  define lo e where "lo = unat (start_address h)" and "e = unat (end_address h)"
  from assms(1,2) have inv: "oa_wf (index h)" "less_than (index h) = Some header_t_less_than"
    "unat (oa_size (index h)) \<le> unat (max_size (index h))" "unat (max_size (index h)) \<le> 2 ^ 20"
    "unat (array (index h)) + 4 * unat (max_size (index h)) \<le> lo" "tiles (kmem st) lo bs e"
    "mset (oa_list (index h) (kmem st)) = image_mset of_nat (mset (holes lo bs))"
    by (auto simp: lo_def e_def elim!: heap_invE)
  have e32: "e < 2 ^ 32" using unat_less_pow [of "end_address h"] by (simp add: e_def)
  let ?m = "(kmem st)(x := v)"
  have same: "same_on l u (kmem st) ?m" if "unat x < l \<or> u \<le> unat x" for l u
    using that by (auto simp: same_on_def)
  have A: "(a, False, k) \<in> set (layout lo bs)" using assms(3) by (simp add: in_use_iff lo_def)
  have within: "lo \<le> a" "a + k \<le> e" using layout_in [OF A] inv(6) by (simp_all add: tiles_def)
  have "block_ok ?m e (y, g, n)" if y: "(y, g, n) \<in> set (layout lo bs)" for y g n
  proof -
    have ok: "block_ok (kmem st) e (y, g, n)" using inv(6) y by (auto simp: tiles_def)
    have yn: "y + n \<le> e" using layout_in [OF y] inv(6) by (simp add: tiles_def)
    from layout_apart [OF A y] consider "(y, g, n) = (a, False, k)" | "a + k \<le> y" | "y + n \<le> a" by blast
    then show ?thesis
    proof cases
      case 1
      have "hdr (kmem st) a False k" "ftr (kmem st) (a + k - 8) a" using ok 1 by (simp_all add: block_ok_def)
      moreover have "same_on a (a + 12) (kmem st) ?m" "same_on (a + k - 8) (a + k - 8 + 8) (kmem st) ?m"
        by (rule same; use assms(4,5) in linarith)+
      ultimately have "hdr ?m a False k \<and> ftr ?m (a + k - 8) a"
        using assms(4,5) within(2) e32 by (intro conjI hdr_cong [of a _ ?m] ftr_cong [of "a + k - 8" _ ?m]) auto
      then show ?thesis using ok 1 by (simp add: block_ok_def)
    qed (rule block_ok_cong [OF ok same]; use assms(4,5) yn e32 in linarith)+
  qed
  then have "tiles ?m lo bs e" using inv(6) by (auto simp: tiles_def)
  moreover have "oa_list (index h) ?m = oa_list (index h) (kmem st)"
    by (rule oa_list_same_on [of 0 lo, OF same]) (use inv(3,5) within assms(4,5) e32 in simp_all)
  ultimately show ?thesis
    using inv assms(2) by (simp add: poke_def heap_inv_def word_le_nat_alt lo_def [symmetric] e_def [symmetric])
qed

section \<open>The kernel's heap keeps the contract\<close>

text \<open>
  The requests the heap serves rightly: some listed hole is large enough; the block is not the first, the index has
  room for it, and the block behind it exists and is in use.
\<close>

definition has_room :: "u32 \<Rightarrow> kst \<Rightarrow> bool" where
  "has_room n st = (case kheap st of None \<Rightarrow> False | Some h \<Rightarrow>
     unat n + 20 < 2 ^ 32 \<and> list_ex (\<lambda>p. unat n + 20 \<le> unat (get_size (kmem st) p)) (oa_list (index h) (kmem st)))"

definition kfree_safe :: "u32 \<Rightarrow> kst \<Rightarrow> bool" where
  "kfree_safe p st = (case kheap st of None \<Rightarrow> False | Some h \<Rightarrow>
     let block = p - 12; right = block + get_size (kmem st) block
     in oa_size (index h) < max_size (index h) \<and> block \<noteq> start_address h \<and> right \<noteq> end_address h \<and>
        get_is_hole (kmem st) right = 0)"

definition heap_ok :: "kst \<Rightarrow> bool" where
  "heap_ok st \<longleftrightarrow> (\<exists>bs. heap_inv st bs)"

lemma heap_okE:
  assumes "heap_ok st"
  obtains bs h where "heap_inv st bs" "kheap st = Some h" "used_blocks st = in_use (unat (start_address h)) bs"
proof -
  from assms obtain bs where bs: "heap_inv st bs" by (auto simp: heap_ok_def)
  then obtain h where "kheap st = Some h" by (elim heap_invE)
  with bs show ?thesis using that used_blocks_eq by blast
qed

lemma kmalloc_takes:
  assumes "heap_ok st" "has_room n st"
  shows "\<exists>a k st'. kmalloc (Suc (Suc fuel)) n st = Inr (of_nat (a + 12), st') \<and> heap_ok st' \<and>
    used_blocks st' = insert (a, k) (used_blocks st) \<and> unat n + 20 \<le> k \<and> (\<forall>j. (a, j) \<notin> used_blocks st) \<and>
    (\<forall>b j. (b, j) \<in> used_blocks st \<longrightarrow> same_on b (b + j) (kmem st) (kmem st'))"
proof -
  obtain bs h where bs: "heap_inv st bs" "kheap st = Some h" "used_blocks st = in_use (unat (start_address h)) bs"
    using heap_okE [OF assms(1)] by blast
  define lo where "lo = unat (start_address h)"
  have T: "tiles (kmem st) lo bs (unat (end_address h))"
    "mset (oa_list (index h) (kmem st)) = image_mset of_nat (mset (holes lo bs))"
    using bs(1,2) by (auto simp: lo_def elim!: heap_invE)
  obtain p where "p \<in> set (oa_list (index h) (kmem st))" and p: "unat n + 20 \<le> unat (get_size (kmem st) p)"
    and n32: "unat n + 20 < 2 ^ 32" using assms(2) bs(2) by (auto simp: has_room_def list_ex_iff)
  then obtain x where "x \<in> set (holes lo bs)" "p = of_nat x"
    using arg_cong [OF T(2), of set_mset] by auto
  with holes_split obtain pre0 k0 post0 where x: "bs = pre0 @ (True, k0) # post0" "p = of_nat (lo + room pre0)" by blast
  have "get_size (kmem st) p = of_nat k0"
    using tiles_block(4) [of "kmem st" lo pre0 True k0 post0] T(1) by (simp add: x hdr_def)
  then have "unat n + 20 \<le> k0" using p by (simp add: unat_of_nat take_bit_eq_mod)
  moreover have "(True, k0) \<in> set bs" by (simp add: x)
  ultimately obtain pre k post q st1 ar where A: "bs = pre @ (True, k) # post" "unat n + 20 \<le> k" "q = lo + room pre"
    "alloc (Suc fuel) n 0 st = Inr (of_nat (q + 12), st1)"
    "heap_inv st1 (pre @ take_hole k (unat n + 20) @ post)" "same_on lo q (kmem st) (kmem st1)"
    "same_on (q + k) (2 ^ 32) (kmem st) (kmem st1)" "kheap st1 = Some (h\<lparr>index := ar\<rparr>)"
    using alloc_fits [OF bs(1) n32 _ _ bs(2), of k0 fuel] unfolding lo_def by blast
  define k' where "k' = (if k - (unat n + 20) < 20 then k else unat n + 20)"
  define st' where "st' = klog_kst ''kmalloc heap: %X\<newline>'' [ArgInt (of_nat (q + 12))] st1"
  have "kmalloc (Suc (Suc fuel)) n st = Inr (of_nat (q + 12), st')"
    by (simp add: kmalloc_def bs(2) A(4) st'_def del: alloc.simps of_nat_add)
  moreover have ok: "heap_inv st' (pre @ take_hole k (unat n + 20) @ post)" "kheap st' = Some (h\<lparr>index := ar\<rparr>)"
    "kmem st' = kmem st1" using A(5,8) by (simp_all add: st'_def heap_inv_klog)
  moreover have U: "used_blocks st = in_use lo pre \<union> in_use (q + k) post" using bs(3) by (simp add: A(1,3) lo_def)
  have "in_use q (take_hole k (unat n + 20)) = {(q, k')}" by (simp add: take_hole_def k'_def)
  then have "used_blocks st' = insert (q, k') (used_blocks st)"
    using used_blocks_eq [OF ok(1,2)] room_take_hole [OF A(2)] A(3) by (auto simp: U lo_def)
  moreover have "(q, j) \<notin> used_blocks st" for j
  proof
    assume "(q, j) \<in> used_blocks st"
    then have "(q, False, j) \<in> set (layout lo bs)" using bs(3) by (simp add: in_use_iff lo_def)
    moreover have "(q, True, k) \<in> set (layout lo bs)" by (simp add: A(1,3) layout_append)
    moreover have "20 \<le> j" using T(1) calculation(1) by (auto simp: tiles_def block_ok_def)
    ultimately show False using layout_apart [of q False j lo bs q True k] A(2) by auto
  qed
  moreover have "same_on b (b + j) (kmem st) (kmem st')" if "(b, j) \<in> used_blocks st" for b j
  proof -
    have "lo \<le> b \<and> b + j \<le> q \<or> q + k \<le> b"
      using that U in_use_in [of b j lo pre] in_use_in [of b j "q + k" post] A(3) by auto
    then show ?thesis unfolding ok(3) using same_on_sub [OF A(6)] same_on_top [OF A(7)] by blast
  qed
  moreover have "unat n + 20 \<le> k'" using A(2) by (simp add: k'_def)
  ultimately show ?thesis unfolding heap_ok_def by blast
qed

lemma kfree_gives_back:
  assumes "heap_ok st" "(a, k) \<in> used_blocks st" "kfree_safe (of_nat (a + 12)) st"
  shows "\<exists>st'. kfree kap (of_nat (a + 12)) st = Inr st' \<and> heap_ok st' \<and> used_blocks st' = used_blocks st - {(a, k)} \<and>
    (\<forall>b j. (b, j) \<in> used_blocks st' \<longrightarrow> same_on b (b + j) (kmem st) (kmem st'))"
proof -
  obtain bs h where bs: "heap_inv st bs" "kheap st = Some h" "used_blocks st = in_use (unat (start_address h)) bs"
    using heap_okE [OF assms(1)] by blast
  define lo e where "lo = unat (start_address h)" and "e = unat (end_address h)"
  have T: "tiles (kmem st) lo bs e" using bs(1,2) by (auto simp: lo_def e_def elim!: heap_invE)
  have e32: "e < 2 ^ 32" using unat_less_pow [of "end_address h"] by (simp add: e_def)
  have "(a, False, k) \<in> set (layout lo bs)" using assms(2) bs(3) by (simp add: in_use_iff lo_def)
  then obtain front rest where split: "bs = front @ (False, k) # rest" "a = lo + room front"
    using layout_split by blast
  note B = tiles_block [OF T [unfolded split(1)], folded split(2)]
  have block: "of_nat (a + 12) - 12 = (of_nat a :: u32)" by simp
  have size: "get_size (kmem st) (of_nat a) = of_nat k" using B(4) by (simp add: hdr_def)
  have safe: "oa_size (index h) < max_size (index h)" "(of_nat a :: u32) \<noteq> start_address h"
    "of_nat (a + k) \<noteq> end_address h" "get_is_hole (kmem st) (of_nat (a + k)) = 0"
    using assms(3) bs(2) unfolding kfree_safe_def Let_def block size by simp_all
  have "front \<noteq> []" using safe(2) split(2) by (auto simp: lo_def)
  then obtain pre lh ln where pre: "front = pre @ [(lh, ln)]" by (metis rev_exhaust surj_pair)
  have "rest \<noteq> []"
  proof
    assume "rest = []"
    then have "unat (end_address h) = a + k" using T split by (simp add: tiles_def e_def)
    from of_nat_address [OF this] show False using safe(3) by simp
  qed
  then obtain h2 n2 post where rest: "rest = (h2, n2) # post" by (metis list.exhaust surj_pair)
  have "tiles (kmem st) lo ((front @ [(False, k)]) @ (h2, n2) # post) e" using T by (simp add: split(1) rest)
  from tiles_block(4) [OF this] have "hdr (kmem st) (a + k) h2 n2" using split(2) by (simp add: add.assoc)
  with safe(4) have "\<not> h2" by (simp add: hdr_def split: if_splits)
  then have bs': "bs = pre @ (lh, ln) # (False, k) # (False, n2) # post" by (simp add: split(1) pre rest)
  have a: "a = lo + room pre + ln" using split(2) by (simp add: pre)
  define x where "x = (if lh then a - ln else a)"
  from free_inner [OF bs(1) [unfolded bs'] bs(2) safe(1) a [unfolded lo_def] x_def, of kap] obtain st' ar where st':
    "free kap (of_nat (a + 12)) st = Inr st'"
    "heap_inv st' (pre @ (if lh then [(True, ln + k)] else [(False, ln), (True, k)]) @ (False, n2) # post)"
    "\<And>l u. lo \<le> l \<Longrightarrow> u \<le> x \<or> a + k \<le> l \<Longrightarrow> same_on l u (kmem st) (kmem st')"
    "kheap st' = Some (h\<lparr>index := ar\<rparr>)"
    unfolding lo_def by blast
  define U where "U = in_use lo pre \<union> (if lh then {} else {(lo + room pre, ln)}) \<union>
    insert (a + k, n2) (in_use (a + k + n2) post)"
  have "used_blocks st' = U"
    using used_blocks_eq [OF st'(2,4)] by (auto simp: U_def lo_def [symmetric] a add.assoc)
  moreover have old: "used_blocks st = insert (a, k) U"
    unfolding bs(3) by (auto simp: U_def bs' lo_def [symmetric] a add.assoc)
  have place: "lo \<le> b \<and> b + j \<le> x \<or> a + k \<le> b" if "(b, j) \<in> U" for b j
    using that in_use_in [of b j lo pre] in_use_in [of b j "a + k + n2" post] a
    by (auto simp: U_def x_def split: if_splits)
  have pos: "20 \<le> j" if "(b, j) \<in> U" for b j
  proof -
    have "(b, j) \<in> in_use lo bs" using that old bs(3) by (simp add: lo_def)
    then show ?thesis using T unfolding in_use_iff by (auto simp: tiles_def block_ok_def)
  qed
  have "(a, k) \<notin> U" using place [of a k] pos [of a k] by (auto simp: x_def split: if_splits)
  ultimately have rest_used: "used_blocks st' = used_blocks st - {(a, k)}" unfolding old by blast
  have "same_on b (b + j) (kmem st) (kmem st')" if "(b, j) \<in> used_blocks st'" for b j
  proof -
    have "lo \<le> b \<and> (b + j \<le> x \<or> a + k \<le> b)"
      using place [of b j] that \<open>used_blocks st' = U\<close> a by auto
    then show ?thesis using st'(3) by blast
  qed
  then show ?thesis using st'(1,2) rest_used unfolding heap_ok_def kfree_def by blast
qed

interpretation kernel_heap: allocator heap_ok used_blocks kmem poke "kmalloc (Suc (Suc fuel))" "kfree kap" has_room kfree_safe
  for fuel kap
proof
  fix st a k b j
  assume st: "heap_ok st" and A: "(a, k) \<in> used_blocks st"
  obtain bs h where bs: "heap_inv st bs" "kheap st = Some h" "used_blocks st = in_use (unat (start_address h)) bs"
    using heap_okE [OF st] by blast
  have T: "tiles (kmem st) (unat (start_address h)) bs (unat (end_address h))"
    using bs(1,2) by (auto elim!: heap_invE)
  have L: "(a, False, k) \<in> set (layout (unat (start_address h)) bs)" using A bs(3) by (simp add: in_use_iff)
  then show "20 \<le> k \<and> a + k < 2 ^ 32"
    using T layout_in [OF L] unat_less_pow [of "end_address h"] by (auto simp: tiles_def block_ok_def)
  show "(a, k) = (b, j) \<or> a + k \<le> b \<or> b + j \<le> a" if "(b, j) \<in> used_blocks st"
    using layout_apart [OF L, of b False j] that bs(3) by (simp add: in_use_iff)
  fix x v
  show "heap_ok (poke x v st) \<and> used_blocks (poke x v st) = used_blocks st" if "a + 12 \<le> unat x" "unat x + 8 < a + k"
  proof -
    have p: "heap_inv (poke x v st) bs" using heap_inv_poke [OF bs(1,2) _ that] A bs(3) by simp
    then show ?thesis using used_blocks_eq [OF p, of h] bs(2,3) by (auto simp: heap_ok_def poke_def)
  qed
next
  show "kmem (poke x v st) = (kmem st)(x := v)" for x v st by (simp add: poke_def)
qed (rule kmalloc_takes kfree_gives_back; assumption)+

section \<open>Users\<close>

text \<open>
  A request to the heap, or a write of one byte, the \<open>i\<close>-th from an address received. The state is the kernel's
  with what the users expect in their blocks: what an allocation finds there, as changed by their writes.
\<close>

datatype request = Malloc u32 | Store u32 nat u8 | Free u32

definition contents :: "mem \<Rightarrow> u32 \<Rightarrow> nat \<Rightarrow> u8 list" where
  "contents m p n = map (\<lambda>i. m (p + of_nat i)) [0..<n]"

fun serve :: "nat \<Rightarrow> table_alloc \<Rightarrow> request \<Rightarrow> kst \<times> (u32 \<rightharpoonup> u8 list) \<Rightarrow> (kst \<times> (u32 \<rightharpoonup> u8 list)) res" where
  "serve fuel kap (Malloc n) (st, live) =
     res_bind (kmalloc fuel n st) (\<lambda>(p, st). Inr (st, live(p \<mapsto> contents (kmem st) p (unat n))))"
| "serve fuel kap (Store p i v) (st, live) =
     Inr (poke (p + of_nat i) v st, live(p := map_option (\<lambda>d. d[i := v]) (live p)))"
| "serve fuel kap (Free p) (st, live) = res_bind (kfree kap p st) (\<lambda>st. Inr (st, live(p := None)))"

text \<open>Users write only into what they hold, release only what they hold, and make requests the heap serves rightly.\<close>

fun allowed :: "request \<Rightarrow> kst \<times> (u32 \<rightharpoonup> u8 list) \<Rightarrow> bool" where
  "allowed (Malloc n) (st, live) = has_room n st"
| "allowed (Store p i v) (st, live) = (case live p of None \<Rightarrow> False | Some d \<Rightarrow> i < length d)"
| "allowed (Free p) (st, live) = (live p \<noteq> None \<and> kfree_safe p st)"

inductive reached :: "nat \<Rightarrow> table_alloc \<Rightarrow> kst \<Rightarrow> kst \<times> (u32 \<rightharpoonup> u8 list) \<Rightarrow> bool" for fuel kap st0 where
  start: "reached fuel kap st0 (st0, Map.empty)"
| request: "reached fuel kap st0 c \<Longrightarrow> allowed r c \<Longrightarrow> serve fuel kap r c = Inr c' \<Longrightarrow> reached fuel kap st0 c'"

lemma length_contents [simp]: "length (contents m p n) = n"
  by (simp add: contents_def)

lemma nth_contents [simp]: "i < n \<Longrightarrow> contents m p n ! i = m (p + of_nat i)"
  by (simp add: contents_def)

definition users_ok :: "kst \<times> (u32 \<rightharpoonup> u8 list) \<Rightarrow> bool" where
  "users_ok c \<longleftrightarrow> heap_ok (fst c) \<and> holds (used_blocks (fst c)) (kmem (fst c)) (snd c)"

lemma serve_safe:
  assumes "users_ok (st, live)" "allowed r (st, live)"
  shows "\<exists>st' live'. serve (Suc (Suc fuel)) kap r (st, live) = Inr (st', live') \<and> users_ok (st', live') \<and>
    (\<forall>n. r = Malloc n \<longrightarrow> (\<exists>p. live p = None \<and> live' = live(p \<mapsto> contents (kmem st') p (unat n))))"
proof -
  have ok: "heap_ok st" "holds (used_blocks st) (kmem st) live" using assms(1) by (simp_all add: users_ok_def)
  show ?thesis
  proof (cases r)
    case (Malloc n)
    from kernel_heap.holds_take [OF ok, of n fuel] assms(2) Malloc obtain p st' where
      "kmalloc (Suc (Suc fuel)) n st = Inr (p, st')" "heap_ok st'" "live p = None"
      "\<forall>d. length d = unat n \<and> (\<forall>i<length d. kmem st' (p + of_nat i) = d ! i) \<longrightarrow>
        holds (used_blocks st') (kmem st') (live(p \<mapsto> d))" by auto
    then show ?thesis using Malloc by (auto simp: users_ok_def)
  next
    case (Store p i v)
    then obtain d where d: "live p = Some d" "i < length d" using assms(2) by (auto split: option.splits)
    from kernel_heap.holds_poke [OF ok d, of v] show ?thesis using Store d(1) by (simp add: users_ok_def)
  next
    case (Free p)
    then obtain d where "live p = Some d" "kfree_safe p st" using assms(2) by auto
    from kernel_heap.holds_give [OF ok this, of kap] show ?thesis using Free by (auto simp: users_ok_def)
  qed
qed

lemma reached_ok:
  assumes "reached (Suc (Suc fuel)) kap st0 c" "heap_ok st0"
  shows "users_ok c"
  using assms
proof (induction rule: reached.induct)
  case start
  then show ?case by (simp add: users_ok_def holds_def)
next
  case (request c r c')
  then show ?case using serve_safe [of "fst c" "snd c" r fuel kap] by auto
qed

text \<open>
  C7. Users of the heap are served and left alone. Over any sequence of \<^verbatim>\<open>kmalloc\<close> with a hole that is large
  enough, \<^verbatim>\<open>kfree\<close> of a block between two others with the right one in use, and writes into blocks received,
  no request fails; the blocks held never overlap; each holds what its user last wrote; and an allocation
  returns an address nobody holds.
\<close>
theorem heap_serves_users:
  assumes "heap_inv st0 bs" "reached (Suc (Suc fuel)) kap st0 (st, live)"
  shows "(\<forall>p d. live p = Some d \<longrightarrow> contents (kmem st) p (length d) = d) \<and>
    (\<forall>p q d c. live p = Some d \<and> live q = Some c \<and> p \<noteq> q \<longrightarrow>
      unat p + length d \<le> unat q \<or> unat q + length c \<le> unat p) \<and>
    (\<forall>r. allowed r (st, live) \<longrightarrow> (\<exists>st' live'. serve (Suc (Suc fuel)) kap r (st, live) = Inr (st', live') \<and>
      (\<forall>n. r = Malloc n \<longrightarrow> (\<exists>p. live p = None \<and> live' = live(p \<mapsto> contents (kmem st') p (unat n))))))"
proof -
  have "heap_ok st0" using assms(1) by (auto simp: heap_ok_def)
  from reached_ok [OF assms(2) this] have ok: "users_ok (st, live)" .
  then have h: "heap_ok st" "holds (used_blocks st) (kmem st) live" by (simp_all add: users_ok_def)
  show ?thesis
  proof (intro conjI allI impI)
    fix p d assume "live p = Some d"
    then show "contents (kmem st) p (length d) = d"
      using holdsE [OF h(2)] by (metis length_contents nth_contents nth_equalityI)
  next
    fix p q d c assume "live p = Some d \<and> live q = Some c \<and> p \<noteq> q"
    then show "unat p + length d \<le> unat q \<or> unat q + length c \<le> unat p"
      using kernel_heap.holds_apart [OF h, of p d q c] by linarith
  next
    fix r assume "allowed r (st, live)"
    from serve_safe [OF ok this, of fuel kap]
    show "\<exists>st' live'. serve (Suc (Suc fuel)) kap r (st, live) = Inr (st', live') \<and>
        (\<forall>n. r = Malloc n \<longrightarrow> (\<exists>p. live p = None \<and> live' = live(p \<mapsto> contents (kmem st') p (unat n))))"
      by (elim exE conjE) (intro exI conjI)
  qed
qed

lemma has_room_one_hole:
  assumes "heap_inv st [(True, k)]" "unat n + 20 \<le> k"
  shows "has_room n st"
proof -
  obtain h where h: "kheap st = Some h" using assms(1) by (elim heap_invE)
  have T: "tiles (kmem st) (unat (start_address h)) [(True, k)] (unat (end_address h))"
    "mset (oa_list (index h) (kmem st)) = {#start_address h#}"
    using assms(1) h by (auto elim!: heap_invE)
  have "k < 2 ^ 32" using T(1) unat_less_pow [of "end_address h"] by (simp add: tiles_def)
  moreover have "get_size (kmem st) (start_address h) = of_nat k"
    using T(1) by (simp add: tiles_Cons block_ok_def hdr_def)
  moreover have "set (oa_list (index h) (kmem st)) = {start_address h}"
    using arg_cong [OF T(2), of set_mset] by simp
  ultimately show ?thesis using assms(2) h by (simp add: has_room_def list_ex_iff unat_of_nat_small)
qed

text \<open>One block of the heap at boot, with a byte written into it.\<close>

theorem heap_serves_users_witness:
  "\<exists>st p d. reached 2 early_table_alloc boot_heap (st, [p \<mapsto> 0x41 # d]) \<and> length d = 99 \<and>
    contents (kmem st) p 100 = 0x41 # d"
proof -
  have two: "Suc (Suc 0) = 2" by simp
  note serves = heap_serves_users [OF boot_heap_facts(1), where fuel = 0 and kap = early_table_alloc, unfolded two]
  note r0 = reached.start [of 2 early_table_alloc boot_heap]
  have room: "allowed (Malloc 100) (boot_heap, Map.empty)" using has_room_one_hole [OF boot_heap_facts(1), of 100] by simp
  from serves [OF r0, THEN conjunct2, THEN conjunct2, rule_format, OF room] obtain st1 live1 p where
    "serve 2 early_table_alloc (Malloc 100) (boot_heap, Map.empty) = Inr (st1, live1)"
    "live1 = [p \<mapsto> contents (kmem st1) p (unat (100 :: u32))]" by blast
  then have s1: "serve 2 early_table_alloc (Malloc 100) (boot_heap, Map.empty) =
      Inr (st1, [p \<mapsto> contents (kmem st1) p 100])" by simp
  note r1 = reached.request [OF r0 room s1]
  let ?d = "contents (kmem st1) p 100"
  have "allowed (Store p 0 0x41) (st1, [p \<mapsto> ?d])" by simp
  from reached.request [OF r1 this] have r2: "reached 2 early_table_alloc boot_heap (poke p 0x41 st1, [p \<mapsto> ?d[0 := 0x41]])"
    by simp
  obtain d where d: "?d[0 := 0x41] = 0x41 # d" "length d = 99"
    by (cases ?d) (auto dest: arg_cong [of _ _ length])
  from serves [OF r2, THEN conjunct1, rule_format, of p "?d[0 := 0x41]"]
  have "contents (kmem (poke p 0x41 st1)) p 100 = ?d[0 := 0x41]" by simp
  then show ?thesis using r2 d by metis
qed

end
