(* ===== verification/Mouse.thy ===== *)
theory Mouse
  imports Ports
begin

text \<open>
  The mouse driver (\<^verbatim>\<open>kernel/mouse.c\<close>). It was written for another kernel, is not part of the
  build, and calls that kernel's pipes, modules and interrupt routines, none of which are in the
  repository: the functions it takes results from, and the constants it reads, are the fields of
  \<open>mouse_lib\<close>; the calls made for their effect alone are recorded in \<open>mcalls\<close>.
\<close>

section \<open>State\<close>

text \<open>
  The values the code assigns to the fields of a packet; the struct that holds them is declared
  outside the repository.
\<close>

record mouse_packet =
  magic :: u32
  x_difference :: int
  y_difference :: int
  buttons :: u32

datatype log_level = INFO | NOTICE

datatype mouse_call =
    Debug_print log_level string
  | Irq_ack nat
  | Irq_install_handler nat string
  | Irq_off
  | Irq_res
  | Set_char_device
  | Set_ioctl
  | Vfs_mount string

record 'p mouse_lib =
  make_pipe :: "nat \<Rightarrow> 'p"
  null_pipe :: 'p
  pipe_size :: "'p \<Rightarrow> int"
  read_fs :: "nat \<Rightarrow> 'p \<Rightarrow> 'p"
  write_fs :: "nat \<Rightarrow> mouse_packet \<Rightarrow> 'p \<Rightarrow> 'p"
  sizeof_packet :: nat
  mouse_magic :: u32
  left_click :: u32
  right_click :: u32
  middle_click :: u32
  scroll_up :: u32
  scroll_down :: u32
  args_present :: "string \<Rightarrow> bool"

record 'p mouse =
  mouse_cycle :: u8
  mouse_byte :: "u8 list"
  mouse_mode :: int
  mouse_pipe :: 'p
  ps2_mouse_alternate :: "(env \<Rightarrow> env) option"
  mcalls :: "mouse_call list"
  menv :: env

definition mouse_initial :: "'p mouse_lib \<Rightarrow> env \<Rightarrow> 'p mouse" where
  "mouse_initial lib e = \<lparr>mouse_cycle = 0, mouse_byte = [0, 0, 0, 0], mouse_mode = 0,
     mouse_pipe = null_pipe lib, ps2_mouse_alternate = None, mcalls = [], menv = e\<rparr>"

definition call :: "mouse_call \<Rightarrow> 'p mouse \<Rightarrow> 'p mouse" where
  "call c st = st\<lparr>mcalls := mcalls st @ [c]\<rparr>"

definition in_port :: "u16 \<Rightarrow> 'p mouse \<Rightarrow> u8 \<times> 'p mouse" where
  "in_port p st = (let (b, e) = inportb p (menv st) in (b, st\<lparr>menv := e\<rparr>))"

definition out_port :: "u16 \<Rightarrow> u8 \<Rightarrow> 'p mouse \<Rightarrow> 'p mouse" where
  "out_port p b st = st\<lparr>menv := outportb p b (menv st)\<rparr>"

section \<open>Talking to the device\<close>

text \<open>
  \<^verbatim>\<open>while (--timeout)\<close>: whether the awaited state was seen before the count ran out.
\<close>

lemma unat_pred_less:
  fixes n :: "'a::len word"
  shows "n \<noteq> 0 \<Longrightarrow> unat (n - 1) < unat n"
  by (simp add: unat_pred unat_gt_0)

function mouse_wait_loop :: "(u8 \<Rightarrow> bool) \<Rightarrow> u32 \<Rightarrow> 'p mouse \<Rightarrow> bool \<times> 'p mouse" where
  "mouse_wait_loop ready timeout st =
     (let timeout = timeout - 1
      in if timeout = 0 then (False, st)
         else let (status, st) = in_port 0x64 st
              in if ready status then (True, st) else mouse_wait_loop ready timeout st)"
  by pat_completeness auto
termination
  by (relation "measure (\<lambda>(ready, timeout, st). unat (timeout - 1))")
    (use unat_pred_less in fastforce)+

definition mouse_wait :: "u8 \<Rightarrow> 'p mouse \<Rightarrow> 'p mouse" where
  "mouse_wait a_type st =
     (let (seen, st) =
        (if a_type = 0 then mouse_wait_loop (\<lambda>s. s AND 0x01 = 1) 100000 st
         else mouse_wait_loop (\<lambda>s. s AND 0x02 = 0) 100000 st)
      in if seen then st else call (Debug_print INFO ''mouse timeout'') st)"

definition mouse_write :: "u8 \<Rightarrow> 'p mouse \<Rightarrow> 'p mouse" where
  "mouse_write b st =
     (let st = mouse_wait 1 st;
          st = out_port 0x64 0xD4 st;
          st = mouse_wait 1 st
      in out_port 0x60 b st)"

definition mouse_read :: "'p mouse \<Rightarrow> u8 \<times> 'p mouse" where
  "mouse_read st = in_port 0x60 (mouse_wait 0 st)"

section \<open>The interrupt handler\<close>

text \<open>The \<^verbatim>\<open>switch\<close>: whether it jumps to \<^verbatim>\<open>finish_packet\<close>.\<close>

definition take_byte :: "u8 \<Rightarrow> 'p mouse \<Rightarrow> bool \<times> 'p mouse" where
  "take_byte mouse_in st =
     (if mouse_cycle st = 0
      then let st = st\<lparr>mouse_byte := (mouse_byte st)[0 := mouse_in]\<rparr>
           in if mouse_in AND 0x08 = 0 then (False, st) else (False, st\<lparr>mouse_cycle := mouse_cycle st + 1\<rparr>)
      else if mouse_cycle st = 1
      then let st = st\<lparr>mouse_byte := (mouse_byte st)[1 := mouse_in]\<rparr>
           in (False, st\<lparr>mouse_cycle := mouse_cycle st + 1\<rparr>)
      else if mouse_cycle st = 2
      then let st = st\<lparr>mouse_byte := (mouse_byte st)[2 := mouse_in]\<rparr>
           in if mouse_mode st = 1 \<or> mouse_mode st = 2 then (False, st\<lparr>mouse_cycle := mouse_cycle st + 1\<rparr>)
              else (True, st)
      else if mouse_cycle st = 3
      then (True, st\<lparr>mouse_byte := (mouse_byte st)[3 := mouse_in]\<rparr>)
      else (False, st))"

definition decode_packet :: "'p mouse_lib \<Rightarrow> int \<Rightarrow> u8 list \<Rightarrow> mouse_packet" where
  "decode_packet lib mode bs =
     (let x = uint (bs ! 1);
          y = uint (bs ! 2);
          x = (if x \<noteq> 0 \<and> bs ! 0 AND 0x10 \<noteq> 0 then x - 0x100 else x);
          y = (if y \<noteq> 0 \<and> bs ! 0 AND 0x20 \<noteq> 0 then y - 0x100 else y);
          (x, y) = (if bs ! 0 AND 0x40 \<noteq> 0 \<or> bs ! 0 AND 0x80 \<noteq> 0 then (0, 0) else (x, y));
          b = (0 :: u32);
          b = (if bs ! 0 AND 0x01 \<noteq> 0 then b OR left_click lib else b);
          b = (if bs ! 0 AND 0x02 \<noteq> 0 then b OR right_click lib else b);
          b = (if bs ! 0 AND 0x04 \<noteq> 0 then b OR middle_click lib else b);
          b = (if mode = 1 \<and> bs ! 3 \<noteq> 0
               then if sint (bs ! 3) > 0 then b OR scroll_down lib
                    else if sint (bs ! 3) < 0 then b OR scroll_up lib else b
               else b)
      in \<lparr>magic = mouse_magic lib, x_difference = x, y_difference = y, buttons = b\<rparr>)"

text \<open>Old packets are thrown away; whether this ends is up to the pipe.\<close>

partial_function (option) discard :: "'p mouse_lib \<Rightarrow> 'p \<Rightarrow> 'p option" where
  "discard lib p =
     (if pipe_size lib p > int (32 * sizeof_packet lib)
      then discard lib (read_fs lib (sizeof_packet lib) p)
      else Some p)"

definition finish_packet :: "'p mouse_lib \<Rightarrow> 'p mouse \<Rightarrow> 'p mouse option" where
  "finish_packet lib st =
     (let st = st\<lparr>mouse_cycle := 0\<rparr>;
          packet = decode_packet lib (mouse_mode st) (mouse_byte st)
      in Option.bind (discard lib (mouse_pipe st)) (\<lambda>p.
           Some (st\<lparr>mouse_pipe := write_fs lib (sizeof_packet lib) packet p\<rparr>)))"

text \<open>
  Every path through the body of the \<^verbatim>\<open>while\<close> ends in a \<^verbatim>\<open>break\<close>, so it runs at most once.
\<close>

definition mouse_handler :: "'p mouse_lib \<Rightarrow> 'p mouse \<Rightarrow> (int \<times> 'p mouse) option" where
  "mouse_handler lib st =
     (let (status, st) = in_port 0x64 st
      in Option.bind
           (if status AND 0x01 \<noteq> 0 \<and> status AND 0x20 \<noteq> 0
            then case ps2_mouse_alternate st of
                Some f \<Rightarrow> Some (st\<lparr>menv := f (menv st)\<rparr>)
              | None \<Rightarrow>
                  let (mouse_in, st) = in_port 0x60 st;
                      (finish, st) = take_byte mouse_in st
                  in if finish then finish_packet lib st else Some st
            else Some st)
           (\<lambda>st. Some (1, call (Irq_ack 12) st)))"

definition ioctl_mouse :: "int \<Rightarrow> 'p mouse \<Rightarrow> int \<times> 'p mouse" where
  "ioctl_mouse request st = (if request = 1 then (0, st\<lparr>mouse_cycle := 0\<rparr>) else (- 1, st))"

section \<open>Installation\<close>

text \<open>Reading until the device has no byte left, which it may never say.\<close>

partial_function (option) drain :: "'p mouse \<Rightarrow> 'p mouse option" where
  "drain st =
     (let (status, st) = in_port 0x64 st
      in if status AND 1 \<noteq> 0 then let (b, st) = in_port 0x60 st in drain st else Some st)"

definition enable_scroll_wheel :: "'p mouse \<Rightarrow> 'p mouse" where
  "enable_scroll_wheel st =
     (let st = mouse_write 0xF2 st;
          (b, st) = mouse_read st;
          (result, st) = mouse_read st;
          st = mouse_write 0xF3 st;
          (b, st) = mouse_read st;
          st = mouse_write 200 st;
          (b, st) = mouse_read st;
          st = mouse_write 0xF3 st;
          (b, st) = mouse_read st;
          st = mouse_write 100 st;
          (b, st) = mouse_read st;
          st = mouse_write 0xF3 st;
          (b, st) = mouse_read st;
          st = mouse_write 80 st;
          (b, st) = mouse_read st;
          st = mouse_write 0xF2 st;
          (b, st) = mouse_read st;
          (result, st) = mouse_read st
      in if result = 3 then st\<lparr>mouse_mode := 1\<rparr> else st)"

text \<open>From the making of the pipe to the last byte before the second emptying.\<close>

definition configure_mouse :: "'p mouse_lib \<Rightarrow> 'p mouse \<Rightarrow> 'p mouse" where
  "configure_mouse lib st =
     (let st = st\<lparr>mouse_pipe := make_pipe lib (sizeof_packet lib * 1024)\<rparr>;
          st = mouse_wait 1 st;
          st = out_port 0x64 0xA8 st;
          (b, st) = mouse_read st;
          st = mouse_wait 1 st;
          st = out_port 0x64 0x20 st;
          st = mouse_wait 0 st;
          (status, st) = in_port 0x60 st;
          status = status OR 3;
          st = mouse_wait 1 st;
          st = out_port 0x64 0x60 st;
          st = mouse_wait 1 st;
          st = out_port 0x60 status st;
          st = mouse_write 0xF6 st;
          (b, st) = mouse_read st;
          st = mouse_write 0xF4 st;
          (b, st) = mouse_read st;
          st = (if args_present lib ''nomousescroll'' then st else enable_scroll_wheel st);
          st = mouse_wait 1 st;
          st = out_port 0x60 0xF0 st;
          st = mouse_wait 1 st;
          st = out_port 0x60 0x02 st;
          st = mouse_wait 1 st;
          (b, st) = mouse_read st;
          st = call (Irq_install_handler 12 ''ps2 mouse'') st;
          st = call Irq_res st;
          (tmp, st) = in_port 0x61 st;
          st = out_port 0x61 (tmp OR 0x80) st;
          st = out_port 0x61 (tmp AND 0x7F) st;
          (b, st) = in_port 0x60 st
      in st)"

definition mouse_install :: "'p mouse_lib \<Rightarrow> 'p mouse \<Rightarrow> (int \<times> 'p mouse) option" where
  "mouse_install lib st =
     (let st = call (Debug_print NOTICE ''Initializing PS/2 mouse interface'') st;
          st = call Irq_off st
      in Option.bind (drain st) (\<lambda>st. Option.bind (drain (configure_mouse lib st)) (\<lambda>st.
           let st = call Set_char_device st;
               st = call Set_ioctl st;
               st = call (Vfs_mount ''/dev/mouse'') st
           in Some (0, st))))"

definition mouse_uninstall :: "'p mouse \<Rightarrow> int \<times> 'p mouse" where
  "mouse_uninstall st = (0, st)"


section \<open>What the steps change\<close>

lemma call_simps [simp]:
  "mouse_cycle (call c st) = mouse_cycle st" "mouse_byte (call c st) = mouse_byte st"
  "mouse_mode (call c st) = mouse_mode st" "mouse_pipe (call c st) = mouse_pipe st"
  "ps2_mouse_alternate (call c st) = ps2_mouse_alternate st" "menv (call c st) = menv st"
  "mcalls (call c st) = mcalls st @ [c]"
  by (simp_all add: call_def)

lemma port_simps [simp]:
  "fst (in_port p st) = in_stream (menv st) p (in_count (menv st) p)"
  "mouse_cycle (snd (in_port p st)) = mouse_cycle st" "mouse_byte (snd (in_port p st)) = mouse_byte st"
  "mouse_mode (snd (in_port p st)) = mouse_mode st" "mouse_pipe (snd (in_port p st)) = mouse_pipe st"
  "ps2_mouse_alternate (snd (in_port p st)) = ps2_mouse_alternate st" "mcalls (snd (in_port p st)) = mcalls st"
  "menv (snd (in_port p st)) = snd (inportb p (menv st))"
  "mouse_cycle (out_port p b st) = mouse_cycle st" "mouse_byte (out_port p b st) = mouse_byte st"
  "mouse_mode (out_port p b st) = mouse_mode st" "mouse_pipe (out_port p b st) = mouse_pipe st"
  "ps2_mouse_alternate (out_port p b st) = ps2_mouse_alternate st" "mcalls (out_port p b st) = mcalls st"
  "menv (out_port p b st) = outportb p b (menv st)"
  by (simp_all add: in_port_def out_port_def inportb_def)

section \<open>Packets\<close>

text \<open>
  The specification of the handler: how many bytes make a packet, how a stream of bytes falls into
  packets, with the bytes of the next one that have arrived, and the bytes \<open>n\<close> interrupts bring.
\<close>

definition packet_length :: "int \<Rightarrow> nat" where
  "packet_length mode = (if mode = 1 \<or> mode = 2 then 4 else 3)"

fun frames :: "nat \<Rightarrow> u8 list \<Rightarrow> u8 list \<Rightarrow> u8 list list \<times> u8 list" where
  "frames n pend [] = ([], pend)"
| "frames n pend (b # bs) =
     (if pend = [] \<and> \<not> bit b 3 then frames n [] bs
      else if Suc (length pend) = n then apfst ((#) (pend @ [b])) (frames n [] bs)
      else frames n (pend @ [b]) bs)"

fun arrived :: "nat \<Rightarrow> env \<Rightarrow> u8 list" where
  "arrived 0 e = []"
| "arrived (Suc n) e =
     (let (status, e) = inportb 0x64 e
      in if bit status 0 \<and> bit status 5
         then let (b, e) = inportb 0x60 e in b # arrived n e
         else arrived n e)"

fun mouse_irqs :: "'p mouse_lib \<Rightarrow> nat \<Rightarrow> 'p mouse \<Rightarrow> 'p mouse option" where
  "mouse_irqs lib 0 st = Some st"
| "mouse_irqs lib (Suc n) st = Option.bind (mouse_handler lib st) (\<lambda>(r, st). mouse_irqs lib n st)"

definition mouse_wf :: "'p mouse \<Rightarrow> bool" where
  "mouse_wf st \<longleftrightarrow> length (mouse_byte st) = 4 \<and> unat (mouse_cycle st) < packet_length (mouse_mode st)"

definition pending :: "'p mouse \<Rightarrow> u8 list" where
  "pending st = take (unat (mouse_cycle st)) (mouse_byte st)"

text \<open>
  What the driver relies on in a pipe: it holds packets in order, tells the bytes it holds, gives
  up its oldest packet when one is read, and takes a packet when it holds less than
  \<^verbatim>\<open>PACKETS_IN_PIPE\<close>.
\<close>

definition pipe_contract :: "'p mouse_lib \<Rightarrow> ('p \<Rightarrow> mouse_packet list) \<Rightarrow> bool" where
  "pipe_contract lib contents \<longleftrightarrow> 0 < sizeof_packet lib \<and>
     (\<forall>p. pipe_size lib p = int (length (contents p) * sizeof_packet lib)) \<and>
     (\<forall>p. contents p \<noteq> [] \<longrightarrow> contents (read_fs lib (sizeof_packet lib) p) = tl (contents p)) \<and>
     (\<forall>p x. length (contents p) < 1024 \<longrightarrow>
        contents (write_fs lib (sizeof_packet lib) x p) = contents p @ [x])"

definition keep_last :: "nat \<Rightarrow> 'a list \<Rightarrow> 'a list" where
  "keep_last k xs = drop (length xs - k) xs"

lemma keep_last_append: "keep_last k (keep_last k xs @ ys) = keep_last k (xs @ ys)"
proof (cases "length xs \<le> k")
  case False
  then have "keep_last k (keep_last k xs @ ys) = drop (length ys) (drop (length xs - k) xs @ ys)"
    by (simp add: keep_last_def)
  also have "\<dots> = keep_last k (xs @ ys)"
    using False by (simp add: keep_last_def add.commute)
  finally show ?thesis .
qed (simp add: keep_last_def)

lemma keep_last_snoc: "keep_last k xs @ [x] = keep_last (Suc k) (xs @ [x])"
  by (simp add: keep_last_def)

lemma keep_last_short: "length xs \<le> k \<Longrightarrow> keep_last k xs = xs"
  by (simp add: keep_last_def)

lemma discard_keeps_last:
  assumes "pipe_contract lib contents"
  shows "\<exists>p'. discard lib p = Some p' \<and> contents p' = keep_last 32 (contents p)"
proof (induction "length (contents p)" arbitrary: p rule: less_induct)
  case less
  have more: "pipe_size lib p > int (32 * sizeof_packet lib) \<longleftrightarrow> 32 < length (contents p)"
    using assms by (simp add: pipe_contract_def flip: of_nat_mult)
  show ?case
  proof (cases "32 < length (contents p)")
    case True
    then obtain c cs where c: "contents p = c # cs" by (cases "contents p") auto
    have tl: "contents (read_fs lib (sizeof_packet lib) p) = cs"
      using assms c by (simp add: pipe_contract_def)
    from less [of "read_fs lib (sizeof_packet lib) p"] obtain p' where
      "discard lib (read_fs lib (sizeof_packet lib) p) = Some p'" "contents p' = keep_last 32 cs"
      by (auto simp: tl c)
    moreover have "length (contents p) - 32 = Suc (length cs - 32)" using True by (simp add: c)
    then have "keep_last 32 cs = keep_last 32 (contents p)" by (simp add: c keep_last_def)
    ultimately show ?thesis using True more by (subst discard.simps) simp
  next
    case False
    then show ?thesis using more by (subst discard.simps) (simp add: keep_last_short)
  qed
qed

lemma mask_bits:
  fixes b :: u8
  shows "(b AND 0x01 = 0) = (\<not> bit b 0)" "(b AND 0x08 = 0) = (\<not> bit b 3)"
    "(b AND 0x10 = 0) = (\<not> bit b 4)" "(b AND 0x20 = 0) = (\<not> bit b 5)"
    "(b AND 0x40 = 0) = (\<not> bit b 6)" "(b AND 0x80 = 0) = (\<not> bit b 7)"
  using and_exp_eq_0_iff_not_bit [of b 0] and_exp_eq_0_iff_not_bit [of b 3] and_exp_eq_0_iff_not_bit [of b 4]
    and_exp_eq_0_iff_not_bit [of b 5] and_exp_eq_0_iff_not_bit [of b 6] and_exp_eq_0_iff_not_bit [of b 7]
  by simp_all

lemma decode_packet_take:
  assumes "length bs = 4"
  shows "decode_packet lib mode (take (packet_length mode) bs) = decode_packet lib mode bs"
  using assms by (simp add: decode_packet_def packet_length_def)

lemma mouse_wf_cases:
  assumes "mouse_wf st"
  obtains (0) a b c d where "mouse_byte st = [a, b, c, d]" "mouse_cycle st = 0"
  | (1) a b c d where "mouse_byte st = [a, b, c, d]" "mouse_cycle st = 1"
  | (2) a b c d where "mouse_byte st = [a, b, c, d]" "mouse_cycle st = 2"
  | (3) a b c d where "mouse_byte st = [a, b, c, d]" "mouse_cycle st = 3" "mouse_mode st = 1 \<or> mouse_mode st = 2"
proof -
  from assms obtain a b c d where bs: "mouse_byte st = [a, b, c, d]"
    by (auto simp: mouse_wf_def numeral_eq_Suc length_Suc_conv)
  have less: "unat (mouse_cycle st) < (if mouse_mode st = 1 \<or> mouse_mode st = 2 then 4 else 3)"
    using assms by (simp add: mouse_wf_def packet_length_def)
  then have "unat (mouse_cycle st) < 4" by (simp split: if_splits)
  then consider "unat (mouse_cycle st) = 0" | "unat (mouse_cycle st) = 1" | "unat (mouse_cycle st) = 2"
    | "unat (mouse_cycle st) = 3"
    by linarith
  then show thesis
  proof cases
    case 4
    with less have "mouse_mode st = 1 \<or> mouse_mode st = 2" by (simp split: if_splits)
    moreover have "mouse_cycle st = 3" using 4 by (simp add: word_unat_eq_iff)
    ultimately show thesis using that(4) bs by blast
  qed (use that(1-3) bs in \<open>simp_all add: word_unat_eq_iff\<close>)
qed

lemmas take_byte_defs = take_byte_def mask_bits mouse_wf_def pending_def packet_length_def Let_def

text \<open>One byte: either the packet it completes, or the longer prefix of one.\<close>

lemma take_byte_frames:
  assumes "mouse_wf st"
  obtains (partial) st' where "take_byte x st = (False, st')" "mouse_wf st'"
    "st' = st\<lparr>mouse_cycle := mouse_cycle st', mouse_byte := mouse_byte st'\<rparr>"
    "\<And>bs. frames (packet_length (mouse_mode st)) (pending st) (x # bs) =
      frames (packet_length (mouse_mode st)) (pending st') bs"
  | (full) st' f where "take_byte x st = (True, st')" "length (mouse_byte st') = 4"
    "st' = st\<lparr>mouse_byte := mouse_byte st'\<rparr>" "f = take (packet_length (mouse_mode st)) (mouse_byte st')"
    "\<And>bs. frames (packet_length (mouse_mode st)) (pending st) (x # bs) =
      apfst ((#) f) (frames (packet_length (mouse_mode st)) [] bs)"
  using assms
proof (cases rule: mouse_wf_cases)
  case (0 a b c d)
  show thesis
  proof (cases "bit x 3")
    case True
    show thesis
      by (rule partial [where st' = "st\<lparr>mouse_cycle := 1, mouse_byte := [x, b, c, d]\<rparr>"])
        (simp_all add: True take_byte_defs 0)
  next
    case False
    show thesis
      by (rule partial [where st' = "st\<lparr>mouse_byte := [x, b, c, d]\<rparr>"]) (simp_all add: False take_byte_defs 0)
  qed
next
  case (1 a b c d)
  show thesis
    by (rule partial [where st' = "st\<lparr>mouse_cycle := 2, mouse_byte := [a, x, c, d]\<rparr>"])
      (simp_all add: take_byte_defs 1)
next
  case (2 a b c d)
  show thesis
  proof (cases "mouse_mode st = 1 \<or> mouse_mode st = 2")
    case True
    show thesis
      by (rule partial [where st' = "st\<lparr>mouse_cycle := 3, mouse_byte := [a, b, x, d]\<rparr>"])
        (use True in \<open>simp_all add: take_byte_defs 2\<close>)
  next
    case False
    show thesis
      by (rule full [where st' = "st\<lparr>mouse_byte := [a, b, x, d]\<rparr>" and f = "[a, b, x]"])
        (use False in \<open>simp_all add: take_byte_defs 2\<close>)
  qed
next
  case (3 a b c d)
  show thesis
    by (rule full [where st' = "st\<lparr>mouse_byte := [a, b, c, x]\<rparr>" and f = "[a, b, c, x]"])
      (use 3(3) in \<open>simp_all add: take_byte_defs 3(1,2)\<close>)
qed

text \<open>One interrupt.\<close>

lemma mouse_handler_frames:
  assumes "pipe_contract lib contents" "mouse_wf st" "ps2_mouse_alternate st = None"
    and "length (contents (mouse_pipe st)) \<le> 33"
  shows "\<exists>st' fs. mouse_handler lib st = Some (1, st') \<and> mouse_wf st' \<and> ps2_mouse_alternate st' = None \<and>
    mouse_mode st' = mouse_mode st \<and> mcalls st' = mcalls st @ [Irq_ack 12] \<and>
    contents (mouse_pipe st') =
      keep_last 33 (contents (mouse_pipe st) @ map (decode_packet lib (mouse_mode st)) fs) \<and>
    (\<forall>n. frames (packet_length (mouse_mode st)) (pending st) (arrived (Suc n) (menv st)) =
      apfst ((@) fs) (frames (packet_length (mouse_mode st)) (pending st') (arrived n (menv st'))))"
proof -
  let ?e = "menv st" and ?n = "packet_length (mouse_mode st)"
  define s where "s = in_stream ?e 0x64 (in_count ?e 0x64)"
  define b where "b = in_stream ?e 0x60 (in_count ?e 0x60)"
  define e1 where "e1 = snd (inportb 0x64 ?e)"
  define e2 where "e2 = snd (inportb 0x60 e1)"
  have s: "in_port 0x64 st = (s, st\<lparr>menv := e1\<rparr>)" "inportb 0x64 ?e = (s, e1)"
    by (simp_all add: in_port_def inportb_def s_def e1_def)
  have b: "in_port 0x60 (st\<lparr>menv := e1\<rparr>) = (b, st\<lparr>menv := e2\<rparr>)" "inportb 0x60 e1 = (b, e2)"
    by (simp_all add: in_port_def inportb_def b_def e1_def e2_def)
  have wf: "mouse_wf (st\<lparr>menv := e\<rparr>) = mouse_wf st" "pending (st\<lparr>menv := e\<rparr>) = pending st" for e
    by (simp_all add: mouse_wf_def pending_def)
  have call: "mouse_wf (call c st') = mouse_wf st'" "pending (call c st') = pending st'" for c and st' :: "'a mouse"
    by (simp_all add: mouse_wf_def pending_def)
  have nil: "apfst ((@) []) q = q" for q :: "u8 list list \<times> u8 list"
    by (cases q) simp
  show ?thesis
  proof (cases "bit s 0 \<and> bit s 5")
    case False
    then have "mouse_handler lib st = Some (1, call (Irq_ack 12) (st\<lparr>menv := e1\<rparr>))"
      by (auto simp: mouse_handler_def s mask_bits)
    then show ?thesis
      using assms False by (intro exI [of _ "call (Irq_ack 12) (st\<lparr>menv := e1\<rparr>)"] exI [of _ "[]"])
        (auto simp: call wf s keep_last_short nil)
  next
    case True
    have "mouse_wf (st\<lparr>menv := e2\<rparr>)" using assms(2) wf by simp
    then show ?thesis
    proof (cases rule: take_byte_frames [where x = b])
      case (partial st')
      have "mouse_handler lib st = Some (1, call (Irq_ack 12) st')"
        using True assms(3) partial(1) by (simp add: mouse_handler_def s b mask_bits)
      moreover have "ps2_mouse_alternate st' = None" "mouse_mode st' = mouse_mode st"
        "mcalls st' = mcalls st" "mouse_pipe st' = mouse_pipe st" "menv st' = e2"
        by (subst partial(3), simp add: assms(3))+
      ultimately show ?thesis
        using assms(4) True partial(2,4)
        by (intro exI [of _ "call (Irq_ack 12) st'"] exI [of _ "[]"])
          (simp add: call wf s b keep_last_short nil)
    next
      case (full st' f)
      obtain p where p: "discard lib (mouse_pipe st) = Some p" "contents p = keep_last 32 (contents (mouse_pipe st))"
        using discard_keeps_last [OF assms(1)] by blast
      define x where "x = decode_packet lib (mouse_mode st) (mouse_byte st')"
      define st'' where "st'' = call (Irq_ack 12)
        (st'\<lparr>mouse_cycle := 0, mouse_pipe := write_fs lib (sizeof_packet lib) x p\<rparr>)"
      have st': "ps2_mouse_alternate st' = None" "mouse_mode st' = mouse_mode st"
        "mcalls st' = mcalls st" "mouse_pipe st' = mouse_pipe st" "menv st' = e2"
        by (subst full(3), simp add: assms(3))+
      have run: "mouse_handler lib st = Some (1, st'')"
        using True assms(3) full(1) p(1) st'
        by (simp add: mouse_handler_def s b mask_bits finish_packet_def st''_def x_def)
      have "x = decode_packet lib (mouse_mode st) f"
        using full(2,4) by (simp add: x_def decode_packet_take)
      moreover have "contents (mouse_pipe st'') = keep_last 33 (contents (mouse_pipe st) @ [x])"
        using assms(1) p(2) by (simp add: st''_def pipe_contract_def keep_last_snoc keep_last_def)
      moreover have "mouse_wf st''" "pending st'' = []"
        using full(2) st'(2) by (simp_all add: st''_def mouse_wf_def packet_length_def pending_def)
      ultimately show ?thesis
        using True full(5) st' run
        by (intro exI [of _ st''] exI [of _ "[f]"]) (simp add: wf s b, simp add: st''_def)
    qed
  qed
qed

lemma mouse_irqs_frames:
  assumes "pipe_contract lib contents" "mouse_wf st" "ps2_mouse_alternate st = None"
    and "length (contents (mouse_pipe st)) \<le> 33"
    and "frames (packet_length (mouse_mode st)) (pending st) (arrived n (menv st)) = (fs, rest)"
  shows "\<exists>st'. mouse_irqs lib n st = Some st' \<and> mouse_wf st' \<and> pending st' = rest \<and>
    mcalls st' = mcalls st @ replicate n (Irq_ack 12) \<and>
    contents (mouse_pipe st') =
      keep_last 33 (contents (mouse_pipe st) @ map (decode_packet lib (mouse_mode st)) fs)"
  using assms(2-)
proof (induction n arbitrary: st fs)
  case 0
  then show ?case by (simp add: keep_last_short)
next
  case (Suc n)
  obtain st1 gs where st1: "mouse_handler lib st = Some (1, st1)" "mouse_wf st1" "ps2_mouse_alternate st1 = None"
    "mouse_mode st1 = mouse_mode st" "mcalls st1 = mcalls st @ [Irq_ack 12]"
    "contents (mouse_pipe st1) =
      keep_last 33 (contents (mouse_pipe st) @ map (decode_packet lib (mouse_mode st)) gs)"
    "frames (packet_length (mouse_mode st)) (pending st) (arrived (Suc n) (menv st)) =
      apfst ((@) gs) (frames (packet_length (mouse_mode st)) (pending st1) (arrived n (menv st1)))"
    using mouse_handler_frames [OF assms(1) Suc.prems(1-3)] by (elim exE conjE) (rule that, auto)
  obtain hs where hs: "frames (packet_length (mouse_mode st1)) (pending st1) (arrived n (menv st1)) = (hs, rest)"
    "fs = gs @ hs"
    using Suc.prems(4) unfolding st1(7) st1(4)
    by (cases "frames (packet_length (mouse_mode st)) (pending st1) (arrived n (menv st1))") simp
  have "length (contents (mouse_pipe st1)) \<le> 33" by (simp add: st1(6) keep_last_def)
  from Suc.IH [OF st1(2,3) this hs(1)] show ?case
    by (auto simp: st1(1,4,5,6) hs(2) keep_last_append)
qed

lemma sint_9:
  "sint (w :: 9 word) = (if uint w < 256 then uint w else uint w - 512)"
proof -
  have "sint w = signed_take_bit 8 (uint w)" by (simp add: sint_uint)
  also have "\<dots> = take_bit 9 (uint w + 256) - 256" by (simp add: signed_take_bit_eq_take_bit_shift)
  also have "\<dots> = (uint w + 256) mod 512 - 256" by (simp add: take_bit_eq_mod)
  also have "\<dots> = (if uint w < 256 then uint w else uint w - 512)"
    using uint_lt2p [of w] uint_ge_0 [of w] minus_mod_self2 [of "uint w + 256" 512] by auto
  finally show ?thesis .
qed

lemma uint_less_256: "uint (b :: u8) < 256"
  using uint_lt2p [of b] by simp

lemma uint_sign_byte:
  "uint (word_cat (of_bool s :: 1 word) (b :: u8) :: 9 word) = (if s then 256 else 0) + uint b"
  using uint_less_256 [of b] uint_ge_0 [of b]
  by (auto simp: word_cat_eq' concat_bit_eq uint_word_of_int take_bit_int_eq_self uint_word_ariths unsigned_ucast_eq)

lemma signed_byte:
  "(if uint b \<noteq> 0 \<and> s then uint b - 256 else uint b) =
    (if b = 0 then 0 else sint (word_cat (of_bool s :: 1 word) (b :: u8) :: 9 word))"
  using uint_less_256 [of b] uint_ge_0 [of b]
  by (auto simp: sint_9 uint_sign_byte uint_0_iff)

lemma signed_byte_bound: "\<bar>if uint (b :: u8) \<noteq> 0 \<and> s then uint b - 256 else uint b\<bar> \<le> 255"
proof -
  have "\<bar>if u \<noteq> 0 \<and> s then u - 256 else u\<bar> \<le> 255" if "0 \<le> u" "u < 256" for u :: int
    using that by auto
  then show ?thesis using uint_less_256 uint_ge_0 by blast
qed

section \<open>What installing does\<close>

text \<open>All calls except the complaints about a device that does not answer.\<close>

definition effects :: "'p mouse \<Rightarrow> mouse_call list" where
  "effects st = filter (\<lambda>c. c \<noteq> Debug_print INFO ''mouse timeout'') (mcalls st)"

lemma effects_simps [simp]:
  "effects (call c st) = effects st @ (if c = Debug_print INFO ''mouse timeout'' then [] else [c])"
  "effects (snd (in_port p st)) = effects st" "effects (out_port p b st) = effects st"
  "effects (st\<lparr>mouse_mode := mode\<rparr>) = effects st" "effects (st\<lparr>mouse_pipe := q\<rparr>) = effects st"
  by (simp_all add: effects_def)

declare mouse_wait_loop.simps [simp del]

definition after_reads :: "u16 \<Rightarrow> nat \<Rightarrow> 'p mouse \<Rightarrow> 'p mouse" where
  "after_reads p k st =
     st\<lparr>menv := (menv st)\<lparr>in_count := (in_count (menv st))(p := in_count (menv st) p + k)\<rparr>\<rparr>"

lemma after_reads_simps [simp]:
  "after_reads p 0 st = st" "after_reads p j (after_reads p k st) = after_reads p (k + j) st"
  by (simp_all add: after_reads_def add.assoc)

lemma in_port_eq: "in_port p st = (in_stream (menv st) p (in_count (menv st) p), after_reads p 1 st)"
  by (simp add: after_reads_def in_port_def inportb_def)

lemma mouse_wait_loop_frame: "\<exists>k. snd (mouse_wait_loop ready t st) = after_reads 0x64 k st"
proof (induction ready t st rule: mouse_wait_loop.induct)
  case (1 ready t st)
  define s where "s = fst (in_port 0x64 st)"
  have s: "(s, after_reads 0x64 1 st) = in_port 0x64 st" by (simp add: s_def in_port_eq)
  have run: "snd (mouse_wait_loop ready t st) =
      (if t - 1 = 0 then st else if ready s then after_reads 0x64 1 st
       else snd (mouse_wait_loop ready (t - 1) (after_reads 0x64 1 st)))"
    by (subst mouse_wait_loop.simps) (simp only: Let_def s [symmetric] split_conv if_distrib [of snd] snd_conv)
  show ?case
  proof (cases "t - 1 = 0 \<or> ready s")
    case True
    then show ?thesis unfolding run by (metis after_reads_simps(1))
  next
    case False
    with "1.IH" [OF refl _ s refl] show ?thesis unfolding run by auto
  qed
qed

lemma mouse_wait_frame:
  "\<exists>k l. mouse_wait a st = (after_reads 0x64 k st)\<lparr>mcalls := mcalls st @ l\<rparr> \<and>
    set l \<subseteq> {Debug_print INFO ''mouse timeout''}"
proof -
  obtain ready where *: "mouse_wait a st =
    (let (seen, st) = mouse_wait_loop ready 100000 st
     in if seen then st else call (Debug_print INFO ''mouse timeout'') st)"
    by (cases "a = 0") (simp_all add: mouse_wait_def)
  obtain seen st1 where st1: "mouse_wait_loop ready 100000 st = (seen, st1)" by fastforce
  with mouse_wait_loop_frame [of ready 100000 st] obtain k where k:
    "st1 = after_reads 0x64 k st"
    by auto
  define l where "l = (if seen then [] else [Debug_print INFO ''mouse timeout''])"
  have "mouse_wait a st = st1\<lparr>mcalls := mcalls st @ l\<rparr>"
    unfolding * st1 l_def by (simp add: k call_def after_reads_def)
  moreover have "set l \<subseteq> {Debug_print INFO ''mouse timeout''}" by (simp add: l_def)
  ultimately show ?thesis unfolding k by (intro exI [of _ k] exI [of _ l]) simp
qed

lemma mouse_wait_simps [simp]:
  "mouse_cycle (mouse_wait a st) = mouse_cycle st" "mouse_byte (mouse_wait a st) = mouse_byte st"
  "mouse_mode (mouse_wait a st) = mouse_mode st" "mouse_pipe (mouse_wait a st) = mouse_pipe st"
  "ps2_mouse_alternate (mouse_wait a st) = ps2_mouse_alternate st" "effects (mouse_wait a st) = effects st"
  "outs (menv (mouse_wait a st)) = outs (menv st)" "in_stream (menv (mouse_wait a st)) = in_stream (menv st)"
  "p \<noteq> 0x64 \<Longrightarrow> in_count (menv (mouse_wait a st)) p = in_count (menv st) p"
proof -
  obtain k l where *: "mouse_wait a st = (after_reads 0x64 k st)\<lparr>mcalls := mcalls st @ l\<rparr>"
    "set l \<subseteq> {Debug_print INFO ''mouse timeout''}"
    using mouse_wait_frame by blast
  have "filter (\<lambda>c. c \<noteq> Debug_print INFO ''mouse timeout'') l = []"
    using *(2) by (auto simp: filter_empty_conv)
  then show "mouse_cycle (mouse_wait a st) = mouse_cycle st" "mouse_byte (mouse_wait a st) = mouse_byte st"
    "mouse_mode (mouse_wait a st) = mouse_mode st" "mouse_pipe (mouse_wait a st) = mouse_pipe st"
    "ps2_mouse_alternate (mouse_wait a st) = ps2_mouse_alternate st" "effects (mouse_wait a st) = effects st"
    "outs (menv (mouse_wait a st)) = outs (menv st)" "in_stream (menv (mouse_wait a st)) = in_stream (menv st)"
    "p \<noteq> 0x64 \<Longrightarrow> in_count (menv (mouse_wait a st)) p = in_count (menv st) p"
    unfolding *(1) by (simp_all add: effects_def after_reads_def)
qed

definition command_writes :: "u8 \<Rightarrow> io_event list" where
  "command_writes b = [OutB 0x64 0xD4, OutB 0x60 b]"

lemma mouse_write_simps [simp]:
  "mouse_cycle (mouse_write b st) = mouse_cycle st" "mouse_byte (mouse_write b st) = mouse_byte st"
  "mouse_mode (mouse_write b st) = mouse_mode st" "mouse_pipe (mouse_write b st) = mouse_pipe st"
  "ps2_mouse_alternate (mouse_write b st) = ps2_mouse_alternate st" "effects (mouse_write b st) = effects st"
  "outs (menv (mouse_write b st)) = outs (menv st) @ command_writes b"
  "in_stream (menv (mouse_write b st)) = in_stream (menv st)"
  "p \<noteq> 0x64 \<Longrightarrow> in_count (menv (mouse_write b st)) p = in_count (menv st) p"
  by (simp_all add: mouse_write_def command_writes_def Let_def)

lemma mouse_read_simps [simp]:
  "fst (mouse_read st) = in_stream (menv st) 0x60 (in_count (menv st) 0x60)"
  "mouse_cycle (snd (mouse_read st)) = mouse_cycle st" "mouse_byte (snd (mouse_read st)) = mouse_byte st"
  "mouse_mode (snd (mouse_read st)) = mouse_mode st" "mouse_pipe (snd (mouse_read st)) = mouse_pipe st"
  "ps2_mouse_alternate (snd (mouse_read st)) = ps2_mouse_alternate st" "effects (snd (mouse_read st)) = effects st"
  "outs (menv (snd (mouse_read st))) = outs (menv st)"
  "in_stream (menv (snd (mouse_read st))) = in_stream (menv st)"
  "in_count (menv (snd (mouse_read st))) 0x60 = Suc (in_count (menv st) 0x60)"
  "in_count (menv (snd (mouse_read st))) 0x61 = in_count (menv st) 0x61"
  by (simp_all add: mouse_read_def)

lemma Suc_9: "n + 9 = Suc (Suc (Suc (Suc (Suc (Suc (Suc (Suc (Suc n))))))))"
  by simp

lemma enable_scroll_wheel_simps [simp]:
  "mouse_cycle (enable_scroll_wheel st) = mouse_cycle st" "mouse_byte (enable_scroll_wheel st) = mouse_byte st"
  "mouse_pipe (enable_scroll_wheel st) = mouse_pipe st" "effects (enable_scroll_wheel st) = effects st"
  "ps2_mouse_alternate (enable_scroll_wheel st) = ps2_mouse_alternate st"
  "outs (menv (enable_scroll_wheel st)) =
    outs (menv st) @ concat (map command_writes [0xF2, 0xF3, 200, 0xF3, 100, 0xF3, 80, 0xF2])"
  "in_stream (menv (enable_scroll_wheel st)) = in_stream (menv st)"
  "in_count (menv (enable_scroll_wheel st)) 0x60 = in_count (menv st) 0x60 + 10"
  "in_count (menv (enable_scroll_wheel st)) 0x61 = in_count (menv st) 0x61"
  "mouse_mode (enable_scroll_wheel st) =
    (if in_stream (menv st) 0x60 (in_count (menv st) 0x60 + 9) = 3 then 1 else mouse_mode st)"
  by (simp_all add: enable_scroll_wheel_def Let_def split_beta Suc_9)

text \<open>Emptying the device.\<close>

lemma drain_returns:
  assumes "\<forall>i<n. bit (in_stream (menv st) 0x64 (in_count (menv st) 0x64 + i)) 0"
    and "\<not> bit (in_stream (menv st) 0x64 (in_count (menv st) 0x64 + n)) 0"
  shows "drain st = Some (after_reads 0x60 n (after_reads 0x64 (Suc n) st))"
  using assms
proof (induction n arbitrary: st)
  case 0
  then show ?case
    by (subst drain.simps) (simp add: mask_bits in_port_eq)
next
  case (Suc n)
  define st1 where "st1 = after_reads 0x60 1 (after_reads 0x64 1 st)"
  have "bit (in_stream (menv st) 0x64 (in_count (menv st) 0x64)) 0"
    using Suc.prems(1) [rule_format, of 0] by simp
  then have "drain st = drain st1"
    by (subst drain.simps) (simp add: st1_def mask_bits in_port_eq)
  moreover have "\<forall>i<n. bit (in_stream (menv st1) 0x64 (in_count (menv st1) 0x64 + i)) 0"
    using Suc.prems(1) by (auto simp: st1_def after_reads_def)
  moreover have "\<not> bit (in_stream (menv st1) 0x64 (in_count (menv st1) 0x64 + n)) 0"
    using Suc.prems(2) by (simp add: st1_def after_reads_def)
  ultimately show ?case using Suc.IH [of st1] by (simp add: st1_def after_reads_def fun_upd_twist)
qed

lemma after_reads_frame [simp]:
  "mouse_cycle (after_reads p k st) = mouse_cycle st" "mouse_byte (after_reads p k st) = mouse_byte st"
  "mouse_mode (after_reads p k st) = mouse_mode st" "mouse_pipe (after_reads p k st) = mouse_pipe st"
  "ps2_mouse_alternate (after_reads p k st) = ps2_mouse_alternate st" "effects (after_reads p k st) = effects st"
  "outs (menv (after_reads p k st)) = outs (menv st)"
  "in_stream (menv (after_reads p k st)) = in_stream (menv st)"
  "in_count (menv (after_reads p k st)) p' =
    (if p' = p then in_count (menv st) p + k else in_count (menv st) p')"
  by (simp_all add: after_reads_def effects_def)

text \<open>The last loop needs a device that falls silent again, however often it was read.\<close>

lemma drain_again:
  assumes "\<forall>k. \<exists>i\<ge>k. \<not> bit (in_stream (menv st) 0x64 i) 0"
  shows "\<exists>n. drain st = Some (after_reads 0x60 n (after_reads 0x64 (Suc n) st)) \<and>
    (\<forall>i<n. bit (in_stream (menv st) 0x64 (in_count (menv st) 0x64 + i)) 0) \<and>
    \<not> bit (in_stream (menv st) 0x64 (in_count (menv st) 0x64 + n)) 0"
proof -
  define quiet where "quiet = (\<lambda>i. \<not> bit (in_stream (menv st) 0x64 (in_count (menv st) 0x64 + i)) 0)"
  from assms obtain i where "in_count (menv st) 0x64 \<le> i" "\<not> bit (in_stream (menv st) 0x64 i) 0" by blast
  then have "quiet (i - in_count (menv st) 0x64)" by (simp add: quiet_def)
  then have "quiet (Least quiet)" by (rule LeastI)
  moreover have "\<not> quiet i" if "i < Least quiet" for i using that by (rule not_less_Least)
  ultimately show ?thesis
    using drain_returns [of "Least quiet" st] by (auto simp: quiet_def)
qed

text \<open>What the driver writes, by the configuration byte it read and the value of port \<open>0x61\<close>.\<close>

definition install_writes :: "u8 \<Rightarrow> u8 \<Rightarrow> bool \<Rightarrow> io_event list" where
  "install_writes config tmp scroll =
     [OutB 0x64 0xA8, OutB 0x64 0x20, OutB 0x64 0x60, OutB 0x60 (config OR 3)] @
     concat (map command_writes
       ([0xF6, 0xF4] @ (if scroll then [0xF2, 0xF3, 200, 0xF3, 100, 0xF3, 80, 0xF2] else []))) @
     [OutB 0x60 0xF0, OutB 0x60 0x02, OutB 0x61 (tmp OR 0x80), OutB 0x61 (tmp AND 0x7F)]"

lemma configure_mouse_simps:
  "mouse_cycle (configure_mouse lib st) = mouse_cycle st" "mouse_byte (configure_mouse lib st) = mouse_byte st"
  "ps2_mouse_alternate (configure_mouse lib st) = ps2_mouse_alternate st"
  "mouse_pipe (configure_mouse lib st) = make_pipe lib (sizeof_packet lib * 1024)"
  "effects (configure_mouse lib st) = effects st @ [Irq_install_handler 12 ''ps2 mouse'', Irq_res]"
  "in_stream (menv (configure_mouse lib st)) = in_stream (menv st)"
  by (simp_all add: configure_mouse_def Let_def split_beta)

lemma configure_mouse_outs:
  "outs (menv (configure_mouse lib st)) = outs (menv st) @
    install_writes (in_stream (menv st) 0x60 (in_count (menv st) 0x60 + 1))
      (in_stream (menv st) 0x61 (in_count (menv st) 0x61)) (\<not> args_present lib ''nomousescroll'')"
  by (simp add: configure_mouse_def install_writes_def Let_def split_beta)

lemma configure_mouse_mode:
  "mouse_mode (configure_mouse lib st) =
    (if \<not> args_present lib ''nomousescroll'' \<and> in_stream (menv st) 0x60 (in_count (menv st) 0x60 + 13) = 3
     then 1 else mouse_mode st)"
  by (simp add: configure_mouse_def Let_def split_beta add.commute [of 13])

lemma install_runs:
  assumes "\<forall>k. \<exists>i\<ge>k. \<not> bit (in_stream (menv st) 0x64 i) 0"
    and "in_stream (menv st) 0x60 = data" "in_count (menv st) 0x60 = c"
    and "in_stream (menv st) 0x61 (in_count (menv st) 0x61) = tmp"
    and "scroll \<longleftrightarrow> \<not> args_present lib ''nomousescroll''"
  shows "\<exists>n st'. mouse_install lib st = Some (0, st') \<and>
    (\<forall>i<n. bit (in_stream (menv st) 0x64 (in_count (menv st) 0x64 + i)) 0) \<and>
    \<not> bit (in_stream (menv st) 0x64 (in_count (menv st) 0x64 + n)) 0 \<and>
    outs (menv st') = outs (menv st) @ install_writes (data (c + n + 1)) tmp scroll \<and>
    mouse_mode st' = (if scroll \<and> data (c + n + 13) = 3 then 1 else mouse_mode st) \<and>
    mouse_pipe st' = make_pipe lib (sizeof_packet lib * 1024) \<and>
    mouse_cycle st' = mouse_cycle st \<and> mouse_byte st' = mouse_byte st \<and>
    ps2_mouse_alternate st' = ps2_mouse_alternate st \<and>
    effects st' = effects st @
      [Debug_print NOTICE ''Initializing PS/2 mouse interface'', Irq_off,
       Irq_install_handler 12 ''ps2 mouse'', Irq_res, Set_char_device, Set_ioctl, Vfs_mount ''/dev/mouse'']"
proof -
  define st0 where "st0 = call Irq_off (call (Debug_print NOTICE ''Initializing PS/2 mouse interface'') st)"
  from drain_again [of st0] assms(1) obtain n where n:
    "drain st0 = Some (after_reads 0x60 n (after_reads 0x64 (Suc n) st0))"
    "\<forall>i<n. bit (in_stream (menv st) 0x64 (in_count (menv st) 0x64 + i)) 0"
    "\<not> bit (in_stream (menv st) 0x64 (in_count (menv st) 0x64 + n)) 0"
    by (auto simp: st0_def)
  define st1 where "st1 = configure_mouse lib (after_reads 0x60 n (after_reads 0x64 (Suc n) st0))"
  have "in_stream (menv st1) = in_stream (menv st)" by (simp add: st1_def configure_mouse_simps st0_def)
  with drain_again [of st1] assms(1) obtain m where
    m: "drain st1 = Some (after_reads 0x60 m (after_reads 0x64 (Suc m) st1))" by auto
  define st2 where "st2 = call (Vfs_mount ''/dev/mouse'') (call Set_ioctl (call Set_char_device
    (after_reads 0x60 m (after_reads 0x64 (Suc m) st1))))"
  have "mouse_install lib st = Some (0, st2)"
    using n(1) m by (simp add: mouse_install_def st0_def st1_def st2_def)
  then show ?thesis
    using n(2,3) assms(2-5)
    by (intro exI [of _ n] exI [of _ st2])
      (simp add: st2_def st1_def st0_def configure_mouse_simps configure_mouse_outs configure_mouse_mode
        effects_def [of st, symmetric])
qed

section \<open>Properties\<close>

text \<open>
  C16. However the device splits its stream, \<open>n\<close> interrupts return and leave in the pipe the last 33 of what was
  there and the packets the arrived bytes fall into, decoded and in order; a byte that cannot start a packet is
  dropped between packets, an unfinished packet stays pending, and every interrupt is acknowledged once.
\<close>
theorem mouse_irqs_deliver_packets:
  assumes "pipe_contract lib contents" "mouse_wf st" "ps2_mouse_alternate st = None"
    and "length (contents (mouse_pipe st)) \<le> 33"
    and "frames (packet_length (mouse_mode st)) (pending st) (arrived n (menv st)) = (fs, rest)"
  shows "\<exists>st'. mouse_irqs lib n st = Some st' \<and> mouse_wf st' \<and> pending st' = rest \<and>
    mcalls st' = mcalls st @ replicate n (Irq_ack 12) \<and>
    contents (mouse_pipe st') =
      keep_last 33 (contents (mouse_pipe st) @ map (decode_packet lib (mouse_mode st)) fs)"
  using assms by (rule mouse_irqs_frames)

text \<open>A pipe that is a list of packets of 12 bytes.\<close>

definition list_pipe :: "mouse_packet list mouse_lib" where
  "list_pipe = \<lparr>make_pipe = (\<lambda>_. []), null_pipe = [], pipe_size = (\<lambda>p. int (length p * 12)),
     read_fs = (\<lambda>_ p. tl p), write_fs = (\<lambda>_ x p. p @ [x]), sizeof_packet = 12, mouse_magic = 0xFEED,
     left_click = 1, right_click = 2, middle_click = 4, scroll_up = 16, scroll_down = 32,
     args_present = (\<lambda>_. False)\<rparr>"

definition mouse_bytes :: "u8 list \<Rightarrow> u8 \<Rightarrow> env" where
  "mouse_bytes bs status = \<lparr>in_stream = (\<lambda>p n. if p = 0x64 then status else if n < length bs then bs ! n else 0),
     in_count = (\<lambda>_. 0), outs = [], klog = []\<rparr>"

theorem mouse_irqs_deliver_packets_witness:
  "\<exists>st'. mouse_irqs list_pipe 7 (mouse_initial list_pipe (mouse_bytes [9, 5, 3, 0, 0x38, 255, 254] 0x21)) = Some st' \<and>
    pending st' = [] \<and> mouse_pipe st' =
      [\<lparr>magic = 0xFEED, x_difference = 5, y_difference = 3, buttons = 1\<rparr>,
       \<lparr>magic = 0xFEED, x_difference = - 1, y_difference = - 2, buttons = 0\<rparr>]"
proof -
  let ?st = "mouse_initial list_pipe (mouse_bytes [9, 5, 3, 0, 0x38, 255, 254] 0x21)"
  have "pipe_contract list_pipe id"
    by (simp add: pipe_contract_def list_pipe_def)
  moreover have "mouse_wf ?st" "ps2_mouse_alternate ?st = None" "length (id (mouse_pipe ?st)) \<le> 33"
    by (simp_all add: mouse_initial_def mouse_wf_def packet_length_def list_pipe_def)
  moreover have "arrived (Suc (Suc (Suc (Suc (Suc (Suc (Suc 0))))))) (menv ?st) = [9, 5, 3, 0, 0x38, 255, 254]"
    by (simp add: mouse_initial_def mouse_bytes_def inportb_def)
  then have "arrived 7 (menv ?st) = [9, 5, 3, 0, 0x38, 255, 254]"
    by (simp add: eval_nat_numeral)
  then have "frames (packet_length (mouse_mode ?st)) (pending ?st) (arrived 7 (menv ?st)) =
      ([[9, 5, 3], [0x38, 255, 254]], [])"
    by (simp add: mouse_initial_def packet_length_def pending_def)
  ultimately have "\<exists>st'. mouse_irqs list_pipe 7 ?st = Some st' \<and> mouse_wf st' \<and> pending st' = [] \<and>
    mcalls st' = mcalls ?st @ replicate 7 (Irq_ack 12) \<and>
    id (mouse_pipe st') =
      keep_last 33 (id (mouse_pipe ?st) @ map (decode_packet list_pipe (mouse_mode ?st)) [[9, 5, 3], [0x38, 255, 254]])"
    by (rule mouse_irqs_deliver_packets)
  then show ?thesis
    by (auto simp: keep_last_def mouse_initial_def list_pipe_def decode_packet_def)
qed

text \<open>
  C23. The movement in a packet is the nine-bit two's complement number made of the sign bit of the first byte and the
  byte of the axis, except that it is 0 when the device reports an overflow, and that \<open>- 256\<close>, whose byte
  is zero, comes out as 0 as well; so it is within 255 of 0.
\<close>
theorem mouse_packet_twos_complement:
  "x_difference (decode_packet lib mode bs) =
      (if bit (bs ! 0) 6 \<or> bit (bs ! 0) 7 \<or> bs ! 1 = 0 then 0
       else sint (word_cat (of_bool (bit (bs ! 0) 4) :: 1 word) (bs ! 1) :: 9 word)) \<and>
    y_difference (decode_packet lib mode bs) =
      (if bit (bs ! 0) 6 \<or> bit (bs ! 0) 7 \<or> bs ! 2 = 0 then 0
       else sint (word_cat (of_bool (bit (bs ! 0) 5) :: 1 word) (bs ! 2) :: 9 word)) \<and>
    \<bar>x_difference (decode_packet lib mode bs)\<bar> \<le> 255 \<and> \<bar>y_difference (decode_packet lib mode bs)\<bar> \<le> 255"
proof -
  have dec: "x_difference (decode_packet lib mode bs) = (if bit (bs ! 0) 6 \<or> bit (bs ! 0) 7 then 0
      else if uint (bs ! 1) \<noteq> 0 \<and> bit (bs ! 0) 4 then uint (bs ! 1) - 256 else uint (bs ! 1))"
    "y_difference (decode_packet lib mode bs) = (if bit (bs ! 0) 6 \<or> bit (bs ! 0) 7 then 0
      else if uint (bs ! 2) \<noteq> 0 \<and> bit (bs ! 0) 5 then uint (bs ! 2) - 256 else uint (bs ! 2))"
    by (simp_all add: decode_packet_def Let_def mask_bits split del: if_split)
      (simp_all split: if_split)
  have "\<bar>x_difference (decode_packet lib mode bs)\<bar> \<le> 255" "\<bar>y_difference (decode_packet lib mode bs)\<bar> \<le> 255"
    using signed_byte_bound [of "bs ! 1"] signed_byte_bound [of "bs ! 2"] unfolding dec by auto
  then show ?thesis unfolding dec signed_byte by simp
qed

text \<open>
  C22. If the device is never busy for good, installing returns: whatever time-outs occur, the driver sends
  exactly these bytes, with the configuration byte read back after the stale ones, is left in the wheel mode just when
  the identification byte is 3, and registers its handler while the line is off.
\<close>
theorem mouse_install_programs_device:
  assumes "\<forall>k. \<exists>i\<ge>k. \<not> bit (in_stream (menv st) 0x64 i) 0"
    and "in_stream (menv st) 0x60 = data" "in_count (menv st) 0x60 = c"
    and "in_stream (menv st) 0x61 (in_count (menv st) 0x61) = tmp"
    and "scroll \<longleftrightarrow> \<not> args_present lib ''nomousescroll''"
  shows "\<exists>n st'. mouse_install lib st = Some (0, st') \<and>
    (\<forall>i<n. bit (in_stream (menv st) 0x64 (in_count (menv st) 0x64 + i)) 0) \<and>
    \<not> bit (in_stream (menv st) 0x64 (in_count (menv st) 0x64 + n)) 0 \<and>
    outs (menv st') = outs (menv st) @ install_writes (data (c + n + 1)) tmp scroll \<and>
    mouse_mode st' = (if scroll \<and> data (c + n + 13) = 3 then 1 else mouse_mode st) \<and>
    mouse_pipe st' = make_pipe lib (sizeof_packet lib * 1024) \<and>
    mouse_cycle st' = mouse_cycle st \<and> mouse_byte st' = mouse_byte st \<and>
    ps2_mouse_alternate st' = ps2_mouse_alternate st \<and>
    effects st' = effects st @
      [Debug_print NOTICE ''Initializing PS/2 mouse interface'', Irq_off,
       Irq_install_handler 12 ''ps2 mouse'', Irq_res, Set_char_device, Set_ioctl, Vfs_mount ''/dev/mouse'']"
  using assms by (rule install_runs)

text \<open>A device with two stale bytes that identifies itself as a wheel mouse.\<close>

definition wheel_env :: env where
  "wheel_env = \<lparr>in_stream = (\<lambda>p n. if p = 0x64 then if n < 2 then 1 else 0
       else if p = 0x61 then 0x30 else if n = 15 then 3 else 0x44),
     in_count = (\<lambda>_. 0), outs = [], klog = []\<rparr>"

theorem mouse_install_programs_device_witness:
  "\<exists>st'. mouse_install list_pipe (mouse_initial list_pipe wheel_env) = Some (0, st') \<and> mouse_mode st' = 1 \<and>
    outs (menv st') = install_writes 0x44 0x30 True"
proof -
  let ?st = "mouse_initial list_pipe wheel_env"
  have "\<forall>k. \<exists>i\<ge>k. \<not> bit (in_stream (menv ?st) 0x64 i) 0"
    by (simp add: mouse_initial_def wheel_env_def) (metis le_add1 le_add2 not_le)
  from mouse_install_programs_device [OF this refl refl refl refl, of list_pipe] obtain n st' where
    *: "mouse_install list_pipe ?st = Some (0, st')"
    "\<forall>i<n. bit (in_stream (menv ?st) 0x64 (in_count (menv ?st) 0x64 + i)) 0"
    "\<not> bit (in_stream (menv ?st) 0x64 (in_count (menv ?st) 0x64 + n)) 0"
    "outs (menv st') = outs (menv ?st) @ install_writes (in_stream (menv ?st) 0x60 (in_count (menv ?st) 0x60 + n + 1))
      (in_stream (menv ?st) 0x61 (in_count (menv ?st) 0x61)) (\<not> args_present list_pipe ''nomousescroll'')"
    "mouse_mode st' = (if \<not> args_present list_pipe ''nomousescroll'' \<and>
      in_stream (menv ?st) 0x60 (in_count (menv ?st) 0x60 + n + 13) = 3 then 1 else mouse_mode ?st)"
    by (elim exE conjE) (rule that)
  have "\<not> bit (if n < 2 then 1 else 0 :: u8) 0" using *(3) by (simp add: mouse_initial_def wheel_env_def)
  moreover have False if "2 < n"
    using *(2) [rule_format, OF that] by (simp add: mouse_initial_def wheel_env_def)
  ultimately have "n = 2" by (cases n "2 :: nat" rule: linorder_cases) auto
  then show ?thesis
    using *(1,4,5) by (simp add: mouse_initial_def wheel_env_def list_pipe_def)
qed

end
