(* ===== verification/Spec2Isabelle.thy ===== *)
theory Spec2Isabelle
  imports Clib Loader Heap_Grow Heap_Clients Mouse
begin

text \<open>
  GekonOS: a 32-bit teaching kernel in C, modelled from \<^verbatim>\<open>src/kernel\<close> and \<^verbatim>\<open>src/libc\<close>.

  How the program is put together. \<^verbatim>\<open>kmain\<close> (\<^verbatim>\<open>kernel.c\<close>) clears the text screen, loads
  the segment and interrupt tables, starts paging, makes the kernel heap, starts the timer and the
  keyboard, and runs the shell for good. The keyboard interrupt fills a ring buffer that the
  shell's loop drains; a command can start the window system, which draws into the frame buffer.
  Every part prints through \<^verbatim>\<open>kprintf\<close>.

  Theories, in the order of their imports:
  \<^item> \<open>Prelude\<close>: C integer types as words, results (\<open>fault + 'a\<close>), the byte-addressed memory with
    its 32-bit accesses, and shared lemmas (collections \<open>res_simps\<close>, \<open>mem_simps\<close>).
  \<^item> \<open>Clib\<close>: \<^verbatim>\<open>libc/string.c, stdlib.c, ctype.c, math.c\<close>. Strings live in the memory.
    \<^verbatim>\<open>strcmp\<close> and \<^verbatim>\<open>strcpy\<close> may run forever and are partial functions; properties state that
    they return on terminated strings.
  \<^item> \<open>Fifo\<close>: \<^verbatim>\<open>include/queue.h\<close>, with the locale \<open>bounded_queue\<close> (interpretation \<open>kq\<close>).
  \<^item> \<open>Ports\<close>: port input and output and \<^verbatim>\<open>pic.c\<close>. The state \<open>env\<close> holds a stream of bytes to
    be read from each port, the log of writes, and the log of calls to the screen.
  \<^item> \<open>Descriptors\<close>: \<^verbatim>\<open>gdt.c\<close> and \<^verbatim>\<open>idt.c\<close>; one locale for both tables.
  \<^item> \<open>Interrupts\<close>: \<^verbatim>\<open>isr.c\<close>, \<^verbatim>\<open>timer.c\<close> and \<^verbatim>\<open>kpanic\<close>. What a handler does is a parameter.
  \<^item> \<open>Keyboard\<close>: \<^verbatim>\<open>keyboard.c\<close>; a specification over modifiers and scan codes, and runs that
    interleave interrupts with reads (\<open>kbd_step\<close>, \<open>kbd_run\<close>).
  \<^item> \<open>OrderedArray\<close>: \<^verbatim>\<open>ordered_array.c\<close> over the memory, with the locale \<open>hole_index\<close>.
  \<^item> \<open>Memory_State\<close>, \<open>Paging\<close>, \<open>Paging_Init\<close>: \<^verbatim>\<open>paging.c\<close> and the early part of \<^verbatim>\<open>mm.c\<close>;
    \<open>translate\<close> is the address translation of the processor, and the locale \<open>page_source\<close> is
    what \<^verbatim>\<open>get_page\<close> asks of an allocator.
  \<^item> \<open>Heap\<close>: \<^verbatim>\<open>kheap.c\<close> and the rest of \<^verbatim>\<open>mm.c\<close>; \<open>Heap_Spec\<close>: a heap as a list of blocks that
    tile it, the invariant \<open>heap_inv\<close>, and what allocation and release do to that list.
  \<^item> \<open>Heap_Aligned\<close>: page-aligned allocation, which splits a hole in front of the block; \<open>Heap_End\<close>:
    release at the end of the heap, where \<^verbatim>\<open>contract\<close> gives pages back; \<open>Heap_Grow\<close>: an allocation
    that no hole serves, where \<^verbatim>\<open>expand\<close> moves the end and the endmost hole gets the space, rightly or not.
  \<^item> \<open>Heap_Clients\<close>: the locale \<open>allocator\<close>, a contract over the set of blocks in use, with its interpretation on
    \<^verbatim>\<open>kmalloc\<close> and \<^verbatim>\<open>kfree\<close>, and the states users of the heap reach (\<open>reached\<close>).
  \<^item> \<open>Boot\<close>: \<^verbatim>\<open>heap_install\<close> on the memory \<^verbatim>\<open>paging_init\<close> leaves. The predicates \<open>mapped\<close>,
    \<open>heap_mapped\<close> and \<open>heap_area\<close> say which pages are present with which frames between the stages.
  \<^item> \<open>Video\<close>: \<^verbatim>\<open>video.c\<close>. \<open>run_calls\<close> replays a log of calls on the screen.
  \<^item> \<open>Graphics\<close> and \<open>Gui\<close>: \<^verbatim>\<open>vbe.c\<close> and \<^verbatim>\<open>gui.c\<close> on the frame buffer in memory, and the picture of a frame point by
    point. They take the frame buffer for mapped; \<open>Kernel\<close> shows that the tables \<^verbatim>\<open>kmain\<close> leaves do not map it.
  \<^item> \<open>Shell\<close>: \<^verbatim>\<open>shell.c\<close>, one turn of its loop at a time, on top of \<open>Keyboard\<close> and \<open>Gui\<close>.
  \<^item> \<open>Mouse\<close>: \<^verbatim>\<open>mouse.c\<close>, which no other part calls. A parser of the byte stream (\<open>frames\<close>) specifies the
    handler; the pipe it writes to is outside the repository, and \<open>pipe_contract\<close> is what the driver asks of it.
  \<^item> \<open>Kernel\<close>: \<^verbatim>\<open>kernel.c\<close> and \<^verbatim>\<open>common.c\<close>. \<open>kmain\<close> composes all of the above on one state
    \<open>machine\<close>; its properties chain the lemmas of the stages from the boot loader to the shell.
  \<^item> \<open>System\<close>: the running kernel. \<open>run_events\<close> dispatches interrupts through the handler table \<open>kmain\<close> filled,
    between turns of the shell, with the functions of \<open>Interrupts\<close>, \<open>Keyboard\<close> and \<open>Paging\<close> as handlers; one property
    follows a command from its scan codes to its execution. A handler and a turn each run to their end; interrupts
    inside a turn, which touch none of the shell's own variables, are not interleaved more finely.
  \<^item> \<open>Entry\<close>: the stubs of \<^verbatim>\<open>interrupt.asm\<close> as lists of instructions, on the registers, the stack and
    the memory of the processor. A stub calls the handlers of \<open>Interrupts\<close> on the frame it has pushed; what the compiled handler
    does to registers and memory is a parameter that keeps the calling convention (\<open>cdecl\<close>).
  \<^item> \<open>Loader\<close>: the header and the entry point of \<^verbatim>\<open>kentry.asm\<close>, with the header's format from \<^verbatim>\<open>multiboot.h\<close>;
    one property goes from the state a boot loader leaves to the prompt.

  How the code is represented. A \<^verbatim>\<open>w\<close>-bit unsigned integer is a \<open>w word\<close>; a signed \<^verbatim>\<open>int\<close> is
  an \<open>int\<close> whose overflow is the fault \<open>Signed_overflow\<close>, except where the code converts between
  the two. Pointers are 32-bit addresses into the memory where the code does pointer arithmetic
  (libc, paging, heap, frame buffer), and list indices with the fault \<open>Out_of_bounds\<close> where it
  indexes a fixed array (tables, rings, windows, command line). A failed \<^verbatim>\<open>ASSERT\<close> is a fault.
  State is passed explicitly; a routine that halts the processor returns \<open>Stopped\<close>.

  Fuel. \<open>map_used\<close> takes 518 turns at boot (property \<open>paging_init_identity\<close> proves them
  enough, \<open>kmain_reaches_shell\<close> for the whole boot, on memories from 74240 KB to 128 MB); the loops
  over pages in \<open>Heap\<close> get \<open>page_fuel = 2 ^ 20 + 1\<close>, one more than there are pages; \<^verbatim>\<open>alloc\<close> and \<^verbatim>\<open>kmalloc_int\<close> call each other through \<^verbatim>\<open>get_page\<close> and take a depth,
  of which an allocation that finds a hole uses one, and one that expands the heap two. The loops of \<^verbatim>\<open>mouse.c\<close> that
  wait for the device or the pipe are partial functions, shown to end when these do their part. Every other loop is shown to end.

  Not modelled: the linker script (the addresses it assigns are arguments); \<^verbatim>\<open>outportl\<close>, \<^verbatim>\<open>inportw\<close> and \<^verbatim>\<open>inportl\<close>, which
  nothing calls; of \<^verbatim>\<open>multiboot.h\<close> the structures no code uses; the prototypes, constants no code uses and
  type names of the other headers; and code that is commented out.
\<close>

end
